(* ===== verification/Prelude.thy ===== *)
theory Prelude
  imports Main "HOL-Library.Word" "HOL-Library.Monad_Syntax"
begin

text \<open>
  What the component theories share: names for the machine types of the C sources (the
  x86-64 build, where \<open>size_t\<close> and pointers have 64 bits), the development's theorem
  collections, and the generic lemmas on lists, options and words that carry the component
  proofs.
\<close>

unbundle bit_operations_syntax

section \<open>Machine types\<close>

text \<open>
  Two kinds of address are used. \<open>addr\<close> is a machine address, used where the code
  computes with addresses (the allocators). \<open>ptr\<close> names an object of a typed store,
  used where the code only follows and compares pointers; \<open>0\<close> is \<open>NULL\<close> in both.
\<close>

type_synonym u8 = "8 word"
type_synonym u16 = "16 word"
type_synonym u32 = "32 word"
type_synonym u64 = "64 word"
type_synonym size_t = "64 word"
type_synonym addr = "64 word"
type_synonym ptr = nat
type_synonym byte = "8 word"

abbreviation (input) NULL :: ptr where "NULL \<equiv> 0"

section \<open>Theorem collections\<close>

named_theorems mem_simps \<open>reads of a memory that was written, field by field\<close>
named_theorems wf_intros \<open>well-formedness of a component's state after one of its operations\<close>
named_theorems frame_simps \<open>what an operation leaves unchanged\<close>

section \<open>Lists\<close>

definition remove_nth :: "nat \<Rightarrow> 'a list \<Rightarrow> 'a list" where
  "remove_nth i xs = take i xs @ drop (Suc i) xs"

definition insert_nth :: "nat \<Rightarrow> 'a \<Rightarrow> 'a list \<Rightarrow> 'a list" where
  "insert_nth i x xs = take i xs @ x # drop i xs"

fun find_index_from :: "('a \<Rightarrow> bool) \<Rightarrow> nat \<Rightarrow> 'a list \<Rightarrow> nat option" where
  "find_index_from P i [] = None"
| "find_index_from P i (x # xs) = (if P x then Some i else find_index_from P (Suc i) xs)"

abbreviation first_index :: "('a \<Rightarrow> bool) \<Rightarrow> 'a list \<Rightarrow> nat option" where
  "first_index P xs \<equiv> find_index_from P 0 xs"

lemma length_remove_nth [simp]: "i < length xs \<Longrightarrow> length (remove_nth i xs) = length xs - 1"
  by (simp add: remove_nth_def)

lemma length_insert_nth [simp]: "i \<le> length xs \<Longrightarrow> length (insert_nth i x xs) = Suc (length xs)"
  by (simp add: insert_nth_def)

lemma remove_nth_append_Cons [simp]: "remove_nth (length as) (as @ a # bs) = as @ bs"
  by (simp add: remove_nth_def)

lemma remove_nth_0 [simp]: "remove_nth 0 (a # bs) = bs"
  by (simp add: remove_nth_def)

lemma insert_nth_append [simp]: "insert_nth (length as) x (as @ bs) = as @ x # bs"
  by (simp add: insert_nth_def)

lemma insert_nth_0 [simp]: "insert_nth 0 x xs = x # xs"
  by (simp add: insert_nth_def)

lemma insert_nth_end [simp]: "insert_nth (length xs) x xs = xs @ [x]"
  by (simp add: insert_nth_def)

lemma map_remove_nth: "map f (remove_nth i xs) = remove_nth i (map f xs)"
  by (simp add: remove_nth_def take_map drop_map)

lemma map_insert_nth: "map f (insert_nth i x xs) = insert_nth i (f x) (map f xs)"
  by (simp add: insert_nth_def take_map drop_map)

lemma set_remove_nth: "distinct xs \<Longrightarrow> i < length xs \<Longrightarrow> set (remove_nth i xs) = set xs - {xs ! i}"
  using id_take_nth_drop [of i xs]
  by (metis Diff_insert_absorb Un_insert_right distinct_append distinct.simps(2) disjoint_insert(2)
      list.simps(15) remove_nth_def set_append Un_iff)

lemma split_at_nth: "i < length xs \<Longrightarrow> \<exists>as bs. xs = as @ xs ! i # bs \<and> length as = i"
  by (rule exI [of _ "take i xs"], rule exI [of _ "drop (Suc i) xs"]) (simp add: id_take_nth_drop)

lemma split_at_le: "i \<le> length xs \<Longrightarrow> \<exists>as bs. xs = as @ bs \<and> length as = i"
  by (rule exI [of _ "take i xs"], rule exI [of _ "drop i xs"]) simp

lemma find_index_from_shift:
  "find_index_from P k xs = map_option (\<lambda>i. i + k) (find_index_from P 0 xs)"
proof (induction xs arbitrary: k)
  case (Cons x xs)
  show ?case
    using Cons [of "Suc k"] Cons [of "Suc 0"]
    by (simp add: option.map_comp comp_def)
qed simp

lemma find_index_from_Some:
  "find_index_from P k xs = Some i \<Longrightarrow>
     k \<le> i \<and> i - k < length xs \<and> P (xs ! (i - k)) \<and> (\<forall>j < i - k. \<not> P (xs ! j))"
proof (induction xs arbitrary: k)
  case (Cons x xs)
  show ?case
  proof (cases "P x")
    case True
    with Cons.prems show ?thesis by simp
  next
    case False
    with Cons have h: "Suc k \<le> i" "i - Suc k < length xs" "P (xs ! (i - Suc k))"
      "\<forall>j < i - Suc k. \<not> P (xs ! j)"
      by auto
    have "\<not> P ((x # xs) ! j)" if "j < i - k" for j
      using that False h by (cases j) auto
    moreover from h(1) have "i - k = Suc (i - Suc k)" by simp
    ultimately show ?thesis using h by simp
  qed
qed simp

lemma find_index_from_None: "find_index_from P k xs = None \<longleftrightarrow> (\<forall>x\<in>set xs. \<not> P x)"
  by (induction xs arbitrary: k) auto

lemmas first_index_SomeD = find_index_from_Some [where k = 0, simplified]

lemma last_butlast_nth: "xs \<noteq> [] \<Longrightarrow> last xs = xs ! (length xs - 1)"
  by (rule last_conv_nth)

section \<open>Words\<close>

lemma unat_plus_no_wrap:
  fixes a b :: "'a::len word"
  shows "unat a + unat b < 2 ^ LENGTH('a) \<Longrightarrow> unat (a + b) = unat a + unat b"
  using unat_add_lem by blast

lemma unat_minus_no_wrap:
  fixes a b :: "'a::len word"
  shows "b \<le> a \<Longrightarrow> unat (a - b) = unat a - unat b"
  by (rule unat_sub)

lemma unat_less_2p64 [simp]: "unat (x :: 64 word) < 18446744073709551616"
  using unsigned_less [of x] by simp

lemma unat_of_nat64: "n < 2 ^ 64 \<Longrightarrow> unat (of_nat n :: 64 word) = n"
  by (simp add: unat_of_nat take_bit_nat_eq_self)

end
