(* ===== verification/Sequence_Spec.thy ===== *)
theory Sequence_Spec
  imports Prelude
begin

text \<open>
  The interfaces of the kernel's two containers, as their clients see them. A state
  \<open>s\<close> of the implementation represents an abstract list \<open>xs\<close> (\<open>rep s xs\<close>); every
  operation is partial, \<open>None\<close> being an invalid memory access or a loop that does not end;
  an operation that allocates takes the result of its allocation, which has to be
  \<open>fresh\<close>. \<open>fifo\<close> is what the users of a queue rely on, \<open>sequence\<close> what the
  users of an indexed list rely on; every sequence is a queue when it is taken apart from
  the front, the idiom of the kernel's clean-up loops.
\<close>

section \<open>First-in first-out queues\<close>

text \<open>The loop that empties a queue: at most \<open>n\<close> rounds, stopping when nothing is left.\<close>

primrec drain :: "('s \<Rightarrow> ('a option \<times> 's) option) \<Rightarrow> nat \<Rightarrow> 's \<Rightarrow> ('a list \<times> 's) option" where
  "drain deq 0 s = Some ([], s)"
| "drain deq (Suc n) s = do {
     (r, s') \<leftarrow> deq s;
     (case r of None \<Rightarrow> Some ([], s')
      | Some x \<Rightarrow> do { (xs, s'') \<leftarrow> drain deq n s'; Some (x # xs, s'') })
   }"

text \<open>Filling a queue with a list of items, each with the allocation made for it.\<close>

fun fill :: "('s \<Rightarrow> 'a \<Rightarrow> 'm \<Rightarrow> 's option) \<Rightarrow> ('a \<times> 'm) list \<Rightarrow> 's \<Rightarrow> 's option" where
  "fill enq [] s = Some s"
| "fill enq ((x, m) # xs) s = do { s' \<leftarrow> enq s x m; fill enq xs s' }"

fun all_fresh ::
  "('s \<Rightarrow> 'a \<Rightarrow> 'm \<Rightarrow> 's option) \<Rightarrow> ('s \<Rightarrow> 'a \<Rightarrow> 'm \<Rightarrow> bool) \<Rightarrow> ('a \<times> 'm) list \<Rightarrow> 's \<Rightarrow> bool" where
  "all_fresh enq fresh [] s \<longleftrightarrow> True"
| "all_fresh enq fresh ((x, m) # xs) s \<longleftrightarrow>
     fresh s x m \<and> (case enq s x m of None \<Rightarrow> True | Some s' \<Rightarrow> all_fresh enq fresh xs s')"

locale fifo =
  fixes rep :: "'s \<Rightarrow> 'a list \<Rightarrow> bool"
    and fresh :: "'s \<Rightarrow> 'a \<Rightarrow> 'm \<Rightarrow> bool"
    and enq :: "'s \<Rightarrow> 'a \<Rightarrow> 'm \<Rightarrow> 's option"
    and deq :: "'s \<Rightarrow> ('a option \<times> 's) option"
  assumes enq_rep: "rep s xs \<Longrightarrow> fresh s x m \<Longrightarrow> \<exists>s'. enq s x m = Some s' \<and> rep s' (xs @ [x])"
    and deq_empty: "rep s [] \<Longrightarrow> deq s = Some (None, s)"
    and deq_rep: "rep s (x # xs) \<Longrightarrow> \<exists>s'. deq s = Some (Some x, s') \<and> rep s' xs"
begin

lemma drain_all: "rep s xs \<Longrightarrow> length xs < n \<Longrightarrow> \<exists>s'. drain deq n s = Some (xs, s') \<and> rep s' []"
proof (induction xs arbitrary: s n)
  case Nil
  then show ?case by (cases n) (auto simp: deq_empty)
next
  case (Cons x xs)
  from Cons.prems(2) obtain k where n: "n = Suc k" by (cases n) auto
  from deq_rep [OF Cons.prems(1)] obtain s' where s': "deq s = Some (Some x, s')" "rep s' xs"
    by blast
  with Cons.IH [of s' k] Cons.prems(2) n show ?case by auto
qed

lemma fill_all:
  "rep s ys \<Longrightarrow> all_fresh enq fresh xs s \<Longrightarrow>
     \<exists>s'. fill enq xs s = Some s' \<and> rep s' (ys @ map fst xs)"
proof (induction xs arbitrary: s ys)
  case Nil
  then show ?case by simp
next
  case (Cons xm xs)
  obtain x m where xm: "xm = (x, m)" by (cases xm)
  with Cons.prems obtain s' where s': "enq s x m = Some s'" "rep s' (ys @ [x])"
    using enq_rep [of s ys x m] by auto
  with Cons.IH [of s' "ys @ [x]"] Cons.prems xm show ?case by auto
qed

text \<open>What is put in comes out, once and in the same order.\<close>

lemma fill_drain:
  assumes "rep s []" and "all_fresh enq fresh xs s" and "length xs < n"
  shows "\<exists>s' s''. fill enq xs s = Some s' \<and> drain deq n s' = Some (map fst xs, s'') \<and> rep s'' []"
  using fill_all [OF assms(1,2)] drain_all [of _ "map fst xs" n] assms(3) by force

end

section \<open>Indexed sequences\<close>

datatype 'a seq_cmd = Add 'a | RemoveAt nat | Remove 'a | InsertAt nat 'a

text \<open>The reference semantics of the commands, on lists.\<close>

fun seq_step :: "'a seq_cmd \<Rightarrow> 'a list \<Rightarrow> 'a list" where
  "seq_step (Add x) xs = xs @ [x]"
| "seq_step (RemoveAt i) xs = (if i < length xs then remove_nth i xs else xs)"
| "seq_step (Remove x) xs = remove1 x xs"
| "seq_step (InsertAt i x) xs = (if i \<le> length xs then insert_nth i x xs else xs)"

text \<open>
  Running commands on an implementation given by its four updating operations; a command
  that allocates is paired with the result of its allocation.
\<close>

fun seq_exec ::
  "('s \<Rightarrow> 'a \<Rightarrow> 'm \<Rightarrow> 's option) \<Rightarrow> ('s \<Rightarrow> nat \<Rightarrow> (bool \<times> 's) option) \<Rightarrow>
   ('s \<Rightarrow> 'a \<Rightarrow> (bool \<times> 's) option) \<Rightarrow> ('s \<Rightarrow> nat \<Rightarrow> 'a \<Rightarrow> 'm \<Rightarrow> (bool \<times> 's) option) \<Rightarrow>
   'a seq_cmd \<Rightarrow> 'm \<Rightarrow> 's \<Rightarrow> 's option" where
  "seq_exec add rat rem ins (Add x) m s = add s x m"
| "seq_exec add rat rem ins (RemoveAt i) m s = map_option snd (rat s i)"
| "seq_exec add rat rem ins (Remove x) m s = map_option snd (rem s x)"
| "seq_exec add rat rem ins (InsertAt i x) m s = map_option snd (ins s i x m)"

fun seq_run ::
  "('a seq_cmd \<Rightarrow> 'm \<Rightarrow> 's \<Rightarrow> 's option) \<Rightarrow> ('a seq_cmd \<times> 'm) list \<Rightarrow> 's \<Rightarrow> 's option" where
  "seq_run ex [] s = Some s"
| "seq_run ex ((c, m) # cs) s = do { s' \<leftarrow> ex c m s; seq_run ex cs s' }"

fun seq_needs_fresh :: "'a seq_cmd \<Rightarrow> bool" where
  "seq_needs_fresh (Add x) = True"
| "seq_needs_fresh (InsertAt i x) = True"
| "seq_needs_fresh _ = False"

fun seq_run_fresh ::
  "('a seq_cmd \<Rightarrow> 'm \<Rightarrow> 's \<Rightarrow> 's option) \<Rightarrow> ('s \<Rightarrow> 'm \<Rightarrow> bool) \<Rightarrow>
   ('a seq_cmd \<times> 'm) list \<Rightarrow> 's \<Rightarrow> bool" where
  "seq_run_fresh ex fresh [] s \<longleftrightarrow> True"
| "seq_run_fresh ex fresh ((c, m) # cs) s \<longleftrightarrow>
     (seq_needs_fresh c \<longrightarrow> fresh s m) \<and>
     (case ex c m s of None \<Rightarrow> True | Some s' \<Rightarrow> seq_run_fresh ex fresh cs s')"

text \<open>Taking the first element, as the clean-up loops do: size, get at 0, remove at 0.\<close>

definition seq_take_first ::
  "('s \<Rightarrow> nat option) \<Rightarrow> ('s \<Rightarrow> nat \<Rightarrow> 'a option) \<Rightarrow> ('s \<Rightarrow> nat \<Rightarrow> (bool \<times> 's) option) \<Rightarrow>
   's \<Rightarrow> ('a option \<times> 's) option" where
  "seq_take_first sz get rat s = do {
     n \<leftarrow> sz s;
     if n = 0 then Some (None, s)
     else do { x \<leftarrow> get s 0; (_, s') \<leftarrow> rat s 0; Some (Some x, s') }
   }"

locale sequence =
  fixes rep :: "'s \<Rightarrow> 'a list \<Rightarrow> bool"
    and fresh :: "'s \<Rightarrow> 'm \<Rightarrow> bool"
    and add :: "'s \<Rightarrow> 'a \<Rightarrow> 'm \<Rightarrow> 's option"
    and remove_at :: "'s \<Rightarrow> nat \<Rightarrow> (bool \<times> 's) option"
    and remove :: "'s \<Rightarrow> 'a \<Rightarrow> (bool \<times> 's) option"
    and insert_at :: "'s \<Rightarrow> nat \<Rightarrow> 'a \<Rightarrow> 'm \<Rightarrow> (bool \<times> 's) option"
    and get_at :: "'s \<Rightarrow> nat \<Rightarrow> 'a option"
    and size_of :: "'s \<Rightarrow> nat option"
  assumes add_rep: "rep s xs \<Longrightarrow> fresh s m \<Longrightarrow> \<exists>s'. add s x m = Some s' \<and> rep s' (xs @ [x])"
    and remove_at_rep: "rep s xs \<Longrightarrow>
      \<exists>s'. remove_at s i = Some (i < length xs, s') \<and> rep s' (seq_step (RemoveAt i) xs)"
    and remove_rep: "rep s xs \<Longrightarrow> \<exists>s'. remove s x = Some (x \<in> set xs, s') \<and> rep s' (remove1 x xs)"
    and insert_at_rep: "rep s xs \<Longrightarrow> fresh s m \<Longrightarrow>
      \<exists>s'. insert_at s i x m = Some (i \<le> length xs, s') \<and> rep s' (seq_step (InsertAt i x) xs)"
    and get_rep: "rep s xs \<Longrightarrow> i < length xs \<Longrightarrow> get_at s i = Some (xs ! i)"
    and size_rep: "rep s xs \<Longrightarrow> size_of s = Some (length xs)"
begin

lemma exec_rep:
  assumes "rep s xs" and "seq_needs_fresh c \<Longrightarrow> fresh s m"
  shows "\<exists>s'. seq_exec add remove_at remove insert_at c m s = Some s' \<and> rep s' (seq_step c xs)"
proof (cases c)
  case (Add x)
  with assms add_rep [of s xs m x] show ?thesis by simp
next
  case (RemoveAt i)
  with assms remove_at_rep [of s xs i] show ?thesis by auto
next
  case (Remove x)
  with assms remove_rep [of s xs x] show ?thesis by auto
next
  case (InsertAt i x)
  with assms insert_at_rep [of s xs m i x] show ?thesis by auto
qed

lemma run_rep:
  "rep s xs \<Longrightarrow> seq_run_fresh (seq_exec add remove_at remove insert_at) fresh cs s \<Longrightarrow>
     \<exists>s'. seq_run (seq_exec add remove_at remove insert_at) cs s = Some s' \<and>
       rep s' (fold seq_step (map fst cs) xs)"
proof (induction cs arbitrary: s xs)
  case (Cons cm cs)
  obtain c m where cm: "cm = (c, m)" by (cases cm)
  from exec_rep [OF Cons.prems(1), of c m] Cons.prems(2) cm
  obtain s' where s': "seq_exec add remove_at remove insert_at c m s = Some s'" "rep s' (seq_step c xs)"
    by auto
  with Cons.IH [OF s'(2)] Cons.prems(2) cm show ?case by simp
qed simp

lemma take_first_rep:
  assumes "rep s (x # xs)"
  shows "\<exists>s'. seq_take_first size_of get_at remove_at s = Some (Some x, s') \<and> rep s' xs"
  using remove_at_rep [OF assms, of 0] get_rep [OF assms, of 0] size_rep [OF assms]
  by (auto simp: seq_take_first_def)

lemma take_first_empty: "rep s [] \<Longrightarrow> seq_take_first size_of get_at remove_at s = Some (None, s)"
  using size_rep [of s "[]"] by (simp add: seq_take_first_def)

end

text \<open>Every sequence is a queue when it is filled at the end and emptied from the front.\<close>

sublocale sequence \<subseteq> front: fifo rep "\<lambda>s x m. fresh s m" add "seq_take_first size_of get_at remove_at"
  by unfold_locales (auto intro: take_first_rep take_first_empty add_rep)

end
