(* ===== verification/Linked_List.thy ===== *)
theory Linked_List
  imports Sequence_Spec
begin

text \<open>
  The kernel's singly linked list (kernel/list.c, kernel\_include/list.h): a header with
  head, tail and count, and nodes that hold an untyped data pointer. The model is at pointer
  level: a store of list headers and a store of nodes, changed field by field as the C code
  does. Every operation is a function into \<open>option\<close>: \<open>None\<close> is a dereference of
  \<open>NULL\<close> or of a freed node, or a loop that does not end. The pointer that an operation's
  \<open>malloc\<close> returned is an argument (\<open>0\<close> when the allocation failed).
\<close>

section \<open>State\<close>

record ListNode =
  ln_next :: ptr
  ln_data :: ptr

record List =
  l_head :: ptr
  l_tail :: ptr
  l_count :: nat

text \<open>\<open>freed\<close> records the calls of \<open>free\<close>, the latest first.\<close>

record list_heap =
  lists :: "ptr \<rightharpoonup> List"
  nodes :: "ptr \<rightharpoonup> ListNode"
  freed :: "ptr list"

definition list_at :: "list_heap \<Rightarrow> ptr \<Rightarrow> List option" where
  "list_at s p = (if p = NULL then None else lists s p)"

definition node_at :: "list_heap \<Rightarrow> ptr \<Rightarrow> ListNode option" where
  "node_at s p = (if p = NULL then None else nodes s p)"

definition set_list :: "list_heap \<Rightarrow> ptr \<Rightarrow> List \<Rightarrow> list_heap" where
  "set_list s p l = s\<lparr>lists := (lists s)(p \<mapsto> l)\<rparr>"

definition set_node :: "list_heap \<Rightarrow> ptr \<Rightarrow> ListNode \<Rightarrow> list_heap" where
  "set_node s p n = s\<lparr>nodes := (nodes s)(p \<mapsto> n)\<rparr>"

definition free_node :: "list_heap \<Rightarrow> ptr \<Rightarrow> list_heap" where
  "free_node s p = s\<lparr>nodes := (nodes s)(p := None), freed := p # freed s\<rparr>"

definition free_data :: "list_heap \<Rightarrow> ptr \<Rightarrow> list_heap" where
  "free_data s d = s\<lparr>freed := d # freed s\<rparr>"

definition free_list :: "list_heap \<Rightarrow> ptr \<Rightarrow> list_heap" where
  "free_list s p = s\<lparr>lists := (lists s)(p := None), freed := p # freed s\<rparr>"

section \<open>Operations\<close>

definition List_Init :: "list_heap \<Rightarrow> ptr \<Rightarrow> list_heap option" where
  "List_Init s list =
     (if list = NULL then Some s
      else Some (set_list s list \<lparr>l_head = NULL, l_tail = NULL, l_count = 0\<rparr>))"

definition List_Create :: "list_heap \<Rightarrow> ptr \<Rightarrow> (ptr \<times> list_heap) option" where
  "List_Create s m =
     (if m = NULL then Some (NULL, s)
      else do { s' \<leftarrow> List_Init s m; Some (m, s') })"

definition List_Add :: "list_heap \<Rightarrow> ptr \<Rightarrow> ptr \<Rightarrow> ptr \<Rightarrow> list_heap option" where
  "List_Add s self item m =
     (if self = NULL then Some s
      else if m = NULL then Some s
      else do {
        l \<leftarrow> list_at s self;
        let s1 = set_node s m \<lparr>ln_next = NULL, ln_data = item\<rparr>;
        if l_head l = NULL
        then Some (set_list s1 self (l\<lparr>l_head := m, l_tail := m, l_count := l_count l + 1\<rparr>))
        else do {
          t \<leftarrow> node_at s1 (l_tail l);
          Some (set_list (set_node s1 (l_tail l) (t\<lparr>ln_next := m\<rparr>)) self
                  (l\<lparr>l_tail := m, l_count := l_count l + 1\<rparr>))
        }
      })"

text \<open>\<open>for (i = 0; i < index; ++i) { prev = cur; cur = cur->next; }\<close>\<close>

primrec list_walk :: "list_heap \<Rightarrow> nat \<Rightarrow> ptr \<Rightarrow> ptr \<Rightarrow> (ptr \<times> ptr) option" where
  "list_walk s 0 prev cur = Some (prev, cur)"
| "list_walk s (Suc k) prev cur = do { n \<leftarrow> node_at s cur; list_walk s k cur (ln_next n) }"

text \<open>
  Taking \<open>cur\<close> out of the list behind \<open>prev\<close>: the code shared by \<open>List_RemoveAt\<close>
  and \<open>List_Remove\<close>.
\<close>

definition list_unlink :: "list_heap \<Rightarrow> ptr \<Rightarrow> ptr \<Rightarrow> ptr \<Rightarrow> (bool \<times> list_heap) option" where
  "list_unlink s self prev cur = do {
     l \<leftarrow> list_at s self;
     n \<leftarrow> node_at s cur;
     (s1, l1) \<leftarrow>
       (if prev = NULL
        then Some (s, l\<lparr>l_head := ln_next n, l_tail := if l_tail l = cur then ln_next n else l_tail l\<rparr>)
        else do {
          p \<leftarrow> node_at s prev;
          Some (set_node s prev (p\<lparr>ln_next := ln_next n\<rparr>),
                l\<lparr>l_tail := if l_tail l = cur then prev else l_tail l\<rparr>)
        });
     Some (True, set_list (free_node s1 cur) self (l1\<lparr>l_count := l_count l1 - 1\<rparr>))
   }"

definition List_RemoveAt :: "list_heap \<Rightarrow> ptr \<Rightarrow> nat \<Rightarrow> (bool \<times> list_heap) option" where
  "List_RemoveAt s self index =
     (if self = NULL then Some (False, s)
      else do {
        l \<leftarrow> list_at s self;
        if l_count l \<le> index then Some (False, s)
        else do {
          (prev, cur) \<leftarrow> list_walk s index NULL (l_head l);
          list_unlink s self prev cur
        }
      })"

definition List_RemoveAtIndex :: "list_heap \<Rightarrow> ptr \<Rightarrow> nat \<Rightarrow> (bool \<times> list_heap) option" where
  "List_RemoveAtIndex s self index = List_RemoveAt s self index"

partial_function (option) remove_loop ::
  "list_heap \<Rightarrow> ptr \<Rightarrow> ptr \<Rightarrow> ptr \<Rightarrow> ptr \<Rightarrow> (bool \<times> list_heap) option" where
  "remove_loop s self item prev cur =
     (if cur = NULL then Some (False, s)
      else Option.bind (node_at s cur) (\<lambda>n.
        if ln_data n = item then list_unlink s self prev cur
        else remove_loop s self item cur (ln_next n)))"

definition List_Remove :: "list_heap \<Rightarrow> ptr \<Rightarrow> ptr \<Rightarrow> (bool \<times> list_heap) option" where
  "List_Remove s self item =
     (if self = NULL then Some (False, s)
      else do { l \<leftarrow> list_at s self; remove_loop s self item NULL (l_head l) })"

partial_function (option) index_loop :: "list_heap \<Rightarrow> ptr \<Rightarrow> ptr \<Rightarrow> nat \<Rightarrow> int option" where
  "index_loop s item n idx =
     (if n = NULL then Some (-1)
      else Option.bind (node_at s n) (\<lambda>x.
        if ln_data x = item then Some (int idx)
        else index_loop s item (ln_next x) (idx + 1)))"

definition List_IndexOf :: "list_heap \<Rightarrow> ptr \<Rightarrow> ptr \<Rightarrow> int option" where
  "List_IndexOf s self item =
     (if self = NULL then Some (-1)
      else do { l \<leftarrow> list_at s self; index_loop s item (l_head l) 0 })"

definition List_GetAt :: "list_heap \<Rightarrow> ptr \<Rightarrow> nat \<Rightarrow> ptr option" where
  "List_GetAt s self index =
     (if self = NULL then Some NULL
      else do {
        l \<leftarrow> list_at s self;
        if l_count l \<le> index then Some NULL
        else do {
          (_, n) \<leftarrow> list_walk s index NULL (l_head l);
          if n = NULL then Some NULL else do { x \<leftarrow> node_at s n; Some (ln_data x) }
        }
      })"

definition List_InsertAt :: "list_heap \<Rightarrow> ptr \<Rightarrow> nat \<Rightarrow> ptr \<Rightarrow> ptr \<Rightarrow> (bool \<times> list_heap) option" where
  "List_InsertAt s self index item m =
     (if self = NULL then Some (False, s)
      else do {
        l \<leftarrow> list_at s self;
        if l_count l < index then Some (False, s)
        else if index = l_count l then do { s' \<leftarrow> List_Add s self item m; Some (True, s') }
        else if m = NULL then Some (False, s)
        else if index = 0 then
          Some (True, set_list (set_node s m \<lparr>ln_next = l_head l, ln_data = item\<rparr>) self
                  (l\<lparr>l_head := m, l_tail := if l_tail l = NULL then m else l_tail l,
                     l_count := l_count l + 1\<rparr>))
        else do {
          (_, prev) \<leftarrow> list_walk s (index - 1) NULL (l_head l);
          p \<leftarrow> node_at s prev;
          let s1 = set_node s m \<lparr>ln_next = ln_next p, ln_data = item\<rparr>;
          p1 \<leftarrow> node_at s1 prev;
          Some (True, set_list (set_node s1 prev (p1\<lparr>ln_next := m\<rparr>)) self
                  (l\<lparr>l_tail := if ln_next p = NULL then m else l_tail l,
                     l_count := l_count l + 1\<rparr>))
        }
      })"

partial_function (option) clear_loop :: "list_heap \<Rightarrow> bool \<Rightarrow> ptr \<Rightarrow> list_heap option" where
  "clear_loop s freeData n =
     (if n = NULL then Some s
      else Option.bind (node_at s n) (\<lambda>x.
        clear_loop (free_node (if freeData \<and> ln_data x \<noteq> NULL then free_data s (ln_data x) else s) n)
          freeData (ln_next x)))"

definition List_Clear :: "list_heap \<Rightarrow> ptr \<Rightarrow> bool \<Rightarrow> list_heap option" where
  "List_Clear s self freeData =
     (if self = NULL then Some s
      else do {
        l \<leftarrow> list_at s self;
        s1 \<leftarrow> clear_loop s freeData (l_head l);
        Some (set_list s1 self (l\<lparr>l_head := NULL, l_tail := NULL, l_count := 0\<rparr>))
      })"

definition List_Destroy :: "list_heap \<Rightarrow> ptr \<Rightarrow> bool \<Rightarrow> list_heap option" where
  "List_Destroy s list freeData =
     (if list = NULL then Some s
      else do { s1 \<leftarrow> List_Clear s list freeData; Some (free_list s1 list) })"

definition List_Size :: "list_heap \<Rightarrow> ptr \<Rightarrow> nat option" where
  "List_Size s list = (if list = NULL then Some 0 else do { l \<leftarrow> list_at s list; Some (l_count l) })"

definition List_IsEmpty :: "list_heap \<Rightarrow> ptr \<Rightarrow> bool option" where
  "List_IsEmpty s list =
     (if list = NULL then Some True else do { l \<leftarrow> list_at s list; Some (l_count l = 0) })"

definition List_Foreach_Begin :: "list_heap \<Rightarrow> ptr \<Rightarrow> ptr option" where
  "List_Foreach_Begin s list =
     (if list = NULL then Some NULL
      else do { l \<leftarrow> list_at s list; Some (if l_count l = 0 then NULL else l_head l) })"

definition List_Foreach_Next :: "list_heap \<Rightarrow> ptr \<Rightarrow> ptr option" where
  "List_Foreach_Next s node =
     (if node = NULL then Some NULL else do { n \<leftarrow> node_at s node; Some (ln_next n) })"

definition List_Foreach_Data :: "list_heap \<Rightarrow> ptr \<Rightarrow> ptr option" where
  "List_Foreach_Data s node =
     (if node = NULL then Some NULL else do { n \<leftarrow> node_at s node; Some (ln_data n) })"

declare remove_loop.simps [code] index_loop.simps [code] clear_loop.simps [code]

section \<open>Well-formed lists\<close>

text \<open>
  \<open>chain ns p ps q\<close>: following the next pointers from \<open>p\<close> visits the nodes
  \<open>ps\<close> and arrives at \<open>q\<close>. A list is well formed when its nodes form a chain from
  its head to \<open>NULL\<close> and its tail and count agree with that chain.
\<close>

fun chain :: "(ptr \<rightharpoonup> ListNode) \<Rightarrow> ptr \<Rightarrow> ptr list \<Rightarrow> ptr \<Rightarrow> bool" where
  "chain ns p [] q \<longleftrightarrow> p = q"
| "chain ns p (a # as) q \<longleftrightarrow>
     p = a \<and> a \<noteq> NULL \<and> (case ns a of None \<Rightarrow> False | Some n \<Rightarrow> chain ns (ln_next n) as q)"

definition last_ptr :: "ptr list \<Rightarrow> ptr" where
  "last_ptr ps = (if ps = [] then NULL else last ps)"

definition wf_list :: "list_heap \<Rightarrow> ptr \<Rightarrow> ptr list \<Rightarrow> bool" where
  "wf_list s self ps \<longleftrightarrow>
     self \<noteq> NULL \<and> distinct ps \<and>
     (case lists s self of None \<Rightarrow> False
      | Some l \<Rightarrow> chain (nodes s) (l_head l) ps NULL \<and> l_tail l = last_ptr ps \<and> l_count l = length ps)"

text \<open>The abstract value of a list: the data pointers of its nodes, in order.\<close>

definition node_data :: "list_heap \<Rightarrow> ptr \<Rightarrow> ptr" where
  "node_data s a = (case nodes s a of None \<Rightarrow> NULL | Some n \<Rightarrow> ln_data n)"

definition list_data :: "list_heap \<Rightarrow> ptr list \<Rightarrow> ptr list" where
  "list_data s ps = map (node_data s) ps"

lemma chain_append:
  "chain ns p (as @ bs) q \<longleftrightarrow> (\<exists>r. chain ns p as r \<and> chain ns r bs q)"
  by (induction as arbitrary: p) (auto split: option.splits)

lemma chain_upd [simp]: "a \<notin> set as \<Longrightarrow> chain (ns(a := v)) p as q = chain ns p as q"
  by (induction as arbitrary: p) (auto split: option.splits)

lemma chain_Cons_D:
  "chain ns p (a # as) q \<Longrightarrow> p = a \<and> a \<noteq> NULL \<and> (\<exists>n. ns a = Some n \<and> chain ns (ln_next n) as q)"
  by (auto split: option.splits)

lemma chain_hd: "chain ns p as NULL \<Longrightarrow> p = (if as = [] then NULL else hd as)"
  by (cases as) auto

lemma chain_nonnull: "chain ns p as q \<Longrightarrow> a \<in> set as \<Longrightarrow> a \<noteq> NULL \<and> (\<exists>n. ns a = Some n)"
  by (induction as arbitrary: p) (auto split: option.splits)

lemma chain_snoc_redirect:
  assumes "chain ns p (as @ [a]) q" and "a \<notin> set as" and "ns a = Some n"
  shows "chain (ns(a \<mapsto> n\<lparr>ln_next := r\<rparr>)) p (as @ [a]) r"
  using assms by (auto simp: chain_append)

lemma wf_list_nonnull: "wf_list s self ps \<Longrightarrow> a \<in> set ps \<Longrightarrow> a \<noteq> NULL \<and> (\<exists>n. nodes s a = Some n)"
  by (auto simp: wf_list_def split: option.splits dest: chain_nonnull)

lemma wf_listE:
  assumes "wf_list s self ps"
  obtains l where "self \<noteq> NULL" "distinct ps" "lists s self = Some l" "list_at s self = Some l"
    "chain (nodes s) (l_head l) ps NULL" "l_tail l = last_ptr ps" "l_count l = length ps"
  using assms by (auto simp: wf_list_def list_at_def split: option.splits)

lemmas store_simps = set_list_def set_node_def free_node_def free_data_def list_at_def node_at_def

lemma last_ptr_simps [simp]:
  "last_ptr [] = NULL" "last_ptr (ps @ [p]) = p" "bs \<noteq> [] \<Longrightarrow> last_ptr (as @ bs) = last_ptr bs"
  "last_ptr [p] = p"
  by (auto simp: last_ptr_def)

lemma last_ptr_in: "ps \<noteq> [] \<Longrightarrow> last_ptr ps \<in> set ps"
  by (simp add: last_ptr_def)

lemma last_ptr_Cons: "last_ptr (a # bs) = (if bs = [] then a else last_ptr bs)"
  by (simp add: last_ptr_def)

section \<open>Behaviour of the operations\<close>

lemma List_Add_wf:
  assumes wf: "wf_list s self ps" and fresh: "m \<noteq> NULL" "nodes s m = None"
  shows "\<exists>s'. List_Add s self item m = Some s' \<and> wf_list s' self (ps @ [m]) \<and>
     list_data s' (ps @ [m]) = list_data s ps @ [item] \<and>
     (\<forall>a. a \<notin> set ps \<and> a \<noteq> m \<longrightarrow> nodes s' a = nodes s a) \<and>
     (\<forall>b. b \<noteq> self \<longrightarrow> lists s' b = lists s b) \<and> freed s' = freed s"
proof -
  from wf obtain l where l: "self \<noteq> NULL" "distinct ps" "lists s self = Some l"
    "chain (nodes s) (l_head l) ps NULL" "l_tail l = last_ptr ps" "l_count l = length ps"
    by (rule wf_listE)
  have m: "m \<notin> set ps"
    using wf fresh by (auto dest: wf_list_nonnull)
  show ?thesis
  proof (cases ps rule: rev_cases)
    case Nil
    with l fresh show ?thesis
      by (auto simp: List_Add_def store_simps wf_list_def list_data_def node_data_def)
  next
    case (snoc as t)
    obtain n where t: "t \<noteq> NULL" "nodes s t = Some n"
      using wf snoc by (auto dest: wf_list_nonnull)
    have tm: "t \<noteq> m" "m \<notin> set as" "t \<notin> set as"
      using m snoc l by auto
    have hd: "l_head l \<noteq> NULL"
      using l snoc by (cases as) (auto split: option.splits)
    have "chain ((nodes s)(m \<mapsto> \<lparr>ln_next = NULL, ln_data = item\<rparr>)) (l_head l) (as @ [t]) NULL"
      using l snoc m by (simp del: chain.simps)
    then have "chain ((nodes s)(m \<mapsto> \<lparr>ln_next = NULL, ln_data = item\<rparr>, t \<mapsto> n\<lparr>ln_next := m\<rparr>))
        (l_head l) (as @ [t]) m"
      using tm t by (intro chain_snoc_redirect) auto
    then have "chain ((nodes s)(m \<mapsto> \<lparr>ln_next = NULL, ln_data = item\<rparr>, t \<mapsto> n\<lparr>ln_next := m\<rparr>))
        (l_head l) (as @ [t] @ [m]) NULL"
      using fresh tm by (auto simp: chain_append)
    with l hd t tm snoc fresh show ?thesis
      by (auto simp: List_Add_def store_simps wf_list_def list_data_def node_data_def last_ptr_Cons)
  qed
qed

lemma List_Add_oom: "List_Add s self item NULL = Some s"
  by (simp add: List_Add_def)

lemma list_walk_chain:
  assumes "chain (nodes s) p (as @ a # bs) q"
  shows "list_walk s (length as) prev p = Some (if as = [] then prev else last as, a)"
  using assms
proof (induction as arbitrary: p prev)
  case (Cons b as)
  from Cons.prems obtain n where n: "p = b" "b \<noteq> NULL" "nodes s b = Some n"
    "chain (nodes s) (ln_next n) (as @ a # bs) q"
    by (auto split: option.splits)
  with Cons.IH [of "ln_next n" b] show ?case
    by (simp add: node_at_def)
qed auto

lemma list_unlink_wf:
  assumes wf: "wf_list s self (as @ a # bs)" and prev: "prev = last_ptr as"
  shows "\<exists>s'. list_unlink s self prev a = Some (True, s') \<and> wf_list s' self (as @ bs) \<and>
     list_data s' (as @ bs) = list_data s (as @ bs) \<and> nodes s' a = None \<and>
     (\<forall>b. b \<notin> set (as @ a # bs) \<longrightarrow> nodes s' b = nodes s b) \<and>
     (\<forall>b. b \<noteq> self \<longrightarrow> lists s' b = lists s b) \<and> freed s' = a # freed s"
proof -
  from wf obtain l where l: "self \<noteq> NULL" "distinct (as @ a # bs)" "lists s self = Some l"
    "chain (nodes s) (l_head l) (as @ a # bs) NULL" "l_tail l = last_ptr (as @ a # bs)"
    "l_count l = length (as @ a # bs)"
    by (rule wf_listE)
  from l(4) obtain n where n: "chain (nodes s) (l_head l) as a" "a \<noteq> NULL" "nodes s a = Some n"
    "chain (nodes s) (ln_next n) bs NULL"
    by (auto simp: chain_append split: option.splits)
  have nxt: "ln_next n = (if bs = [] then NULL else hd bs)"
    using n(4) by (rule chain_hd)
  have tl: "l_tail l = a \<longleftrightarrow> bs = []"
    using l(2,5) by (cases bs rule: rev_cases) (auto simp: last_ptr_def)
  show ?thesis
  proof (cases as rule: rev_cases)
    case Nil
    with l n nxt tl prev show ?thesis
      by (auto simp: list_unlink_def store_simps wf_list_def list_data_def node_data_def last_ptr_Cons)
  next
    case (snoc cs c)
    obtain k where k: "c \<noteq> NULL" "nodes s c = Some k"
      using wf snoc by (auto dest: wf_list_nonnull)
    have "chain ((nodes s)(c \<mapsto> k\<lparr>ln_next := ln_next n\<rparr>)) (l_head l) (cs @ [c]) (ln_next n)"
      using n(1) snoc l(2) k by (intro chain_snoc_redirect) auto
    then have "chain ((nodes s)(c \<mapsto> k\<lparr>ln_next := ln_next n\<rparr>, a := None)) (l_head l) ((cs @ [c]) @ bs) NULL"
      using n l(2) snoc k by (auto simp: chain_append)
    with l n tl prev snoc k show ?thesis
      by (auto simp: list_unlink_def store_simps wf_list_def list_data_def node_data_def last_ptr_def)
  qed
qed

lemma List_RemoveAt_wf:
  assumes wf: "wf_list s self ps" and i: "i < length ps"
  shows "\<exists>s'. List_RemoveAt s self i = Some (True, s') \<and> wf_list s' self (remove_nth i ps) \<and>
     list_data s' (remove_nth i ps) = remove_nth i (list_data s ps) \<and> nodes s' (ps ! i) = None \<and>
     (\<forall>b. b \<notin> set ps \<longrightarrow> nodes s' b = nodes s b) \<and>
     (\<forall>b. b \<noteq> self \<longrightarrow> lists s' b = lists s b) \<and> freed s' = ps ! i # freed s"
proof -
  obtain as a bs where pa: "ps = as @ a # bs" and ps: "ps ! i = a" "length as = i"
    using split_at_nth [OF i] by blast
  from wf obtain l where l: "self \<noteq> NULL" "list_at s self = Some l"
    "chain (nodes s) (l_head l) ps NULL" "l_count l = length ps"
    by (rule wf_listE)
  have w: "list_walk s i NULL (l_head l) = Some (last_ptr as, a)"
    using list_walk_chain [of s "l_head l" as a bs NULL NULL] l pa ps(2) by (simp add: last_ptr_def)
  have "List_RemoveAt s self i = list_unlink s self (last_ptr as) a"
    using l w i by (simp add: List_RemoveAt_def)
  moreover have r: "remove_nth i ps = as @ bs"
    using pa ps(2) by auto
  moreover have "list_data s (as @ bs) = remove_nth i (list_data s ps)"
    unfolding list_data_def r [symmetric] by (rule map_remove_nth)
  ultimately show ?thesis
    using list_unlink_wf [of s self as a bs "last_ptr as"] wf pa ps by auto
qed

lemma List_RemoveAt_range:
  assumes "wf_list s self ps" and "length ps \<le> i"
  shows "List_RemoveAt s self i = Some (False, s)"
  using assms by (auto simp: List_RemoveAt_def elim!: wf_listE)

lemma remove_loop_wf:
  assumes "wf_list s self (as @ bs)" and "chain (nodes s) cur bs NULL"
    and "item \<notin> set (list_data s as)"
  shows "if item \<in> set (list_data s bs)
     then \<exists>s' ps'. remove_loop s self item (last_ptr as) cur = Some (True, s') \<and> wf_list s' self ps' \<and>
       list_data s' ps' = list_data s as @ remove1 item (list_data s bs) \<and>
       set ps' \<subseteq> set (as @ bs) \<and>
       (\<forall>b. b \<notin> set (as @ bs) \<longrightarrow> nodes s' b = nodes s b) \<and>
       (\<forall>b. b \<noteq> self \<longrightarrow> lists s' b = lists s b)
     else remove_loop s self item (last_ptr as) cur = Some (False, s)"
  using assms
proof (induction bs arbitrary: as cur)
  case Nil
  then show ?case by (simp add: remove_loop.simps list_data_def)
next
  case (Cons a bs)
  then obtain n where n: "cur = a" "a \<noteq> NULL" "nodes s a = Some n" "chain (nodes s) (ln_next n) bs NULL"
    by (auto split: option.splits)
  have unf: "remove_loop s self item (last_ptr as) cur =
      (if ln_data n = item then list_unlink s self (last_ptr as) a
       else remove_loop s self item a (ln_next n))"
    using n by (subst remove_loop.simps) (simp add: node_at_def)
  have d: "list_data s (a # bs) = ln_data n # list_data s bs"
    using n by (simp add: list_data_def node_data_def)
  show ?case
  proof (cases "ln_data n = item")
    case True
    then show ?thesis
      using list_unlink_wf [of s self as a bs "last_ptr as"] Cons.prems(1) unf d
      by (auto simp: list_data_def intro!: exI [of _ "as @ bs"])
  next
    case False
    have "list_data s (as @ [a]) = list_data s as @ [ln_data n]"
      using n by (simp add: list_data_def node_data_def)
    then show ?thesis
      using Cons.IH [of "as @ [a]" "ln_next n"] Cons.prems n False unf d by auto
  qed
qed

lemma List_Remove_wf:
  assumes wf: "wf_list s self ps"
  shows "\<exists>s' ps'. List_Remove s self item = Some (item \<in> set (list_data s ps), s') \<and>
     wf_list s' self ps' \<and> list_data s' ps' = remove1 item (list_data s ps) \<and>
     set ps' \<subseteq> set ps \<and> (\<forall>b. b \<notin> set ps \<longrightarrow> nodes s' b = nodes s b) \<and>
     (\<forall>b. b \<noteq> self \<longrightarrow> lists s' b = lists s b)"
proof -
  from wf obtain l where l: "self \<noteq> NULL" "list_at s self = Some l" "chain (nodes s) (l_head l) ps NULL"
    by (rule wf_listE)
  have eq: "List_Remove s self item = remove_loop s self item NULL (l_head l)"
    using l by (simp add: List_Remove_def)
  show ?thesis
  proof (cases "item \<in> set (list_data s ps)")
    case True
    then show ?thesis
      using remove_loop_wf [of s self "[]" ps "l_head l" item] wf l eq
      by (auto simp: list_data_def)
  next
    case False
    then have "remove_loop s self item NULL (l_head l) = Some (False, s)"
      using remove_loop_wf [of s self "[]" ps "l_head l" item] wf l by (auto simp: list_data_def)
    with False eq wf show ?thesis
      by (auto simp: remove1_idem intro!: exI [of _ ps])
  qed
qed

lemma index_loop_chain:
  assumes "chain (nodes s) p ps NULL"
  shows "index_loop s item p k =
     Some (case find_index_from (\<lambda>d. d = item) k (list_data s ps) of None \<Rightarrow> -1 | Some i \<Rightarrow> int i)"
  using assms
proof (induction ps arbitrary: p k)
  case Nil
  then show ?case by (simp add: index_loop.simps list_data_def)
next
  case (Cons a ps)
  then obtain n where n: "p = a" "a \<noteq> NULL" "nodes s a = Some n" "chain (nodes s) (ln_next n) ps NULL"
    by (auto split: option.splits)
  then show ?case
    using Cons.IH [of "ln_next n" "Suc k"]
    by (subst index_loop.simps) (simp add: node_at_def list_data_def node_data_def)
qed

lemma List_IndexOf_wf:
  assumes "wf_list s self ps"
  shows "List_IndexOf s self item =
     Some (case first_index (\<lambda>d. d = item) (list_data s ps) of None \<Rightarrow> -1 | Some i \<Rightarrow> int i)"
  using assms index_loop_chain [of s _ ps item 0]
  by (auto simp: List_IndexOf_def elim!: wf_listE)

lemma List_GetAt_wf:
  assumes wf: "wf_list s self ps"
  shows "List_GetAt s self i = Some (if i < length ps then list_data s ps ! i else NULL)"
proof (cases "i < length ps")
  case True
  obtain as bs where ps: "ps = as @ ps ! i # bs" "length as = i"
    using split_at_nth [OF True] by blast
  from wf obtain l where l: "self \<noteq> NULL" "list_at s self = Some l"
    "chain (nodes s) (l_head l) ps NULL" "l_count l = length ps"
    by (rule wf_listE)
  have "list_walk s i NULL (l_head l) = Some (last_ptr as, ps ! i)"
    using list_walk_chain [of s "l_head l" as "ps ! i" bs NULL NULL] l ps by (simp add: last_ptr_def)
  moreover obtain n where "ps ! i \<noteq> NULL" "nodes s (ps ! i) = Some n"
    using wf_list_nonnull [OF wf, of "ps ! i"] True by auto
  ultimately show ?thesis
    using l True by (simp add: List_GetAt_def node_at_def list_data_def node_data_def)
next
  case False
  with wf show ?thesis by (auto simp: List_GetAt_def elim!: wf_listE)
qed

lemma List_InsertAt_middle:
  assumes wf: "wf_list s self (cs @ c # bs)" and bs: "bs \<noteq> []"
    and fresh: "m \<noteq> NULL" "nodes s m = None"
  shows "\<exists>s'. List_InsertAt s self (Suc (length cs)) item m = Some (True, s') \<and>
     wf_list s' self (cs @ c # m # bs) \<and>
     list_data s' (cs @ c # m # bs) = list_data s (cs @ [c]) @ item # list_data s bs \<and>
     (\<forall>a. a \<notin> set (cs @ c # bs) \<and> a \<noteq> m \<longrightarrow> nodes s' a = nodes s a) \<and>
     (\<forall>b. b \<noteq> self \<longrightarrow> lists s' b = lists s b) \<and> freed s' = freed s"
proof -
  from wf obtain l where l: "self \<noteq> NULL" "distinct (cs @ c # bs)" "lists s self = Some l"
    "list_at s self = Some l" "chain (nodes s) (l_head l) (cs @ c # bs) NULL"
    "l_tail l = last_ptr (cs @ c # bs)" "l_count l = length (cs @ c # bs)"
    by (rule wf_listE)
  have m: "m \<notin> set (cs @ c # bs)"
    using wf fresh by (metis wf_list_nonnull option.distinct(1))
  from l(5) obtain n where n: "chain (nodes s) (l_head l) cs c" "c \<noteq> NULL" "nodes s c = Some n"
    "chain (nodes s) (ln_next n) bs NULL"
    by (auto simp: chain_append split: option.splits)
  have nz: "ln_next n \<noteq> NULL"
    using n(4) bs by (cases bs) auto
  have w: "list_walk s (length cs) NULL (l_head l) = Some (last_ptr cs, c)"
    using list_walk_chain [of s "l_head l" cs c bs NULL NULL] l(5) by (simp add: last_ptr_def)
  let ?ns = "(nodes s)(m \<mapsto> \<lparr>ln_next = ln_next n, ln_data = item\<rparr>, c \<mapsto> n\<lparr>ln_next := m\<rparr>)"
  have "chain ?ns (l_head l) cs c" "chain ?ns (ln_next n) bs NULL"
    using n m l(2) by simp_all
  then have "chain ?ns (l_head l) (cs @ c # m # bs) NULL"
    using n(2) m fresh(1) by (auto simp: chain_append)
  with l n m w nz bs fresh show ?thesis
    by (auto simp: List_InsertAt_def store_simps wf_list_def list_data_def node_data_def last_ptr_Cons)
qed

lemma List_InsertAt_wf:
  assumes wf: "wf_list s self ps" and i: "i \<le> length ps"
    and fresh: "m \<noteq> NULL" "nodes s m = None"
  shows "\<exists>s'. List_InsertAt s self i item m = Some (True, s') \<and>
     wf_list s' self (insert_nth i m ps) \<and>
     list_data s' (insert_nth i m ps) = insert_nth i item (list_data s ps) \<and>
     (\<forall>a. a \<notin> set ps \<and> a \<noteq> m \<longrightarrow> nodes s' a = nodes s a) \<and>
     (\<forall>b. b \<noteq> self \<longrightarrow> lists s' b = lists s b) \<and> freed s' = freed s"
proof -
  from wf obtain l where l: "self \<noteq> NULL" "distinct ps" "lists s self = Some l"
    "list_at s self = Some l" "chain (nodes s) (l_head l) ps NULL"
    "l_tail l = last_ptr ps" "l_count l = length ps"
    by (rule wf_listE)
  have m: "m \<notin> set ps"
    using wf fresh by (auto dest: wf_list_nonnull)
  consider (last) "i = length ps" | (first) "i = 0" "ps \<noteq> []" | (mid) k where "i = Suc k" "i < length ps"
    using i by (cases i) (auto simp: le_less)
  then show ?thesis
  proof cases
    case last
    then have "List_InsertAt s self i item m = do { s' \<leftarrow> List_Add s self item m; Some (True, s') }"
      using l by (simp add: List_InsertAt_def)
    moreover have "insert_nth i item (list_data s ps) = list_data s ps @ [item]"
      using last insert_nth_end [of "list_data s ps" item] by (simp add: list_data_def)
    ultimately show ?thesis
      using List_Add_wf [OF wf fresh, of item] last by auto
  next
    case first
    have "chain ((nodes s)(m \<mapsto> \<lparr>ln_next = l_head l, ln_data = item\<rparr>)) (l_head l) ps NULL"
      using l m by simp
    moreover have "last_ptr ps \<noteq> NULL"
      using first wf last_ptr_in wf_list_nonnull by blast
    ultimately show ?thesis
      using l m first fresh
      by (auto simp: List_InsertAt_def store_simps wf_list_def list_data_def node_data_def last_ptr_Cons)
  next
    case (mid k)
    obtain as bs where ps: "ps = as @ ps ! k # bs" "length as = k"
      using split_at_nth [of k ps] mid by auto
    have bs: "bs \<noteq> []" using ps mid by (metis Suc_lessD append_Nil2 length_append_singleton less_irrefl)
    have "insert_nth i m ps = as @ ps ! k # m # bs" for m
      using ps mid insert_nth_append [of "as @ [ps ! k]" m bs] by simp
    moreover have "insert_nth i item (list_data s ps) = list_data s (as @ [ps ! k]) @ item # list_data s bs"
      using ps mid insert_nth_append [of "list_data s (as @ [ps ! k])" item "list_data s bs"]
      by (simp add: list_data_def) (metis append_Cons append_assoc append_Nil list.simps(9) map_append)
    ultimately show ?thesis
      using List_InsertAt_middle [of s self as "ps ! k" bs m item] wf ps bs fresh mid by simp
  qed
qed

lemma List_InsertAt_range:
  assumes "wf_list s self ps" and "length ps < i"
  shows "List_InsertAt s self i item m = Some (False, s)"
  using assms by (auto simp: List_InsertAt_def elim!: wf_listE)

lemma List_InsertAt_oom:
  assumes "wf_list s self ps"
  shows "List_InsertAt s self i item NULL = Some (i = length ps, s)"
  using assms by (auto simp: List_InsertAt_def List_Add_def elim!: wf_listE)

lemma clear_loop_chain:
  assumes "chain (nodes s) p ps NULL" and "distinct ps"
  shows "\<exists>s'. clear_loop s fd p = Some s' \<and> lists s' = lists s \<and>
     (\<forall>a. nodes s' a = (if a \<in> set ps then None else nodes s a)) \<and>
     (\<forall>a. count_list (freed s') a = count_list (freed s) a + count_list ps a +
       (if fd \<and> a \<noteq> NULL then count_list (list_data s ps) a else 0))"
  using assms
proof (induction ps arbitrary: p s)
  case Nil
  then show ?case by (simp add: clear_loop.simps list_data_def)
next
  case (Cons a ps)
  then obtain n where n: "p = a" "a \<noteq> NULL" "nodes s a = Some n" "chain (nodes s) (ln_next n) ps NULL"
    by (auto split: option.splits)
  define t where "t = free_node (if fd \<and> ln_data n \<noteq> NULL then free_data s (ln_data n) else s) a"
  have t: "nodes t = (nodes s)(a := None)" "lists t = lists s"
    by (simp_all add: t_def free_node_def free_data_def)
  have ch: "chain (nodes t) (ln_next n) ps NULL" and d: "list_data t ps = list_data s ps"
    using n Cons.prems(2) t by (auto simp: list_data_def node_data_def)
  have "clear_loop s fd p = clear_loop t fd (ln_next n)"
    using n by (subst clear_loop.simps) (simp add: node_at_def t_def)
  moreover obtain s' where s': "clear_loop t fd (ln_next n) = Some s'" "lists s' = lists t"
     "\<forall>b. nodes s' b = (if b \<in> set ps then None else nodes t b)"
     "\<forall>b. count_list (freed s') b = count_list (freed t) b + count_list ps b +
       (if fd \<and> b \<noteq> NULL then count_list (list_data t ps) b else 0)"
    using Cons.IH [OF ch] Cons.prems(2) by auto
  moreover have "list_data s (a # ps) = ln_data n # list_data s ps"
    using n by (simp add: list_data_def node_data_def)
  ultimately show ?case
    using t d by (auto simp: t_def free_node_def free_data_def)
qed

lemma List_Clear_wf:
  assumes wf: "wf_list s self ps"
  shows "\<exists>s'. List_Clear s self fd = Some s' \<and> wf_list s' self [] \<and>
     (\<forall>a. nodes s' a = (if a \<in> set ps then None else nodes s a)) \<and>
     (\<forall>b. b \<noteq> self \<longrightarrow> lists s' b = lists s b) \<and>
     (\<forall>a. count_list (freed s') a = count_list (freed s) a + count_list ps a +
       (if fd \<and> a \<noteq> NULL then count_list (list_data s ps) a else 0))"
proof -
  from wf obtain l where l: "self \<noteq> NULL" "distinct ps" "list_at s self = Some l"
    "chain (nodes s) (l_head l) ps NULL"
    by (rule wf_listE)
  from clear_loop_chain [OF l(4,2), of fd] obtain s' where
    "clear_loop s fd (l_head l) = Some s'" "lists s' = lists s"
    "\<forall>a. nodes s' a = (if a \<in> set ps then None else nodes s a)"
    "\<forall>a. count_list (freed s') a = count_list (freed s) a + count_list ps a +
       (if fd \<and> a \<noteq> NULL then count_list (list_data s ps) a else 0)"
    by blast
  with l show ?thesis
    by (auto simp: List_Clear_def wf_list_def set_list_def)
qed

lemma List_Size_wf: "wf_list s self ps \<Longrightarrow> List_Size s self = Some (length ps)"
  by (auto simp: List_Size_def elim!: wf_listE)

lemma List_IsEmpty_wf: "wf_list s self ps \<Longrightarrow> List_IsEmpty s self = Some (ps = [])"
  by (auto simp: List_IsEmpty_def elim!: wf_listE)

lemma List_Create_wf:
  assumes "m \<noteq> NULL"
  shows "\<exists>s'. List_Create s m = Some (m, s') \<and> wf_list s' m [] \<and> nodes s' = nodes s"
  using assms by (simp add: List_Create_def List_Init_def wf_list_def set_list_def)

text \<open>
  The iteration idiom of the clients: start at \<open>List_Foreach_Begin\<close> and follow
  \<open>List_Foreach_Next\<close> until \<open>NULL\<close>, reading \<open>List_Foreach_Data\<close>.
\<close>

partial_function (option) foreach_collect :: "list_heap \<Rightarrow> ptr \<Rightarrow> ptr list option" where
  "foreach_collect s it =
     (if it = NULL then Some []
      else Option.bind (List_Foreach_Data s it) (\<lambda>d.
        Option.bind (List_Foreach_Next s it) (\<lambda>it'.
          Option.bind (foreach_collect s it') (\<lambda>ds. Some (d # ds)))))"

lemma foreach_collect_chain:
  assumes "chain (nodes s) p ps NULL"
  shows "foreach_collect s p = Some (list_data s ps)"
  using assms
proof (induction ps arbitrary: p)
  case Nil
  then show ?case by (simp add: foreach_collect.simps list_data_def)
next
  case (Cons a ps)
  then show ?case
    by (subst foreach_collect.simps)
      (auto simp: List_Foreach_Data_def List_Foreach_Next_def node_at_def list_data_def node_data_def
        split: option.splits)
qed

lemma foreach_collect_wf:
  assumes "wf_list s self ps"
  shows "do { it \<leftarrow> List_Foreach_Begin s self; foreach_collect s it } = Some (list_data s ps)"
proof -
  from assms obtain l where l: "self \<noteq> NULL" "list_at s self = Some l"
    "chain (nodes s) (l_head l) ps NULL" "l_count l = length ps"
    by (rule wf_listE)
  then show ?thesis
    using foreach_collect_chain [OF l(3)] chain_hd [OF l(3)]
    by (cases ps) (auto simp: List_Foreach_Begin_def foreach_collect.simps list_data_def)
qed

text \<open>A list survives any change to nodes and headers that are not its own.\<close>

lemma wf_list_frame:
  assumes "wf_list s self ps" and "\<forall>a\<in>set ps. nodes s' a = nodes s a" and "lists s' self = lists s self"
  shows "wf_list s' self ps \<and> list_data s' ps = list_data s ps"
proof -
  have "chain (nodes s') p ps q = chain (nodes s) p ps q" for p q
    using assms(2) by (induction ps arbitrary: p) (auto split: option.splits)
  with assms show ?thesis
    by (auto simp: wf_list_def list_data_def node_data_def split: option.splits)
qed

section \<open>The list implements the sequence interface\<close>

definition list_rep :: "ptr \<Rightarrow> list_heap \<Rightarrow> ptr list \<Rightarrow> bool" where
  "list_rep self s xs \<longleftrightarrow> (\<exists>ps. wf_list s self ps \<and> list_data s ps = xs)"

definition fresh_node :: "list_heap \<Rightarrow> ptr \<Rightarrow> bool" where
  "fresh_node s m \<longleftrightarrow> m \<noteq> NULL \<and> nodes s m = None"

lemma length_list_data [simp]: "length (list_data s ps) = length ps"
  by (simp add: list_data_def)

interpretation kernel_list: sequence "list_rep self" fresh_node
  "\<lambda>s. List_Add s self" "\<lambda>s. List_RemoveAt s self" "\<lambda>s. List_Remove s self"
  "\<lambda>s. List_InsertAt s self" "\<lambda>s. List_GetAt s self" "\<lambda>s. List_Size s self" for self
proof (unfold_locales, goal_cases)
  case (1 s xs m x)
  then show ?case
    using List_Add_wf [of s self _ m x] by (fastforce simp: list_rep_def fresh_node_def)
next
  case (2 s xs i)
  then obtain ps where ps: "wf_list s self ps" "list_data s ps = xs" by (auto simp: list_rep_def)
  show ?case
  proof (cases "i < length ps")
    case True
    with List_RemoveAt_wf [OF ps(1) True] ps(2) show ?thesis
      by (fastforce simp: list_rep_def)
  next
    case False
    with ps List_RemoveAt_range [OF ps(1), of i] show ?thesis
      by (fastforce simp: list_rep_def)
  qed
next
  case (3 s xs x)
  then show ?case
    using List_Remove_wf [of s self _ x] by (fastforce simp: list_rep_def)
next
  case (4 s xs m i x)
  then obtain ps where ps: "wf_list s self ps" "list_data s ps = xs" by (auto simp: list_rep_def)
  show ?case
  proof (cases "i \<le> length ps")
    case True
    with List_InsertAt_wf [OF ps(1) True, of m x] ps(2) 4 show ?thesis
      by (fastforce simp: list_rep_def fresh_node_def)
  next
    case False
    with ps List_InsertAt_range [OF ps(1), of i x m] show ?thesis
      by (fastforce simp: list_rep_def)
  qed
next
  case (5 s xs i)
  then show ?case by (auto simp: list_rep_def List_GetAt_wf)
next
  case (6 s xs)
  then show ?case by (auto simp: list_rep_def List_Size_wf)
qed

section \<open>Properties\<close>

text \<open>C1. Refinement: whatever program of add, remove-at, remove and insert-at commands is run
  on a well-formed list, with fresh nodes from \<open>malloc\<close>, it runs to its end (no invalid
  access, no endless loop) and leaves a well-formed list whose contents are those of the
  same program run on a mathematical list.\<close>

theorem list_program_refines:
  assumes "list_rep self s xs"
    and "seq_run_fresh (seq_exec (\<lambda>s. List_Add s self) (\<lambda>s. List_RemoveAt s self)
           (\<lambda>s. List_Remove s self) (\<lambda>s. List_InsertAt s self)) fresh_node cs s"
  shows "\<exists>s'. seq_run (seq_exec (\<lambda>s. List_Add s self) (\<lambda>s. List_RemoveAt s self)
           (\<lambda>s. List_Remove s self) (\<lambda>s. List_InsertAt s self)) cs s = Some s' \<and>
     list_rep self s' (fold seq_step (map fst cs) xs)"
  using assms by (rule kernel_list.run_rep)

definition empty_list_heap :: list_heap where
  "empty_list_heap = \<lparr>lists = [1 \<mapsto> \<lparr>l_head = NULL, l_tail = NULL, l_count = 0\<rparr>],
     nodes = Map.empty, freed = []\<rparr>"

lemma empty_list_heap_rep: "list_rep 1 empty_list_heap []"
  by (simp add: list_rep_def empty_list_heap_def wf_list_def list_data_def)

theorem list_program_refines_witness:
  "\<exists>s'. seq_run (seq_exec (\<lambda>s. List_Add s 1) (\<lambda>s. List_RemoveAt s 1)
       (\<lambda>s. List_Remove s 1) (\<lambda>s. List_InsertAt s 1))
     [(Add 5, 10), (InsertAt 0 7, 11), (Add 9, 12), (Remove 5, 0), (RemoveAt 3, 0)] empty_list_heap = Some s' \<and>
     list_rep 1 s' [7, 9]"
proof -
  let ?cs = "[(Add 5, 10), (InsertAt 0 7, 11), (Add 9, 12), (Remove 5, 0), (RemoveAt 3, 0)] :: (ptr seq_cmd \<times> ptr) list"
  have "seq_run_fresh (seq_exec (\<lambda>s. List_Add s 1) (\<lambda>s. List_RemoveAt s 1)
       (\<lambda>s. List_Remove s 1) (\<lambda>s. List_InsertAt s 1)) fresh_node ?cs empty_list_heap"
    by code_simp
  from list_program_refines [OF empty_list_heap_rep this] show ?thesis
    by simp
qed

text \<open>C2. Clearing a list frees each of its nodes exactly once and, with \<open>freeData\<close>, each
  non-null data pointer exactly as often as the list holds it; it touches no other node and
  no other list, and leaves the list empty and usable.\<close>

theorem list_clear_frees_exactly:
  assumes "wf_list s self ps"
  shows "\<exists>s'. List_Clear s self fd = Some s' \<and> wf_list s' self [] \<and>
     (\<forall>a. nodes s' a = (if a \<in> set ps then None else nodes s a)) \<and>
     (\<forall>b. b \<noteq> self \<longrightarrow> lists s' b = lists s b) \<and>
     (\<forall>a. count_list (freed s') a = count_list (freed s) a + count_list ps a +
       (if fd \<and> a \<noteq> NULL then count_list (list_data s ps) a else 0))"
  using assms by (rule List_Clear_wf)

definition two_node_heap :: list_heap where
  "two_node_heap = \<lparr>lists = [1 \<mapsto> \<lparr>l_head = 10, l_tail = 11, l_count = 2\<rparr>],
     nodes = [10 \<mapsto> \<lparr>ln_next = 11, ln_data = 5\<rparr>, 11 \<mapsto> \<lparr>ln_next = NULL, ln_data = NULL\<rparr>], freed = []\<rparr>"

theorem list_clear_frees_exactly_witness:
  "wf_list two_node_heap 1 [10, 11] \<and>
   (\<exists>s'. List_Clear two_node_heap 1 True = Some s' \<and> nodes s' 10 = None \<and> nodes s' 11 = None \<and>
     count_list (freed s') 5 = 1 \<and> count_list (freed s') 10 = 1)"
proof -
  have wf: "wf_list two_node_heap 1 [10, 11]"
    by (simp add: wf_list_def two_node_heap_def last_ptr_def)
  obtain s' where s': "List_Clear two_node_heap 1 True = Some s'"
    "\<forall>a. nodes s' a = (if a \<in> set [10, 11] then None else nodes two_node_heap a)"
    "\<forall>a. count_list (freed s') a = count_list (freed two_node_heap) a + count_list [10, 11] a +
       (if True \<and> a \<noteq> NULL then count_list (list_data two_node_heap [10, 11]) a else 0)"
    using list_clear_frees_exactly [OF wf, of True] by blast
  have "list_data two_node_heap [10, 11] = [5, 0]" "freed two_node_heap = []"
    by (simp_all add: two_node_heap_def list_data_def node_data_def)
  with s'(3) have "count_list (freed s') 5 = 1" "count_list (freed s') 10 = 1" by simp_all
  with s'(1,2) wf show ?thesis by simp
qed

text \<open>Frame: a list whose nodes are disjoint from those of another list is untouched by
  every program of commands on that other list whose new nodes are not its own.\<close>

theorem list_add_remove_frame:
  assumes "wf_list s l1 ps" and "wf_list s l2 qs" and "l1 \<noteq> l2" and "set ps \<inter> set qs = {}"
    and "m \<noteq> NULL" and "nodes s m = None" and "i < length ps" and "j \<le> length ps"
  shows "\<exists>s1 s2 s3 s4. List_Add s l1 item m = Some s1 \<and> List_RemoveAt s l1 i = Some (True, s2) \<and>
     List_InsertAt s l1 j item m = Some (True, s3) \<and> List_Clear s l1 fd = Some s4 \<and>
     (\<forall>t\<in>{s1, s2, s3, s4}. wf_list t l2 qs \<and> list_data t qs = list_data s qs)"
proof -
  have mq: "\<forall>a\<in>set qs. a \<notin> set ps \<and> a \<noteq> m"
    using assms(2,4,6) wf_list_nonnull by fastforce
  from List_Add_wf [OF assms(1,5,6), of item] obtain s1 where s1: "List_Add s l1 item m = Some s1"
    "\<forall>a. a \<notin> set ps \<and> a \<noteq> m \<longrightarrow> nodes s1 a = nodes s a" "\<forall>b. b \<noteq> l1 \<longrightarrow> lists s1 b = lists s b"
    by blast
  from List_RemoveAt_wf [OF assms(1,7)] obtain s2 where s2: "List_RemoveAt s l1 i = Some (True, s2)"
    "\<forall>b. b \<notin> set ps \<longrightarrow> nodes s2 b = nodes s b" "\<forall>b. b \<noteq> l1 \<longrightarrow> lists s2 b = lists s b"
    by blast
  from List_InsertAt_wf [OF assms(1,8,5,6), of item] obtain s3 where
    s3: "List_InsertAt s l1 j item m = Some (True, s3)"
    "\<forall>a. a \<notin> set ps \<and> a \<noteq> m \<longrightarrow> nodes s3 a = nodes s a" "\<forall>b. b \<noteq> l1 \<longrightarrow> lists s3 b = lists s b"
    by blast
  from List_Clear_wf [OF assms(1), of fd] obtain s4 where s4: "List_Clear s l1 fd = Some s4"
    "\<forall>a. nodes s4 a = (if a \<in> set ps then None else nodes s a)" "\<forall>b. b \<noteq> l1 \<longrightarrow> lists s4 b = lists s b"
    by blast
  have fr: "wf_list t l2 qs \<and> list_data t qs = list_data s qs"
    if "\<forall>a\<in>set qs. nodes t a = nodes s a" "lists t l2 = lists s l2" for t
    using wf_list_frame [OF assms(2) that] .
  have "wf_list s1 l2 qs \<and> list_data s1 qs = list_data s qs"
    using s1 mq assms(3) by (intro fr) auto
  moreover have "wf_list s2 l2 qs \<and> list_data s2 qs = list_data s qs"
    using s2 mq assms(3) by (intro fr) auto
  moreover have "wf_list s3 l2 qs \<and> list_data s3 qs = list_data s qs"
    using s3 mq assms(3) by (intro fr) auto
  moreover have "wf_list s4 l2 qs \<and> list_data s4 qs = list_data s qs"
    using s4 mq assms(3) by (intro fr) auto
  ultimately show ?thesis
    using s1(1) s2(1) s3(1) s4(1) by blast
qed

definition two_list_heap :: list_heap where
  "two_list_heap = two_node_heap\<lparr>lists := (lists two_node_heap)(2 \<mapsto> \<lparr>l_head = 12, l_tail = 12, l_count = 1\<rparr>),
     nodes := (nodes two_node_heap)(12 \<mapsto> \<lparr>ln_next = NULL, ln_data = 8\<rparr>)\<rparr>"

theorem list_add_remove_frame_witness:
  "\<exists>s1. List_Add two_list_heap 1 6 20 = Some s1 \<and> wf_list s1 2 [12] \<and> list_data s1 [12] = [8]"
proof -
  have wf: "wf_list two_list_heap 1 [10, 11]" "wf_list two_list_heap 2 [12]"
    by (simp_all add: wf_list_def two_list_heap_def two_node_heap_def last_ptr_def)
  have h: "(1 :: ptr) \<noteq> 2" "set [10, 11 :: ptr] \<inter> set [12] = {}" "(20 :: ptr) \<noteq> NULL"
    "nodes two_list_heap 20 = None" "0 < length [10, 11 :: ptr]" "0 \<le> length [10, 11 :: ptr]"
    by (simp_all add: two_list_heap_def two_node_heap_def)
  obtain s1 where "List_Add two_list_heap 1 6 20 = Some s1" "wf_list s1 2 [12]"
    "list_data s1 [12] = list_data two_list_heap [12]"
    using list_add_remove_frame [OF wf h, of 6 True] by (metis insertI1)
  moreover have "list_data two_list_heap [12] = [8]"
    by (simp add: list_data_def node_data_def two_list_heap_def)
  ultimately show ?thesis by simp
qed

text \<open>Out of memory: inserting at any index but the end fails and reports it, but inserting
  at the end reports success although nothing was inserted, because \<open>List_Add\<close> drops the
  item silently.\<close>

theorem list_insert_oom_reports_success:
  assumes "wf_list s self ps"
  shows "List_InsertAt s self i item NULL = Some (i = length ps, s)"
  using assms by (rule List_InsertAt_oom)

theorem list_insert_oom_reports_success_witness:
  "List_InsertAt two_node_heap 1 2 5 NULL = Some (True, two_node_heap)"
proof -
  have "wf_list two_node_heap 1 [10, 11]"
    by (simp add: wf_list_def two_node_heap_def last_ptr_def)
  from list_insert_oom_reports_success [OF this, of 2 5] show ?thesis by simp
qed

end
