(* ===== verification/Buffer_Queue.thy ===== *)
theory Buffer_Queue
  imports Sequence_Spec
begin

text \<open>
  The kernel's FIFO buffer (kernel/buffer.c, kernel\_include/buffer.h): a queue of
  fixed-size records that are copied into their nodes. As for the lists, the model keeps
  the nodes in a store of pointers; \<open>None\<close> is an invalid memory access (reading past the
  caller's data included) or a loop that does not end, and an operation that allocates
  takes the pointer its \<open>malloc\<close> returned.
\<close>

record BufferNode =
  bn_next :: ptr
  bn_data_size :: nat
  bn_data :: "byte list"

record Buffer =
  b_head :: ptr
  b_tail :: ptr
  b_count :: nat
  b_total_size :: nat
  b_default_data_size :: nat

record buffer_heap =
  buffers :: "ptr \<rightharpoonup> Buffer"
  bnodes :: "ptr \<rightharpoonup> BufferNode"

definition buffer_at :: "buffer_heap \<Rightarrow> ptr \<Rightarrow> Buffer option" where
  "buffer_at s p = (if p = NULL then None else buffers s p)"

definition bnode_at :: "buffer_heap \<Rightarrow> ptr \<Rightarrow> BufferNode option" where
  "bnode_at s p = (if p = NULL then None else bnodes s p)"

definition set_buffer :: "buffer_heap \<Rightarrow> ptr \<Rightarrow> Buffer \<Rightarrow> buffer_heap" where
  "set_buffer s p b = s\<lparr>buffers := (buffers s)(p \<mapsto> b)\<rparr>"

definition set_bnode :: "buffer_heap \<Rightarrow> ptr \<Rightarrow> BufferNode \<Rightarrow> buffer_heap" where
  "set_bnode s p n = s\<lparr>bnodes := (bnodes s)(p \<mapsto> n)\<rparr>"

section \<open>Operations\<close>

definition buffer_create :: "buffer_heap \<Rightarrow> nat \<Rightarrow> ptr \<Rightarrow> ptr \<times> buffer_heap" where
  "buffer_create s default_data_size m =
     (if m = NULL then (NULL, s)
      else (m, set_buffer s m \<lparr>b_head = NULL, b_tail = NULL, b_count = 0, b_total_size = 0,
                 b_default_data_size = default_data_size\<rparr>))"

definition buffer_free_node :: "buffer_heap \<Rightarrow> ptr \<Rightarrow> buffer_heap" where
  "buffer_free_node s node = (if node = NULL then s else s\<lparr>bnodes := (bnodes s)(node := None)\<rparr>)"

partial_function (option) buffer_clear_loop :: "buffer_heap \<Rightarrow> ptr \<Rightarrow> buffer_heap option" where
  "buffer_clear_loop s current =
     (if current = NULL then Some s
      else Option.bind (bnode_at s current) (\<lambda>n.
        buffer_clear_loop (buffer_free_node s current) (bn_next n)))"

definition buffer_clear :: "buffer_heap \<Rightarrow> ptr \<Rightarrow> buffer_heap option" where
  "buffer_clear s buffer =
     (if buffer = NULL then Some s
      else do {
        b \<leftarrow> buffer_at s buffer;
        s1 \<leftarrow> buffer_clear_loop s (b_head b);
        Some (set_buffer s1 buffer (b\<lparr>b_head := NULL, b_tail := NULL, b_count := 0, b_total_size := 0\<rparr>))
      })"

definition buffer_destroy :: "buffer_heap \<Rightarrow> ptr \<Rightarrow> buffer_heap option" where
  "buffer_destroy s buffer =
     (if buffer = NULL then Some s
      else do { s1 \<leftarrow> buffer_clear s buffer; Some (s1\<lparr>buffers := (buffers s1)(buffer := None)\<rparr>) })"

text \<open>
  \<open>data\<close> is the object the caller's pointer points to (\<open>None\<close> for \<open>NULL\<close>);
  the \<open>memcpy\<close> of \<open>data_size\<close> bytes must not read past its end.
\<close>

definition buffer_push ::
  "buffer_heap \<Rightarrow> ptr \<Rightarrow> byte list option \<Rightarrow> ptr \<Rightarrow> (int \<times> buffer_heap) option" where
  "buffer_push s buffer data m =
     (if buffer = NULL \<or> data = None then Some (-1, s)
      else do {
        b \<leftarrow> buffer_at s buffer;
        src \<leftarrow> data;
        let data_size = b_default_data_size b;
        if m = NULL then Some (-1, s)
        else if length src < data_size then None
        else do {
          let s1 = set_bnode s m \<lparr>bn_next = NULL, bn_data_size = data_size, bn_data = take data_size src\<rparr>;
          if b_count b = 0
          then Some (0, set_buffer s1 buffer (b\<lparr>b_head := m, b_tail := m, b_count := b_count b + 1,
                          b_total_size := b_total_size b + data_size\<rparr>))
          else do {
            t \<leftarrow> bnode_at s1 (b_tail b);
            Some (0, set_buffer (set_bnode s1 (b_tail b) (t\<lparr>bn_next := m\<rparr>)) buffer
                      (b\<lparr>b_tail := m, b_count := b_count b + 1,
                         b_total_size := b_total_size b + data_size\<rparr>))
          }
        }
      })"

definition buffer_push_default ::
  "buffer_heap \<Rightarrow> ptr \<Rightarrow> byte list option \<Rightarrow> ptr \<Rightarrow> (int \<times> buffer_heap) option" where
  "buffer_push_default s buffer data m = buffer_push s buffer data m"

definition buffer_push_copy ::
  "buffer_heap \<Rightarrow> ptr \<Rightarrow> byte list option \<Rightarrow> ptr \<Rightarrow> (int \<times> buffer_heap) option" where
  "buffer_push_copy s buffer data m = buffer_push s buffer data m"

text \<open>
  \<open>buffer_pop\<close> returns a pointer to the data inside the node, which stays allocated; the
  model returns the node whose data it is (\<open>NULL\<close> when the buffer is empty).
\<close>

definition buffer_pop :: "buffer_heap \<Rightarrow> ptr \<Rightarrow> (ptr \<times> buffer_heap) option" where
  "buffer_pop s buffer =
     (if buffer = NULL then Some (NULL, s)
      else do {
        b \<leftarrow> buffer_at s buffer;
        if b_count b = 0 then Some (NULL, s)
        else do {
          n \<leftarrow> bnode_at s (b_head b);
          Some (b_head b, set_buffer s buffer
                 (b\<lparr>b_head := bn_next n, b_tail := if b_count b = 1 then NULL else b_tail b,
                    b_count := b_count b - 1, b_total_size := b_total_size b - bn_data_size n\<rparr>))
        }
      })"

definition buffer_peek :: "buffer_heap \<Rightarrow> ptr \<Rightarrow> ptr option" where
  "buffer_peek s buffer =
     (if buffer = NULL then Some NULL
      else do { b \<leftarrow> buffer_at s buffer; Some (if b_count b = 0 then NULL else b_head b) })"

definition buffer_count :: "buffer_heap \<Rightarrow> ptr \<Rightarrow> nat option" where
  "buffer_count s buffer =
     (if buffer = NULL then Some 0 else do { b \<leftarrow> buffer_at s buffer; Some (b_count b) })"

definition buffer_total_size :: "buffer_heap \<Rightarrow> ptr \<Rightarrow> nat option" where
  "buffer_total_size s buffer =
     (if buffer = NULL then Some 0 else do { b \<leftarrow> buffer_at s buffer; Some (b_total_size b) })"

definition buffer_data_size :: "buffer_heap \<Rightarrow> ptr \<Rightarrow> nat option" where
  "buffer_data_size s buffer =
     (if buffer = NULL then Some 0 else do { b \<leftarrow> buffer_at s buffer; Some (b_default_data_size b) })"

definition buffer_is_empty :: "buffer_heap \<Rightarrow> ptr \<Rightarrow> bool option" where
  "buffer_is_empty s buffer =
     (if buffer = NULL then Some True else do { b \<leftarrow> buffer_at s buffer; Some (b_count b = 0) })"

definition buffer_pop_node :: "buffer_heap \<Rightarrow> ptr \<Rightarrow> (ptr \<times> buffer_heap) option" where
  "buffer_pop_node s buffer =
     (if buffer = NULL then Some (NULL, s)
      else do {
        b \<leftarrow> buffer_at s buffer;
        if b_count b = 0 then Some (NULL, s)
        else do {
          n \<leftarrow> bnode_at s (b_head b);
          let s1 = set_buffer s buffer
                 (b\<lparr>b_head := bn_next n, b_tail := if b_count b = 1 then NULL else b_tail b,
                    b_count := b_count b - 1, b_total_size := b_total_size b - bn_data_size n\<rparr>);
          Some (b_head b, set_bnode s1 (b_head b) (n\<lparr>bn_next := NULL\<rparr>))
        }
      })"

definition buffer_iterator_begin :: "buffer_heap \<Rightarrow> ptr \<Rightarrow> ptr option" where
  "buffer_iterator_begin s buffer =
     (if buffer = NULL then Some NULL else do { b \<leftarrow> buffer_at s buffer; Some (b_head b) })"

definition buffer_iterator_next :: "buffer_heap \<Rightarrow> ptr \<Rightarrow> ptr option" where
  "buffer_iterator_next s current =
     (if current = NULL then Some NULL else do { n \<leftarrow> bnode_at s current; Some (bn_next n) })"

definition buffer_node_data :: "buffer_heap \<Rightarrow> ptr \<Rightarrow> byte list option option" where
  "buffer_node_data s node =
     (if node = NULL then Some None else do { n \<leftarrow> bnode_at s node; Some (Some (bn_data n)) })"

definition buffer_node_data_size :: "buffer_heap \<Rightarrow> ptr \<Rightarrow> nat option" where
  "buffer_node_data_size s node =
     (if node = NULL then Some 0 else do { n \<leftarrow> bnode_at s node; Some (bn_data_size n) })"

declare buffer_clear_loop.simps [code]

section \<open>Well-formed buffers\<close>

fun bchain :: "(ptr \<rightharpoonup> BufferNode) \<Rightarrow> ptr \<Rightarrow> ptr list \<Rightarrow> ptr \<Rightarrow> bool" where
  "bchain ns p [] q \<longleftrightarrow> p = q"
| "bchain ns p (a # as) q \<longleftrightarrow>
     p = a \<and> a \<noteq> NULL \<and> (case ns a of None \<Rightarrow> False | Some n \<Rightarrow> bchain ns (bn_next n) as q)"

definition bnode_data :: "buffer_heap \<Rightarrow> ptr \<Rightarrow> byte list" where
  "bnode_data s a = (case bnodes s a of None \<Rightarrow> [] | Some n \<Rightarrow> bn_data n)"

definition bnode_ok :: "(ptr \<rightharpoonup> BufferNode) \<Rightarrow> nat \<Rightarrow> ptr \<Rightarrow> bool" where
  "bnode_ok ns k a =
     (case ns a of None \<Rightarrow> False | Some n \<Rightarrow> bn_data_size n = k \<and> length (bn_data n) = bn_data_size n)"

text \<open>Every node holds exactly \<open>default_data_size\<close> bytes, and the totals agree with the nodes.\<close>

definition wf_buffer :: "buffer_heap \<Rightarrow> ptr \<Rightarrow> ptr list \<Rightarrow> bool" where
  "wf_buffer s buf ps \<longleftrightarrow>
     buf \<noteq> NULL \<and> distinct ps \<and>
     (case buffers s buf of None \<Rightarrow> False
      | Some b \<Rightarrow> bchain (bnodes s) (b_head b) ps NULL \<and>
          b_tail b = (if ps = [] then NULL else last ps) \<and> b_count b = length ps \<and>
          b_total_size b = length ps * b_default_data_size b \<and>
          list_all (bnode_ok (bnodes s) (b_default_data_size b)) ps)"

lemma bchain_append: "bchain ns p (as @ bs) q \<longleftrightarrow> (\<exists>r. bchain ns p as r \<and> bchain ns r bs q)"
  by (induction as arbitrary: p) (auto split: option.splits)

lemma bchain_upd [simp]: "a \<notin> set as \<Longrightarrow> bchain (ns(a := v)) p as q = bchain ns p as q"
  by (induction as arbitrary: p) (auto split: option.splits)

lemma bchain_nonnull: "bchain ns p as q \<Longrightarrow> a \<in> set as \<Longrightarrow> a \<noteq> NULL \<and> (\<exists>n. ns a = Some n)"
  by (induction as arbitrary: p) (auto split: option.splits)

lemma bnode_ok_upd [simp]: "bnode_ok (ns(a := v)) k b = (if b = a then bnode_ok (\<lambda>_. v) k b else bnode_ok ns k b)"
  by (simp add: bnode_ok_def)

lemma list_all_bnode_ok_upd [simp]:
  "a \<notin> set ps \<Longrightarrow> list_all (bnode_ok (ns(a := v)) k) ps = list_all (bnode_ok ns k) ps"
  by (auto simp: list_all_iff)

lemma wf_bufferE:
  assumes "wf_buffer s buf ps"
  obtains b where "buf \<noteq> NULL" "distinct ps" "buffers s buf = Some b" "buffer_at s buf = Some b"
    "bchain (bnodes s) (b_head b) ps NULL" "b_tail b = (if ps = [] then NULL else last ps)"
    "b_count b = length ps" "b_total_size b = length ps * b_default_data_size b"
    "list_all (bnode_ok (bnodes s) (b_default_data_size b)) ps"
  using assms by (auto simp: wf_buffer_def buffer_at_def split: option.splits)

lemmas bstore_simps = set_buffer_def set_bnode_def buffer_at_def bnode_at_def

lemma buffer_push_wf:
  assumes wf: "wf_buffer s buf ps" and fresh: "m \<noteq> NULL" "bnodes s m = None"
    and len: "b_default_data_size b = length x" and b: "buffers s buf = Some b"
  shows "\<exists>s'. buffer_push s buf (Some x) m = Some (0, s') \<and> wf_buffer s' buf (ps @ [m]) \<and>
     map (bnode_data s') (ps @ [m]) = map (bnode_data s) ps @ [x] \<and>
     map_option b_default_data_size (buffers s' buf) = Some (length x)"
proof -
  from wf b have l: "buf \<noteq> NULL" "distinct ps"
    "bchain (bnodes s) (b_head b) ps NULL" "b_tail b = (if ps = [] then NULL else last ps)"
    "b_count b = length ps" "b_total_size b = length ps * b_default_data_size b"
    "list_all (bnode_ok (bnodes s) (length x)) ps"
    using len by (auto elim!: wf_bufferE)
  have m: "m \<notin> set ps"
    using l(3) fresh by (auto dest: bchain_nonnull)
  let ?new = "\<lparr>bn_next = NULL, bn_data_size = length x, bn_data = x\<rparr>"
  show ?thesis
  proof (cases ps rule: rev_cases)
    case Nil
    with l b fresh len show ?thesis
      by (auto simp: buffer_push_def bstore_simps wf_buffer_def bnode_data_def bnode_ok_def Let_def)
  next
    case (snoc as t)
    obtain n where n: "bnodes s t = Some n" "bn_data_size n = length x" "length (bn_data n) = length x"
      using l(7) snoc by (auto simp: bnode_ok_def split: option.splits)
    have tn: "t \<noteq> NULL" using l(3) snoc bchain_nonnull by fastforce
    have tm: "t \<noteq> m" "m \<notin> set as" "t \<notin> set as"
      using m snoc l(2) by auto
    let ?ns = "(bnodes s)(m \<mapsto> ?new, t \<mapsto> n\<lparr>bn_next := m\<rparr>)"
    have "bchain (bnodes s) (b_head b) as t"
      using l(3) snoc by (auto simp: bchain_append)
    then have "bchain ?ns (b_head b) as t"
      using tm by simp
    then have ch: "bchain ?ns (b_head b) (as @ [t, m]) NULL"
      using tm tn fresh by (auto simp: bchain_append)
    have "list_all (bnode_ok ?ns (length x)) (as @ [t, m])"
      using l(7) snoc tm n by (auto simp: bnode_ok_def)
    with ch l b snoc n tn tm fresh len show ?thesis
      by (auto simp: buffer_push_def bstore_simps wf_buffer_def bnode_data_def Let_def)
  qed
qed

lemma buffer_pop_wf:
  assumes wf: "wf_buffer s buf (p # ps)"
  shows "\<exists>s'. buffer_pop s buf = Some (p, s') \<and> wf_buffer s' buf ps \<and> bnodes s' = bnodes s \<and>
     map_option b_default_data_size (buffers s' buf) = map_option b_default_data_size (buffers s buf)"
proof -
  from wf obtain b where l: "buf \<noteq> NULL" "distinct (p # ps)" "buffers s buf = Some b"
    "bchain (bnodes s) (b_head b) (p # ps) NULL" "b_tail b = last (p # ps)"
    "b_count b = Suc (length ps)" "b_total_size b = Suc (length ps) * b_default_data_size b"
    "list_all (bnode_ok (bnodes s) (b_default_data_size b)) (p # ps)"
    by (rule wf_bufferE) (auto split: if_splits)
  from l(4) obtain n where n: "b_head b = p" "p \<noteq> NULL" "bnodes s p = Some n"
    "bchain (bnodes s) (bn_next n) ps NULL"
    by (auto split: option.splits)
  have sz: "bn_data_size n = b_default_data_size b"
    using l(8) n by (simp add: bnode_ok_def)
  with l n show ?thesis
    by (auto simp: buffer_pop_def bstore_simps wf_buffer_def)
qed

lemma buffer_pop_empty: "wf_buffer s buf [] \<Longrightarrow> buffer_pop s buf = Some (NULL, s)"
  by (auto simp: buffer_pop_def elim!: wf_bufferE)

lemma buffer_pop_node_wf:
  assumes wf: "wf_buffer s buf (p # ps)"
  shows "\<exists>s'. buffer_pop_node s buf = Some (p, s') \<and> wf_buffer s' buf ps \<and>
     map (bnode_data s') ps = map (bnode_data s) ps \<and> bnode_data s' p = bnode_data s p \<and>
     buffer_iterator_next s' p = Some NULL"
proof -
  from wf obtain b where l: "buf \<noteq> NULL" "distinct (p # ps)" "buffers s buf = Some b"
    "bchain (bnodes s) (b_head b) (p # ps) NULL" "b_tail b = last (p # ps)"
    "b_count b = Suc (length ps)" "b_total_size b = Suc (length ps) * b_default_data_size b"
    "list_all (bnode_ok (bnodes s) (b_default_data_size b)) (p # ps)"
    by (rule wf_bufferE) (auto split: if_splits)
  from l(4) obtain n where n: "b_head b = p" "p \<noteq> NULL" "bnodes s p = Some n"
    "bchain (bnodes s) (bn_next n) ps NULL"
    by (auto split: option.splits)
  have sz: "bn_data_size n = b_default_data_size b"
    using l(8) n by (simp add: bnode_ok_def)
  with l n show ?thesis
    by (auto simp: buffer_pop_node_def bstore_simps wf_buffer_def bnode_data_def buffer_iterator_next_def)
qed

lemma buffer_clear_loop_chain:
  assumes "bchain (bnodes s) p ps NULL" and "distinct ps"
  shows "\<exists>s'. buffer_clear_loop s p = Some s' \<and> buffers s' = buffers s \<and>
     bnodes s' = (\<lambda>a. if a \<in> set ps then None else bnodes s a)"
  using assms
proof (induction ps arbitrary: p s)
  case Nil
  then show ?case by (simp add: buffer_clear_loop.simps)
next
  case (Cons a ps)
  then obtain n where n: "p = a" "a \<noteq> NULL" "bnodes s a = Some n" "bchain (bnodes s) (bn_next n) ps NULL"
    by (auto split: option.splits)
  have ch: "bchain (bnodes (buffer_free_node s a)) (bn_next n) ps NULL"
    using n Cons.prems(2) by (simp add: buffer_free_node_def)
  have "buffer_clear_loop s p = buffer_clear_loop (buffer_free_node s a) (bn_next n)"
    using n by (subst buffer_clear_loop.simps) (simp add: bnode_at_def)
  with Cons.IH [OF ch] Cons.prems(2) n(2) show ?case
    by (auto simp: buffer_free_node_def fun_eq_iff)
qed

lemma buffer_clear_wf:
  assumes wf: "wf_buffer s buf ps"
  shows "\<exists>s'. buffer_clear s buf = Some s' \<and> wf_buffer s' buf [] \<and>
     bnodes s' = (\<lambda>a. if a \<in> set ps then None else bnodes s a)"
proof -
  from wf obtain b where l: "buf \<noteq> NULL" "distinct ps" "buffer_at s buf = Some b"
    "bchain (bnodes s) (b_head b) ps NULL"
    by (rule wf_bufferE)
  with buffer_clear_loop_chain [OF l(4,2)] show ?thesis
    by (auto simp: buffer_clear_def wf_buffer_def set_buffer_def)
qed

section \<open>The buffer is a FIFO queue\<close>

text \<open>The records a buffer holds, in order; all have the buffer's record size \<open>k\<close>.\<close>

definition buffer_rep :: "ptr \<Rightarrow> nat \<Rightarrow> buffer_heap \<Rightarrow> byte list list \<Rightarrow> bool" where
  "buffer_rep buf k s xs \<longleftrightarrow>
     (\<exists>ps. wf_buffer s buf ps \<and> map (bnode_data s) ps = xs) \<and>
     map_option b_default_data_size (buffers s buf) = Some k"

definition fresh_bnode :: "nat \<Rightarrow> buffer_heap \<Rightarrow> byte list \<Rightarrow> ptr \<Rightarrow> bool" where
  "fresh_bnode k s x m \<longleftrightarrow> m \<noteq> NULL \<and> bnodes s m = None \<and> length x = k"

definition buffer_enq :: "ptr \<Rightarrow> buffer_heap \<Rightarrow> byte list \<Rightarrow> ptr \<Rightarrow> buffer_heap option" where
  "buffer_enq buf s x m = map_option snd (buffer_push s buf (Some x) m)"

text \<open>Popping and reading the record through the returned data pointer.\<close>

definition buffer_deq :: "ptr \<Rightarrow> buffer_heap \<Rightarrow> (byte list option \<times> buffer_heap) option" where
  "buffer_deq buf s = do {
     (p, s') \<leftarrow> buffer_pop s buf;
     d \<leftarrow> buffer_node_data s' p;
     Some (d, s')
   }"

interpretation kernel_buffer: fifo "buffer_rep buf k" "fresh_bnode k" "buffer_enq buf" "buffer_deq buf" for buf k
proof (unfold_locales, goal_cases)
  case (1 s xs x m)
  then obtain ps b where "wf_buffer s buf ps" "map (bnode_data s) ps = xs" "buffers s buf = Some b"
    "b_default_data_size b = length x"
    by (auto simp: buffer_rep_def fresh_bnode_def)
  with buffer_push_wf [of s buf ps m b x] 1 show ?case
    by (fastforce simp: buffer_rep_def fresh_bnode_def buffer_enq_def)
next
  case (2 s)
  then show ?case
    by (auto simp: buffer_rep_def buffer_deq_def buffer_pop_empty buffer_node_data_def)
next
  case (3 s x xs)
  then obtain p ps where p: "wf_buffer s buf (p # ps)" "bnode_data s p = x" "map (bnode_data s) ps = xs"
    by (auto simp: buffer_rep_def)
  from buffer_pop_wf [OF p(1)] obtain s' where s': "buffer_pop s buf = Some (p, s')" "wf_buffer s' buf ps"
    "bnodes s' = bnodes s"
    "map_option b_default_data_size (buffers s' buf) = map_option b_default_data_size (buffers s buf)"
    by blast
  have "p \<noteq> NULL \<and> (\<exists>n. bnodes s p = Some n)"
    using p(1) by (auto elim!: wf_bufferE dest: bchain_nonnull split: option.splits)
  with s' p 3 have "buffer_deq buf s = Some (Some x, s')"
    by (auto simp: buffer_deq_def buffer_node_data_def bnode_at_def bnode_data_def)
  moreover have "bnode_data s' = bnode_data s"
    using s'(3) by (simp add: bnode_data_def fun_eq_iff)
  ultimately show ?case
    using s' p 3 by (auto simp: buffer_rep_def)
qed

section \<open>Properties\<close>

text \<open>C3. The buffer is a queue: pushing a list of records of the buffer's record size onto an
  empty buffer and then popping until it is empty returns exactly these records, in order,
  and leaves a well-formed empty buffer.\<close>

theorem buffer_fifo:
  assumes "buffer_rep buf k s []" and "all_fresh (buffer_enq buf) (fresh_bnode k) xs s" and "length xs < n"
  shows "\<exists>s' s''. fill (buffer_enq buf) xs s = Some s' \<and>
     drain (buffer_deq buf) n s' = Some (map fst xs, s'') \<and> buffer_rep buf k s'' []"
  using assms by (rule kernel_buffer.fill_drain)

definition empty_buffer_heap :: buffer_heap where
  "empty_buffer_heap = snd (buffer_create \<lparr>buffers = Map.empty, bnodes = Map.empty\<rparr> 2 1)"

theorem buffer_fifo_witness:
  "\<exists>s' s''. fill (buffer_enq 1) [([1, 2], 10), ([3, 4], 11)] empty_buffer_heap = Some s' \<and>
     drain (buffer_deq 1) 3 s' = Some ([[1, 2], [3, 4]], s'') \<and> buffer_rep 1 2 s'' []"
proof -
  have r: "buffer_rep 1 2 empty_buffer_heap []"
    by (simp add: buffer_rep_def empty_buffer_heap_def buffer_create_def wf_buffer_def set_buffer_def)
  have f: "all_fresh (buffer_enq 1) (fresh_bnode 2) [([1, 2], 10), ([3, 4], 11)] empty_buffer_heap"
    by (simp add: empty_buffer_heap_def buffer_create_def fresh_bnode_def buffer_enq_def
        buffer_push_def bstore_simps Let_def)
  show ?thesis
    using buffer_fifo [OF r f, of 3] by simp
qed

text \<open>C4. A push keeps the buffer well formed: the new record is at the back, the older ones
  are unchanged, and count and total size grow by one record; a push that finds no memory
  reports \<open>-1\<close> and changes nothing.\<close>

theorem buffer_push_invariant:
  assumes "wf_buffer s buf ps" and "buffers s buf = Some b" and "b_default_data_size b = length x"
    and "m \<noteq> NULL" and "bnodes s m = None"
  shows "(\<exists>s'. buffer_push s buf (Some x) m = Some (0, s') \<and> wf_buffer s' buf (ps @ [m]) \<and>
       map (bnode_data s') (ps @ [m]) = map (bnode_data s) ps @ [x] \<and>
       buffer_count s' buf = Some (Suc (length ps)) \<and>
       buffer_total_size s' buf = Some (Suc (length ps) * length x)) \<and>
     buffer_push s buf (Some x) NULL = Some (-1, s)"
proof -
  from buffer_push_wf [OF assms(1,4,5,3,2)] obtain s' where
    s': "buffer_push s buf (Some x) m = Some (0, s')" "wf_buffer s' buf (ps @ [m])"
    "map (bnode_data s') (ps @ [m]) = map (bnode_data s) ps @ [x]"
    "map_option b_default_data_size (buffers s' buf) = Some (length x)"
    by blast
  from s'(2) obtain b' where "buffer_at s' buf = Some b'" "buffers s' buf = Some b'" "buf \<noteq> NULL"
    "b_count b' = length (ps @ [m])" "b_total_size b' = length (ps @ [m]) * b_default_data_size b'"
    by (rule wf_bufferE)
  moreover have "buffer_push s buf (Some x) NULL = Some (-1, s)"
    using assms by (simp add: buffer_push_def buffer_at_def Let_def)
  ultimately show ?thesis
    using s' by (simp add: buffer_count_def buffer_total_size_def)
qed

theorem buffer_push_invariant_witness:
  "\<exists>s'. buffer_push empty_buffer_heap 1 (Some [1, 2]) 10 = Some (0, s') \<and>
     buffer_total_size s' 1 = Some 2"
proof -
  let ?b = "\<lparr>b_head = NULL, b_tail = NULL, b_count = 0, b_total_size = 0, b_default_data_size = 2\<rparr>"
  have wf: "wf_buffer empty_buffer_heap 1 []" and b: "buffers empty_buffer_heap 1 = Some ?b"
    and f: "bnodes empty_buffer_heap 10 = None"
    by (simp_all add: empty_buffer_heap_def buffer_create_def wf_buffer_def set_buffer_def)
  from buffer_push_invariant [OF wf b _ _ f, of "[1, 2]"] show ?thesis
    by auto
qed

end
