(* ===== verification/Memory.thy ===== *)
theory Memory
  imports Prelude
begin

text \<open>
  The byte memory and the routines that work on it: \<open>memset\<close>, \<open>memmove\<close> and
  \<open>memcmp\<close> of \<open>kernel/memory/memory.c\<close> and the assembly \<open>memcpy\<close> of
  \<open>kernel/amd64/memcpy.asm\<close>, every code path of them. Multi-byte objects are stored
  with the least significant byte first. Addresses are natural numbers below \<open>2 ^ 64\<close>:
  an object never wraps around the address space, so adding an offset to the address of an
  object needs no reduction, and where the code computes on addresses as integers the
  reduction is written out (\<open>add64\<close>, \<open>sub64\<close>, \<open>mul64\<close>).
\<close>

section \<open>Bytes and little-endian objects\<close>

type_synonym mem = "nat \<Rightarrow> byte"

definition add64 :: "nat \<Rightarrow> nat \<Rightarrow> nat" where "add64 a b = (a + b) mod 2 ^ 64"

definition sub64 :: "nat \<Rightarrow> nat \<Rightarrow> nat" where "sub64 a b = (a + 2 ^ 64 - b mod 2 ^ 64) mod 2 ^ 64"

definition mul64 :: "nat \<Rightarrow> nat \<Rightarrow> nat" where "mul64 a b = (a * b) mod 2 ^ 64"

text \<open>\<open>(x + alignment - 1) & ~(alignment - 1)\<close>\<close>

definition align_up64 :: "nat \<Rightarrow> nat \<Rightarrow> nat" where
  "align_up64 x alignment =
     unat ((of_nat x + of_nat alignment - 1 :: 64 word) AND NOT (of_nat alignment - 1))"

primrec load_le :: "nat \<Rightarrow> mem \<Rightarrow> nat \<Rightarrow> nat" where
  "load_le 0 m a = 0"
| "load_le (Suc n) m a = unat (m a) + 256 * load_le n m (Suc a)"

primrec store_le :: "nat \<Rightarrow> mem \<Rightarrow> nat \<Rightarrow> nat \<Rightarrow> mem" where
  "store_le 0 m a v = m"
| "store_le (Suc n) m a v = store_le n (m(a := word_of_nat v)) (Suc a) (v div 256)"

text \<open>The bytes of a range, and the memory in which a range was replaced by a list of bytes.\<close>

definition bytes_at :: "mem \<Rightarrow> nat \<Rightarrow> nat \<Rightarrow> byte list" where
  "bytes_at m a n = map (\<lambda>i. m (a + i)) [0..<n]"

definition put_bytes :: "mem \<Rightarrow> nat \<Rightarrow> byte list \<Rightarrow> mem" where
  "put_bytes m a bs = (\<lambda>b. if a \<le> b \<and> b < a + length bs then bs ! (b - a) else m b)"

section \<open>Copying, filling and comparing\<close>

text \<open>The string instructions with the direction flag clear.\<close>

primrec rep_movsb :: "nat \<Rightarrow> nat \<Rightarrow> nat \<Rightarrow> mem \<Rightarrow> mem" where
  "rep_movsb 0 d s m = m"
| "rep_movsb (Suc n) d s m = rep_movsb n (d + 1) (s + 1) (m(d := m s))"

primrec rep_movsq :: "nat \<Rightarrow> nat \<Rightarrow> nat \<Rightarrow> mem \<Rightarrow> mem" where
  "rep_movsq 0 d s m = m"
| "rep_movsq (Suc n) d s m = rep_movsq n (d + 8) (s + 8) (store_le 8 m d (load_le 8 m s))"

text \<open>The \<open>.bulk\<close> part: quadwords, then the tail.\<close>

definition memcpy_bulk :: "nat \<Rightarrow> nat \<Rightarrow> nat \<Rightarrow> mem \<Rightarrow> mem" where
  "memcpy_bulk d s n m =
     rep_movsb (n AND 7) (d + 8 * (n div 8)) (s + 8 * (n div 8)) (rep_movsq (n div 8) d s m)"

text \<open>\<open>erms\<close> is the flag \<open>erms_supported\<close> that the boot code sets from CPUID.\<close>

definition memcpy :: "bool \<Rightarrow> nat \<Rightarrow> nat \<Rightarrow> nat \<Rightarrow> mem \<Rightarrow> mem" where
  "memcpy erms d s n m =
     (if n = 0 then m
      else if erms then rep_movsb n d s m
      else if n < 32 then rep_movsb n d s m
      else if (d XOR s) AND 7 \<noteq> 0 then memcpy_bulk d s n m
      else if d AND 7 = 0 then memcpy_bulk d s n m
      else (let k = min (8 - (d AND 7)) n
            in memcpy_bulk (d + k) (s + k) (n - k) (rep_movsb k d s m)))"

primrec memset_loop :: "nat \<Rightarrow> nat \<Rightarrow> nat \<Rightarrow> byte \<Rightarrow> mem \<Rightarrow> mem" where
  "memset_loop 0 i p v m = m"
| "memset_loop (Suc k) i p v m = memset_loop k (i + 1) p v (m(p + i := v))"

definition memset :: "nat \<Rightarrow> byte \<Rightarrow> nat \<Rightarrow> mem \<Rightarrow> mem" where
  "memset p v num m = memset_loop num 0 p v m"

primrec move_up :: "nat \<Rightarrow> nat \<Rightarrow> nat \<Rightarrow> nat \<Rightarrow> mem \<Rightarrow> mem" where
  "move_up 0 i d s m = m"
| "move_up (Suc k) i d s m = move_up k (i + 1) d s (m(d + i := m (s + i)))"

primrec move_down :: "nat \<Rightarrow> nat \<Rightarrow> nat \<Rightarrow> mem \<Rightarrow> mem" where
  "move_down 0 d s m = m"
| "move_down (Suc i) d s m = move_down i d s (m(d + i := m (s + i)))"

definition memmove :: "nat \<Rightarrow> nat \<Rightarrow> nat \<Rightarrow> mem \<Rightarrow> mem" where
  "memmove dest src n m =
     (if dest = 0 \<or> src = 0 \<or> n = 0 then m
      else if dest < src then move_up n 0 dest src m
      else if dest > src then move_down n dest src m
      else m)"

text \<open>\<open>cmp_bytes\<close> is the byte loop; \<open>None\<close> stands for falling out of it.\<close>

primrec cmp_bytes :: "nat \<Rightarrow> nat \<Rightarrow> nat \<Rightarrow> mem \<Rightarrow> int option" where
  "cmp_bytes 0 a b m = None"
| "cmp_bytes (Suc k) a b m =
     (if m a \<noteq> m b then Some (uint (m a) - uint (m b)) else cmp_bytes k (a + 1) (b + 1) m)"

primrec cmp_words :: "nat \<Rightarrow> nat \<Rightarrow> nat \<Rightarrow> mem \<Rightarrow> int option" where
  "cmp_words 0 a b m = None"
| "cmp_words (Suc k) a b m =
     (if load_le 8 m a \<noteq> load_le 8 m b
      then (case cmp_bytes 8 a b m of
              Some r \<Rightarrow> Some r | None \<Rightarrow> cmp_words k (a + 8) (b + 8) m)
      else cmp_words k (a + 8) (b + 8) m)"

definition memcmp :: "nat \<Rightarrow> nat \<Rightarrow> nat \<Rightarrow> mem \<Rightarrow> int" where
  "memcmp s1 s2 n m =
     (if n = 0 \<or> s1 = s2 then 0
      else if n mod 8 = 0 \<and> s1 mod 8 = 0 \<and> s2 mod 8 = 0
      then (case cmp_words (n div 8) s1 s2 m of Some r \<Rightarrow> r | None \<Rightarrow> 0)
      else (case cmp_bytes n s1 s2 m of Some r \<Rightarrow> r | None \<Rightarrow> 0))"

text \<open>The references the routines are compared with: the simultaneous copy and the
  difference at the first position where two byte strings differ.\<close>

definition copied :: "nat \<Rightarrow> nat \<Rightarrow> nat \<Rightarrow> mem \<Rightarrow> mem" where
  "copied d s n m = (\<lambda>a. if d \<le> a \<and> a < d + n then m (s + (a - d)) else m a)"

fun first_difference :: "byte list \<Rightarrow> byte list \<Rightarrow> int" where
  "first_difference (x # xs) (y # ys) =
     (if x = y then first_difference xs ys else uint x - uint y)"
| "first_difference _ _ = 0"

section \<open>Size arithmetic without wrap-around\<close>

lemma add64_small: "a + b < 2 ^ 64 \<Longrightarrow> add64 a b = a + b"
  by (simp add: add64_def)

lemma mul64_small: "a * b < 2 ^ 64 \<Longrightarrow> mul64 a b = a * b"
  by (simp add: mul64_def)

lemma sub64_le:
  assumes "b \<le> a" and "a < 2 ^ 64"
  shows "sub64 a b = a - b"
proof -
  have "a + 2 ^ 64 - b mod 2 ^ 64 = (a - b) + 2 ^ 64" using assms by simp
  then show ?thesis using assms unfolding sub64_def by (simp only: mod_add_self2) simp
qed

section \<open>Alignment\<close>

lemma and_not_mask: "w AND NOT (mask k) = push_bit k (drop_bit k (w :: 64 word))"
  by (rule bit_word_eqI) (auto simp: bit_simps)

lemma align_up64_eq:
  assumes "k < 64" and "x + 2 ^ k \<le> 2 ^ 64"
  shows "align_up64 x (2 ^ k) = (x + 2 ^ k - 1) div 2 ^ k * 2 ^ k"
proof -
  let ?y = "x + 2 ^ k - 1"
  have one: "(1 :: nat) \<le> 2 ^ k" by simp
  have w: "(of_nat x + of_nat (2 ^ k) - 1 :: 64 word) = of_nat ?y"
  proof -
    have "(of_nat (?y + 1) :: 64 word) = of_nat x + of_nat (2 ^ k)" using one by simp
    then show ?thesis by (simp only: of_nat_add of_nat_1) (simp add: algebra_simps)
  qed
  have msk: "(of_nat (2 ^ k) - 1 :: 64 word) = mask k"
    by (simp add: mask_eq_exp_minus_1)
  have y: "?y < 2 ^ 64" using assms one by linarith
  have "align_up64 x (2 ^ k) = unat (push_bit k (drop_bit k (of_nat ?y :: 64 word)))"
    unfolding align_up64_def w msk and_not_mask ..
  also have "\<dots> = take_bit 64 (push_bit k (?y div 2 ^ k))"
  proof -
    have "unat (of_nat ?y :: 64 word) = ?y" using y by (rule unat_of_nat64)
    then have "unat (drop_bit k (of_nat ?y :: 64 word)) = ?y div 2 ^ k"
      using y by (simp only: unsigned_drop_bit_eq) (simp add: drop_bit_eq_div take_bit_nat_eq_self)
    then show ?thesis by (simp only: unsigned_push_bit_eq) simp
  qed
  also have "\<dots> = ?y div 2 ^ k * 2 ^ k"
    using le_less_trans [OF div_times_less_eq_dividend [of ?y "2 ^ k"] y]
    by (simp only: push_bit_eq_mult take_bit_nat_eq_self)
  finally show ?thesis .
qed

lemma align_up64_bounds:
  assumes "k < 64" and "x + 2 ^ k \<le> 2 ^ 64"
  shows "2 ^ k dvd align_up64 x (2 ^ k)" "x \<le> align_up64 x (2 ^ k)"
    "align_up64 x (2 ^ k) < x + 2 ^ k"
proof -
  let ?y = "x + 2 ^ k - 1"
  have "?y div 2 ^ k * 2 ^ k + ?y mod 2 ^ k = ?y"
    by (rule div_mult_mod_eq)
  moreover have "?y mod 2 ^ k < 2 ^ k" "1 \<le> (2 :: nat) ^ k" by simp_all
  ultimately have "x \<le> ?y div 2 ^ k * 2 ^ k" "?y div 2 ^ k * 2 ^ k < x + 2 ^ k"
    by linarith+
  then show "2 ^ k dvd align_up64 x (2 ^ k)" "x \<le> align_up64 x (2 ^ k)"
    "align_up64 x (2 ^ k) < x + 2 ^ k"
    using align_up64_eq [OF assms] by simp_all
qed

lemma pow2_and: "(2 ^ k :: nat) AND (2 ^ k - 1) = 0"
  using take_bit_eq_mask [of k "2 ^ k :: nat"] by (simp add: mask_eq_exp_minus_1 take_bit_eq_mod)

lemma align_up64_wrap:
  assumes "x < 2 ^ 64" and "2 ^ 64 < x + 2 ^ k"
  shows "k < 64 \<Longrightarrow> align_up64 x (2 ^ k) = 0"
proof -
  assume k: "k < 64"
  have one: "(1 :: nat) \<le> 2 ^ k" by simp
  have "(of_nat (x + 2 ^ k - 1) :: 64 word) = of_nat (x + 2 ^ k - 1 - 2 ^ 64)"
  proof -
    have "(of_nat (x + 2 ^ k - 1 - 2 ^ 64 + 2 ^ 64) :: 64 word) = of_nat (x + 2 ^ k - 1 - 2 ^ 64)"
      by (simp only: of_nat_add) simp
    moreover have "x + 2 ^ k - 1 - 2 ^ 64 + 2 ^ 64 = x + 2 ^ k - 1" using assms by linarith
    ultimately show ?thesis by metis
  qed
  moreover have "x + 2 ^ k - 1 - 2 ^ 64 < 2 ^ k" using assms one by linarith
  moreover have "(of_nat x + of_nat (2 ^ k) - 1 :: 64 word) = of_nat (x + 2 ^ k - 1)"
  proof -
    have "(of_nat (x + 2 ^ k - 1 + 1) :: 64 word) = of_nat x + of_nat (2 ^ k)" using one by simp
    then show ?thesis by (simp only: of_nat_add of_nat_1) (simp add: algebra_simps)
  qed
  moreover have "drop_bit k (of_nat y :: 64 word) = 0" if "y < 2 ^ k" for y :: nat
  proof -
    have "y < 2 ^ 64" using that k power_strict_increasing [of k 64 "2 :: nat"] by linarith
    then have "unat (drop_bit k (of_nat y :: 64 word)) = 0"
      using that by (simp only: unsigned_drop_bit_eq) (simp add: drop_bit_eq_div take_bit_nat_eq_self unat_of_nat64)
    then show ?thesis by (simp only: unat_eq_0)
  qed
  ultimately show "align_up64 x (2 ^ k) = 0"
    unfolding align_up64_def by (simp add: and_not_mask flip: mask_eq_exp_minus_1)
qed

section \<open>Objects in memory\<close>

lemma load_le_cong: "(\<And>b. a \<le> b \<Longrightarrow> b < a + n \<Longrightarrow> m b = m' b) \<Longrightarrow> load_le n m a = load_le n m' a"
  by (induction n arbitrary: a) auto

lemma store_le_other: "b < a \<or> a + n \<le> b \<Longrightarrow> store_le n m a v b = m b"
  by (induction n arbitrary: m a v) auto

lemma load_store_le [mem_simps]: "load_le n (store_le n m a v) a = v mod 256 ^ n"
proof (induction n arbitrary: m a v)
  case (Suc n)
  have "store_le n (m(a := word_of_nat v)) (Suc a) (v div 256) a = word_of_nat v"
    by (simp add: store_le_other)
  then show ?case
    by (simp add: Suc unat_of_nat take_bit_eq_mod mod_mult2_eq add.commute)
qed simp

lemma load_store_le_other [mem_simps]:
  "a + k \<le> b \<or> b + n \<le> a \<Longrightarrow> load_le n (store_le k m a v) b = load_le n m b"
  by (rule load_le_cong) (auto intro: store_le_other)

lemma load_le_bound: "load_le n m a < 256 ^ n"
proof (induction n arbitrary: a)
  case (Suc n)
  have "unat (m a) < 256" using unsigned_less [of "m a"] by simp
  with Suc [of "Suc a"] show ?case by simp
qed simp

lemma byte_digit_inject:
  fixes x y p q :: nat
  assumes "x < 256" and "y < 256"
  shows "x + 256 * p = y + 256 * q \<longleftrightarrow> x = y \<and> p = q"
proof
  assume eq: "x + 256 * p = y + 256 * q"
  from arg_cong [OF eq, where f = "\<lambda>v. v mod 256"] assms have "x = y" by simp
  with eq show "x = y \<and> p = q" by simp
qed simp

lemma load_le_inject: "load_le n m a = load_le n m' b \<longleftrightarrow> (\<forall>i<n. m (a + i) = m' (b + i))"
proof (induction n arbitrary: a b)
  case (Suc n)
  have bound: "unat (m a) < 256" "unat (m' b) < 256"
    using unsigned_less [of "m a"] unsigned_less [of "m' b"] by simp_all
  have "load_le (Suc n) m a = load_le (Suc n) m' b \<longleftrightarrow>
      m a = m' b \<and> load_le n m (Suc a) = load_le n m' (Suc b)"
    by (simp only: load_le.simps byte_digit_inject [OF bound] word_unat_eq_iff)
  also have "\<dots> \<longleftrightarrow> m a = m' b \<and> (\<forall>i<n. m (a + Suc i) = m' (b + Suc i))"
    by (simp only: Suc add_Suc add_Suc_right)
  also have "\<dots> \<longleftrightarrow> (\<forall>i<Suc n. m (a + i) = m' (b + i))"
    by (simp only: All_less_Suc2 add_0_right)
  finally show ?case .
qed simp

lemma store_le_load: "a \<le> b \<Longrightarrow> b < a + n \<Longrightarrow> store_le n m a (load_le n m' s) b = m' (s + (b - a))"
  using load_store_le [of n m a "load_le n m' s"] load_le_bound [of n m' s]
    load_le_inject [of n "store_le n m a (load_le n m' s)" a m' s]
  by (auto dest: spec [of _ "b - a"])

lemma store_le_copied: "store_le n m d (load_le n m s) = copied d s n m"
  by (rule ext) (auto simp: copied_def store_le_load store_le_other)

section \<open>The copy routines compute the simultaneous copy\<close>

lemma copied_0 [simp]: "copied d s 0 m = m"
  by (auto simp: copied_def fun_eq_iff)

lemma copied_compose:
  "d \<le> s \<or> s + (k + n) \<le> d \<Longrightarrow> copied (d + k) (s + k) n (copied d s k m) = copied d s (k + n) m"
  by (rule ext) (auto simp: copied_def intro!: arg_cong [where f = m])

lemma copied_1: "m(d := m s) = copied d s 1 m"
  by (rule ext) (auto simp: copied_def)

lemma rep_movsb_copied: "d \<le> s \<or> s + n \<le> d \<Longrightarrow> rep_movsb n d s m = copied d s n m"
proof (induction n arbitrary: d s m)
  case (Suc n)
  then show ?case
    using copied_compose [of d s 1 n m] by (simp add: copied_1 del: fun_upd_apply) force
qed simp

lemma rep_movsq_copied: "d \<le> s \<or> s + 8 * n \<le> d \<Longrightarrow> rep_movsq n d s m = copied d s (8 * n) m"
proof (induction n arbitrary: d s m)
  case (Suc n)
  have "rep_movsq (Suc n) d s m = copied (d + 8) (s + 8) (8 * n) (copied d s 8 m)"
    using Suc.IH [of "d + 8" "s + 8" "copied d s 8 m"] Suc.prems
    by (simp only: rep_movsq.simps store_le_copied) force
  also have "\<dots> = copied d s (8 * Suc n) m"
    using copied_compose [of d s 8 "8 * n" m] Suc.prems by simp
  finally show ?case .
qed simp

lemma and_7_nat: "(n :: nat) AND 7 = n mod 8"
  using take_bit_eq_mask [of 3 n] by (simp add: take_bit_eq_mod mask_eq_exp_minus_1)

lemma memcpy_bulk_copied:
  assumes "d \<le> s \<or> s + n \<le> d"
  shows "memcpy_bulk d s n m = copied d s n m"
proof -
  have n: "8 * (n div 8) + n mod 8 = n" by simp
  have "rep_movsq (n div 8) d s m = copied d s (8 * (n div 8)) m"
    using assms n by (intro rep_movsq_copied) linarith
  moreover have "rep_movsb (n mod 8) (d + 8 * (n div 8)) (s + 8 * (n div 8)) m' =
      copied (d + 8 * (n div 8)) (s + 8 * (n div 8)) (n mod 8) m'" for m'
    using assms n by (intro rep_movsb_copied) linarith
  ultimately show ?thesis
    using copied_compose [of d s "8 * (n div 8)" "n mod 8" m] assms n
    by (simp add: memcpy_bulk_def and_7_nat)
qed

lemma memcpy_copied:
  assumes "d \<le> s \<or> s + n \<le> d"
  shows "memcpy erms d s n m = copied d s n m"
proof -
  have "memcpy_bulk (d + k) (s + k) (n - k) (rep_movsb k d s m) = copied d s n m"
    if k: "k \<le> n" for k
  proof -
    have "memcpy_bulk (d + k) (s + k) (n - k) (rep_movsb k d s m) =
        copied (d + k) (s + k) (n - k) (copied d s k m)"
      using assms k by (subst memcpy_bulk_copied, force, subst rep_movsb_copied, force, simp)
    with copied_compose [of d s k "n - k" m] assms k show ?thesis by simp
  qed
  with assms show ?thesis
    by (simp add: memcpy_def Let_def rep_movsb_copied memcpy_bulk_copied)
qed

lemma memset_loop_put: "memset_loop k i p v m = (\<lambda>b. if p + i \<le> b \<and> b < p + i + k then v else m b)"
  by (induction k arbitrary: i m) (auto simp: fun_eq_iff)

lemma memset_apply: "memset p v n m = (\<lambda>b. if p \<le> b \<and> b < p + n then v else m b)"
  by (simp add: memset_def memset_loop_put)

lemma move_up_copied: "d \<le> s \<Longrightarrow> move_up k i d s m = copied (d + i) (s + i) k m"
proof (induction k arbitrary: i m)
  case (Suc k)
  then show ?case
    using copied_compose [of "d + i" "s + i" 1 k m]
    by (simp add: copied_1 [of m "d + i" "s + i"])
qed simp

lemma move_down_copied: "s \<le> d \<Longrightarrow> move_down k d s m = copied d s k m"
proof (induction k arbitrary: m)
  case (Suc k)
  then show ?case
    by (auto simp: copied_def fun_eq_iff less_Suc_eq intro!: arg_cong [where f = m])
qed simp

section \<open>Comparison\<close>

lemma bytes_at_Suc: "bytes_at m a (Suc n) = m a # bytes_at m (Suc a) n"
  by (simp add: bytes_at_def upt_conv_Cons map_Suc_upt [symmetric] del: upt_Suc)

lemma cmp_bytes_None: "cmp_bytes k a b m = None \<longleftrightarrow> (\<forall>i<k. m (a + i) = m (b + i))"
proof (induction k arbitrary: a b)
  case (Suc k)
  then show ?case by (simp add: All_less_Suc2)
qed simp

lemma cmp_bytes_first:
  "(case cmp_bytes k a b m of Some r \<Rightarrow> r | None \<Rightarrow> 0) =
     first_difference (bytes_at m a k) (bytes_at m b k)"
proof (induction k arbitrary: a b)
  case (Suc k)
  then show ?case by (simp add: bytes_at_Suc)
qed (simp add: bytes_at_def)

lemma cmp_bytes_add:
  "cmp_bytes (j + k) a b m =
     (case cmp_bytes j a b m of Some r \<Rightarrow> Some r | None \<Rightarrow> cmp_bytes k (a + j) (b + j) m)"
proof (induction j arbitrary: a b)
  case (Suc j)
  then show ?case by (simp split: option.split)
qed simp

lemma cmp_words_bytes: "cmp_words k a b m = cmp_bytes (8 * k) a b m"
proof (induction k arbitrary: a b)
  case (Suc k)
  have "cmp_bytes (8 * Suc k) a b m = (case cmp_bytes 8 a b m of Some r \<Rightarrow> Some r
      | None \<Rightarrow> cmp_bytes (8 * k) (a + 8) (b + 8) m)"
    using cmp_bytes_add [of 8 "8 * k" a b m] by simp
  moreover have "load_le 8 m a = load_le 8 m b \<longleftrightarrow> cmp_bytes 8 a b m = None"
    by (simp add: cmp_bytes_None load_le_inject)
  ultimately show ?case
    by (cases "cmp_bytes 8 a b m") (simp_all only: cmp_words.simps Suc option.simps if_True if_False simp_thms)
qed simp

lemma first_difference_self [simp]: "first_difference xs xs = 0"
  by (induction xs) auto

section \<open>Properties\<close>

text \<open>C5. Whatever the CPU's ERMS flag and the alignment and length of the operands, the
  assembly \<open>memcpy\<close> leaves in memory exactly the simultaneous copy, when the source does
  not start below a destination it overlaps.\<close>

theorem memcpy_correct:
  assumes "d \<le> s \<or> s + n \<le> d"
  shows "memcpy erms d s n m = copied d s n m"
  using assms by (rule memcpy_copied)

theorem memcpy_correct_witness:
  "memcpy False 3 1003 40 (\<lambda>a. word_of_nat a) 42 = (word_of_nat 1042 :: byte)"
  by (subst memcpy_correct) (simp_all add: copied_def)

text \<open>C6. \<open>memmove\<close> between non-null buffers is the simultaneous copy however the two
  ranges overlap; with a null buffer it does nothing.\<close>

theorem memmove_correct:
  "memmove dest src n m = (if dest = 0 \<or> src = 0 then m else copied dest src n m)"
proof -
  have "copied src src n m = m" by (auto simp: copied_def)
  then show ?thesis
    by (cases dest src rule: linorder_cases)
      (auto simp: memmove_def move_up_copied move_down_copied)
qed

text \<open>C7. \<open>memcmp\<close> returns the difference of the first two bytes in which the operands
  differ and 0 when they do not, also on its word-at-a-time path.\<close>

theorem memcmp_correct:
  "memcmp s1 s2 n m = first_difference (bytes_at m s1 n) (bytes_at m s2 n)"
  by (auto simp: memcmp_def cmp_words_bytes cmp_bytes_first bytes_at_def dvd_mult_div_cancel mod_eq_0_iff_dvd)

end
