(* ===== verification/Allocator_Spec.thy ===== *)
theory Allocator_Spec
  imports Memory
begin

text \<open>
  What the users of \<open>malloc\<close> and \<open>free\<close> rely on, as a locale, and what follows from it
  for any client: the objects it allocated behave as private byte arrays, whatever else is
  allocated, written or freed in between. \<open>rep h L\<close> says that \<open>h\<close> is an intact heap
  whose blocks in use are \<open>L\<close> (address and size).
\<close>

text \<open>A change of memory that no owner of a block can see.\<close>

definition outside :: "(nat \<times> nat) set \<Rightarrow> nat \<Rightarrow> bool" where
  "outside L c \<longleftrightarrow> (\<forall>(q, t) \<in> L. c < q \<or> q + t \<le> c)"

definition keeps :: "(nat \<times> nat) set \<Rightarrow> mem \<Rightarrow> mem \<Rightarrow> bool" where
  "keeps L m m' \<longleftrightarrow> (\<forall>(q, t) \<in> L. \<forall>c. q \<le> c \<and> c < q + t \<longrightarrow> m' c = m c)"

text \<open>A client run: the heap it works on and the objects it holds, by address.\<close>

inductive client_run ::
  "('h \<Rightarrow> mem) \<Rightarrow> (nat \<Rightarrow> bool) \<Rightarrow> (nat \<Rightarrow> 'h \<Rightarrow> (nat \<times> 'h) option) \<Rightarrow> (nat \<Rightarrow> 'h \<Rightarrow> 'h option) \<Rightarrow>
   (nat \<Rightarrow> byte \<Rightarrow> 'h \<Rightarrow> 'h) \<Rightarrow> 'h \<Rightarrow> 'h \<Rightarrow> (nat \<rightharpoonup> byte list) \<Rightarrow> bool"
  for memory request alloc release poke h0 where
  Start: "client_run memory request alloc release poke h0 h0 Map.empty"
| Malloc: "client_run memory request alloc release poke h0 h objs \<Longrightarrow> 0 < n \<Longrightarrow> request n \<Longrightarrow>
    alloc n h = Some (p, h') \<Longrightarrow> p \<noteq> 0 \<Longrightarrow>
    client_run memory request alloc release poke h0 h' (objs(p \<mapsto> bytes_at (memory h') p n))"
| Malloc_Null: "client_run memory request alloc release poke h0 h objs \<Longrightarrow> 0 < n \<Longrightarrow> request n \<Longrightarrow>
    alloc n h = Some (0, h') \<Longrightarrow>
    client_run memory request alloc release poke h0 h' objs"
| Free: "client_run memory request alloc release poke h0 h objs \<Longrightarrow> objs p = Some bs \<Longrightarrow>
    release p h = Some h' \<Longrightarrow>
    client_run memory request alloc release poke h0 h' (objs(p := None))"
| Poke: "client_run memory request alloc release poke h0 h objs \<Longrightarrow> objs p = Some bs \<Longrightarrow>
    i < length bs \<Longrightarrow>
    client_run memory request alloc release poke h0 (poke (p + i) v h) (objs(p \<mapsto> bs[i := v]))"

text \<open>The objects are where the client thinks they are, with the bytes it put there.\<close>

definition holds_at :: "mem \<Rightarrow> (nat \<times> nat) set \<Rightarrow> nat \<Rightarrow> byte list \<Rightarrow> bool" where
  "holds_at m L p bs \<longleftrightarrow>
     0 < length bs \<and> (\<exists>s. (p, s) \<in> L \<and> length bs \<le> s) \<and> bytes_at m p (length bs) = bs"

definition holds :: "mem \<Rightarrow> (nat \<times> nat) set \<Rightarrow> (nat \<rightharpoonup> byte list) \<Rightarrow> bool" where
  "holds m L objs \<longleftrightarrow> (\<forall>p bs. objs p = Some bs \<longrightarrow> holds_at m L p bs)"

lemma keeps_outside: "(\<And>c. m' c \<noteq> m c \<Longrightarrow> outside L c) \<Longrightarrow> keeps L m m'"
  unfolding keeps_def outside_def by fastforce

lemma keeps_refl [simp]: "keeps L m m"
  by (simp add: keeps_def)

lemma keeps_trans: "keeps L m m' \<Longrightarrow> keeps L' m' m'' \<Longrightarrow> L \<subseteq> L' \<Longrightarrow> keeps L m m''"
  unfolding keeps_def by fastforce

lemma keeps_subset: "keeps L' m m' \<Longrightarrow> L \<subseteq> L' \<Longrightarrow> keeps L m m'"
  unfolding keeps_def by fastforce

lemma keeps_bytes: "keeps L m m' \<Longrightarrow> (p, s) \<in> L \<Longrightarrow> k \<le> s \<Longrightarrow> bytes_at m' p k = bytes_at m p k"
  unfolding keeps_def bytes_at_def by force

lemma length_bytes_at [simp]: "length (bytes_at m p n) = n"
  by (simp add: bytes_at_def)

lemma bytes_at_update: "i < n \<Longrightarrow> bytes_at (m(p + i := v)) p n = (bytes_at m p n)[i := v]"
  by (rule nth_equalityI) (auto simp: bytes_at_def nth_list_update)

lemma bytes_at_update_other: "c < p \<or> p + n \<le> c \<Longrightarrow> bytes_at (m(c := v)) p n = bytes_at m p n"
  by (auto simp: bytes_at_def)

lemma holds_at_keep:
  assumes "holds_at m L p bs" and "L \<subseteq> L'" and "keeps L m m'"
  shows "holds_at m' L' p bs"
  using assms keeps_bytes [OF assms(3)] unfolding holds_at_def by (metis subsetD)

lemma holds_keep:
  assumes "holds m L objs" and "L \<subseteq> L'" and "keeps L m m'"
  shows "holds m' L' objs"
  using assms holds_at_keep unfolding holds_def by blast

lemma holds_alloc:
  assumes "holds m L objs" and "L \<subseteq> L'" and "keeps L m m'"
    and "(p, s) \<in> L'" and "n \<le> s" and "0 < n"
  shows "holds m' L' (objs(p \<mapsto> bytes_at m' p n))"
proof -
  have "holds_at m' L' p (bytes_at m' p n)" using assms(4-6) by (auto simp: holds_at_def)
  with holds_keep [OF assms(1-3)] show ?thesis by (simp add: holds_def)
qed

locale allocator =
  fixes rep :: "'h \<Rightarrow> (nat \<times> nat) set \<Rightarrow> bool"
    and memory :: "'h \<Rightarrow> mem"
    and request :: "nat \<Rightarrow> bool"
    and alloc :: "nat \<Rightarrow> 'h \<Rightarrow> (nat \<times> 'h) option"
    and release :: "nat \<Rightarrow> 'h \<Rightarrow> 'h option"
    and poke :: "nat \<Rightarrow> byte \<Rightarrow> 'h \<Rightarrow> 'h"
  assumes alloc_rep: "rep h L \<Longrightarrow> 0 < n \<Longrightarrow> request n \<Longrightarrow>
      \<exists>p h' L'. alloc n h = Some (p, h') \<and> rep h' L' \<and> L \<subseteq> L' \<and>
        keeps L (memory h) (memory h') \<and> (p \<noteq> 0 \<longrightarrow> (\<exists>s \<ge> n. (p, s) \<in> L' - L))"
    and release_rep: "rep h L \<Longrightarrow> (p, s) \<in> L \<Longrightarrow>
      \<exists>h'. release p h = Some h' \<and> rep h' (L - {(p, s)}) \<and> keeps L (memory h) (memory h')"
    and separate: "rep h L \<Longrightarrow> (p, s) \<in> L \<Longrightarrow> (q, t) \<in> L \<Longrightarrow>
      0 < s \<and> ((p, s) = (q, t) \<or> p + s \<le> q \<or> q + t \<le> p)"
    and poke_rep: "rep h L \<Longrightarrow> (p, s) \<in> L \<Longrightarrow> i < s \<Longrightarrow>
      rep (poke (p + i) v h) L \<and> memory (poke (p + i) v h) = (memory h)(p + i := v)"
begin

lemma live_unique: "rep h L \<Longrightarrow> (p, s) \<in> L \<Longrightarrow> (p, t) \<in> L \<Longrightarrow> s = t"
  using separate [of h L p s p t] separate [of h L p t p s] by auto

lemma holds_release:
  assumes "holds m L objs" and "keeps L m m'"
  shows "holds m' (L - {(p, s)}) (objs(p := None))"
proof -
  have "holds_at m' (L - {(p, s)}) q bs" if "objs q = Some bs" "q \<noteq> p" for q bs
    using holds_keep [OF assms(1) order_refl assms(2)] that by (auto simp: holds_def holds_at_def)
  then show ?thesis by (simp add: holds_def)
qed

lemma holds_poke:
  assumes rep: "rep h L" and holds: "holds (memory h) L objs" and p: "objs p = Some bs" "i < length bs"
  shows "\<exists>s. (p, s) \<in> L \<and> i < s \<and> holds ((memory h)(p + i := v)) L (objs(p \<mapsto> bs[i := v]))"
proof -
  from holds p(1) have at: "holds_at (memory h) L p bs" by (simp add: holds_def)
  then obtain s where s: "(p, s) \<in> L" "length bs \<le> s" by (auto simp: holds_at_def)
  have "holds_at ((memory h)(p + i := v)) L q cs" if q: "objs q = Some cs" "q \<noteq> p" for q cs
  proof -
    from holds q have q_at: "holds_at (memory h) L q cs" by (simp add: holds_def)
    then obtain t where "(q, t) \<in> L" "length cs \<le> t" by (auto simp: holds_at_def)
    with separate [OF rep s(1), of q t] q(2) s(2) p(2)
    have "p + i < q \<or> q + length cs \<le> p + i" by auto
    with q_at show ?thesis by (simp add: holds_at_def bytes_at_update_other)
  qed
  moreover have "holds_at ((memory h)(p + i := v)) L p (bs[i := v])"
    using at bytes_at_update [OF p(2), of "memory h" p v] by (simp add: holds_at_def)
  ultimately show ?thesis using s p(2) by (auto simp: holds_def)
qed

text \<open>Every operation of a client run can be carried out, and its objects stay intact.\<close>

lemma run_holds:
  assumes "client_run memory request alloc release poke h0 h objs" and "rep h0 L0"
  shows "\<exists>L. rep h L \<and> holds (memory h) L objs"
  using assms
proof (induction rule: client_run.induct)
  case Start
  then show ?case by (auto simp: holds_def)
next
  case (Malloc h objs n p h')
  then obtain L where L: "rep h L" "holds (memory h) L objs" by blast
  from alloc_rep [OF L(1) \<open>0 < n\<close> \<open>request n\<close>] Malloc obtain L' s where
    "rep h' L'" "L \<subseteq> L'" "keeps L (memory h) (memory h')" "n \<le> s" "(p, s) \<in> L'" by auto
  with holds_alloc [OF L(2), of L' "memory h'" p s n] \<open>0 < n\<close> show ?case by blast
next
  case (Malloc_Null h objs n h')
  then obtain L where L: "rep h L" "holds (memory h) L objs" by blast
  from alloc_rep [OF L(1) \<open>0 < n\<close> \<open>request n\<close>] Malloc_Null obtain L' where
    "rep h' L'" "L \<subseteq> L'" "keeps L (memory h) (memory h')" by auto
  with holds_keep [OF L(2)] show ?case by blast
next
  case (Free h objs p bs h')
  then obtain L where L: "rep h L" "holds (memory h) L objs" by blast
  with Free.hyps(2) obtain s where s: "(p, s) \<in> L" by (auto simp: holds_def holds_at_def)
  from release_rep [OF L(1) s] Free.hyps(3) have
    "rep h' (L - {(p, s)})" "keeps L (memory h) (memory h')" by auto
  with holds_release [OF L(2)] show ?case by blast
next
  case (Poke h objs p bs i v)
  then obtain L where L: "rep h L" "holds (memory h) L objs" by blast
  from holds_poke [OF L Poke.hyps(2,3), of v] obtain s where
    "(p, s) \<in> L" "i < s" "holds ((memory h)(p + i := v)) L (objs(p \<mapsto> bs[i := v]))" by blast
  with poke_rep [OF L(1), of p s i v] show ?case by metis
qed

end

end
