(* ===== verification/Heap_Spec.thy ===== *)
theory Heap_Spec
  imports Prelude
begin

text \<open>
  What the kernel heap promises, without headers and memory. A region is laid out as a list
  of blocks (payload size, free or not), each preceded by a 16-byte header, so that the
  address of every block follows from the layout. Allocation is first fit with splitting
  (\<open>take_block\<close>), release marks one block and joins all neighbouring free blocks
  (\<open>give_back\<close>).
\<close>

section \<open>Layouts\<close>

type_synonym block = "nat \<times> bool"

abbreviation (input) hdr :: nat where "hdr \<equiv> 16"

primrec end_of :: "nat \<Rightarrow> block list \<Rightarrow> nat" where
  "end_of a [] = a"
| "end_of a (b # bs) = end_of (a + hdr + fst b) bs"

text \<open>The payloads handed out to clients: address and size.\<close>

primrec live :: "nat \<Rightarrow> block list \<Rightarrow> (nat \<times> nat) set" where
  "live a [] = {}"
| "live a (b # bs) = (if snd b then {} else {(a + hdr, fst b)}) \<union> live (a + hdr + fst b) bs"

text \<open>The bytes that hold block headers.\<close>

primrec headers :: "nat \<Rightarrow> block list \<Rightarrow> nat set" where
  "headers a [] = {}"
| "headers a (b # bs) = {a..<a + hdr} \<union> headers (a + hdr + fst b) bs"

fun coalesced :: "block list \<Rightarrow> bool" where
  "coalesced (b # c # bs) \<longleftrightarrow> \<not> (snd b \<and> snd c) \<and> coalesced (c # bs)"
| "coalesced _ \<longleftrightarrow> True"

section \<open>Allocation and release\<close>

text \<open>A free block of \<open>s\<close> bytes serving a request of \<open>n\<close>: the rest becomes a block of its
  own when it has room for a header and 16 bytes.\<close>

definition carve :: "nat \<Rightarrow> nat \<Rightarrow> block list" where
  "carve n s = (if n + 32 \<le> s then [(n, False), (s - n - hdr, True)] else [(s, False)])"

fun take_block :: "nat \<Rightarrow> nat \<Rightarrow> block list \<Rightarrow> (nat \<times> block list) option" where
  "take_block n a [] = None"
| "take_block n a (b # bs) =
     (if snd b \<and> n \<le> fst b then Some (a + hdr, carve n (fst b) @ bs)
      else map_option (apsnd ((#) b)) (take_block n (a + hdr + fst b) bs))"

fun join :: "block \<Rightarrow> block list \<Rightarrow> block list" where
  "join b [] = [b]"
| "join b (c # cs) = (if snd b \<and> snd c then (fst b + hdr + fst c, True) # cs else b # c # cs)"

primrec merge :: "block list \<Rightarrow> block list" where
  "merge [] = []"
| "merge (b # bs) = join b (merge bs)"

text \<open>The block a pointer points into, its header included except for the first byte.\<close>

fun mark_free :: "nat \<Rightarrow> nat \<Rightarrow> block list \<Rightarrow> block list option" where
  "mark_free p a [] = None"
| "mark_free p a (b # bs) =
     (if a < p \<and> p < a + hdr + fst b then Some ((fst b, True) # bs)
      else map_option ((#) b) (mark_free p (a + hdr + fst b) bs))"

definition give_back :: "nat \<Rightarrow> nat \<Rightarrow> block list \<Rightarrow> block list option" where
  "give_back p a bs = map_option merge (mark_free p a bs)"

section \<open>Lemmas\<close>

lemma end_of_append [simp]: "end_of a (xs @ ys) = end_of (end_of a xs) ys"
  by (induction xs arbitrary: a) auto

lemma end_of_ge: "a \<le> end_of a bs"
proof (induction bs arbitrary: a)
  case (Cons b bs)
  have "a + 16 + fst b \<le> end_of (a + 16 + fst b) bs" by (rule Cons.IH)
  then show ?case by simp
qed simp

lemma live_append [simp]: "live a (xs @ ys) = live a xs \<union> live (end_of a xs) ys"
  by (induction xs arbitrary: a) auto

lemma headers_append [simp]: "headers a (xs @ ys) = headers a xs \<union> headers (end_of a xs) ys"
  by (induction xs arbitrary: a) auto

lemma headers_bounds: "c \<in> headers a bs \<Longrightarrow> a \<le> c \<and> c < end_of a bs"
proof (induction bs arbitrary: a)
  case (Cons b bs)
  then show ?case using end_of_ge [of "a + 16 + fst b" bs] by fastforce
qed simp

lemma live_bounds: "(p, s) \<in> live a bs \<Longrightarrow> a + hdr \<le> p \<and> p + s \<le> end_of a bs"
proof (induction bs arbitrary: a)
  case (Cons b bs)
  then show ?case using end_of_ge [of "a + 16 + fst b" bs] by (fastforce split: if_splits)
qed simp

lemma live_headers_disjoint: "(p, s) \<in> live a bs \<Longrightarrow> c \<in> headers a bs \<Longrightarrow> c < p \<or> p + s \<le> c"
proof (induction bs arbitrary: a)
  case (Cons b bs)
  then show ?case
    using headers_bounds [of c "a + 16 + fst b" bs] live_bounds [of p s "a + 16 + fst b" bs]
    by (fastforce split: if_splits)
qed simp

lemma live_separate:
  "(p, s) \<in> live a bs \<Longrightarrow> (q, t) \<in> live a bs \<Longrightarrow> (p, s) = (q, t) \<or> p + s + hdr \<le> q \<or> q + t + hdr \<le> p"
proof (induction bs arbitrary: a)
  case (Cons b bs)
  then show ?case
    using live_bounds [of p s "a + 16 + fst b" bs] live_bounds [of q t "a + 16 + fst b" bs]
    by (fastforce split: if_splits)
qed simp

lemma live_split:
  "(p, s) \<in> live a bs \<Longrightarrow> \<exists>xs ys. bs = xs @ (s, False) # ys \<and> p = end_of a xs + hdr"
proof (induction bs arbitrary: a)
  case (Cons b bs)
  show ?case
  proof (cases "\<not> snd b \<and> (p, s) = (a + hdr, fst b)")
    case True
    then have "b # bs = [] @ (s, False) # bs \<and> p = end_of a [] + hdr" by (cases b) auto
    then show ?thesis by blast
  next
    case False
    with Cons.prems have "(p, s) \<in> live (a + hdr + fst b) bs" by (auto split: if_splits)
    then obtain xs ys where "bs = xs @ (s, False) # ys" "p = end_of (a + hdr + fst b) xs + hdr"
      using Cons.IH by blast
    then have "b # bs = (b # xs) @ (s, False) # ys \<and> p = end_of a (b # xs) + hdr" by simp
    then show ?thesis by blast
  qed
qed simp

subsection \<open>Coalescing\<close>

lemma coalesced_Cons:
  "coalesced (b # bs) \<longleftrightarrow> coalesced bs \<and> (bs = [] \<or> \<not> (snd b \<and> snd (hd bs)))"
  by (cases bs) auto

lemma coalesced_append:
  "coalesced (xs @ ys) \<longleftrightarrow>
     coalesced xs \<and> coalesced ys \<and> (xs = [] \<or> ys = [] \<or> \<not> (snd (last xs) \<and> snd (hd ys)))"
  by (induction xs) (auto simp: coalesced_Cons hd_append)

lemma join_coalesced: "coalesced (b # bs) \<Longrightarrow> join b bs = b # bs"
  by (cases bs) auto

lemma merge_coalesced: "coalesced bs \<Longrightarrow> merge bs = bs"
  by (induction bs) (auto simp: coalesced_Cons join_coalesced)

lemma hd_join [simp]: "snd (hd (join b bs)) = snd b" and join_not_Nil [simp]: "join b bs \<noteq> []"
  by (cases bs; simp)+

lemma coalesced_join: "coalesced bs \<Longrightarrow> coalesced (join b bs)"
  by (cases bs) (auto simp: coalesced_Cons)

lemma coalesced_merge: "coalesced (merge bs)"
  by (induction bs) (auto simp: coalesced_join)

lemma end_of_join: "end_of a (join b bs) = end_of a (b # bs)"
  by (cases bs) (auto simp: algebra_simps)

lemma live_join: "live a (join b bs) = live a (b # bs)"
  by (cases bs) (auto simp: algebra_simps)

lemma end_of_merge: "end_of a (merge bs) = end_of a bs"
  by (induction bs arbitrary: a) (auto simp: end_of_join)

lemma live_merge: "live a (merge bs) = live a bs"
  by (induction bs arbitrary: a) (auto simp: live_join)

lemma join_allocated [simp]: "\<not> snd b \<Longrightarrow> join b bs = b # bs"
  by (cases bs) auto

text \<open>Marking one block of a coalesced layout only its two neighbours can join.\<close>

lemma merge_append: "merge (xs @ ys) = foldr join xs (merge ys)"
  by (induction xs) auto

lemma foldr_join_coalesced: "coalesced (xs @ ys) \<Longrightarrow> foldr join xs ys = xs @ ys"
  by (induction xs) (auto simp: coalesced_Cons join_coalesced)

lemma merge_marked_first:
  assumes "coalesced ((s, f) # ys)"
  shows "merge ((s, True) # ys) = join (s, True) ys"
  using assms by (simp add: coalesced_Cons merge_coalesced)

lemma merge_marked:
  assumes "coalesced (xs @ [b] @ (s, f) # ys)"
  shows "merge (xs @ [b] @ (s, True) # ys) = xs @ join b (join (s, True) ys)"
proof -
  from assms have co: "coalesced (xs @ [b])" "coalesced ys"
    by (auto simp: coalesced_append coalesced_Cons)
  have "coalesced (join b (join (s, True) ys))" using co by (intro coalesced_join)
  with co(1) have "coalesced (xs @ join b (join (s, True) ys))"
    by (auto simp: coalesced_append)
  with co(2) show ?thesis
    by (simp add: merge_append merge_coalesced foldr_join_coalesced)
qed

subsection \<open>Allocation\<close>

definition unfit :: "nat \<Rightarrow> block list \<Rightarrow> bool" where
  "unfit n bs \<longleftrightarrow> (\<forall>b\<in>set bs. \<not> (snd b \<and> n \<le> fst b))"

lemma take_block_None: "take_block n a bs = None \<longleftrightarrow> unfit n bs"
  by (induction bs arbitrary: a) (auto simp: unfit_def)

lemma take_block_SomeD:
  "take_block n a bs = Some (p, bs') \<Longrightarrow>
     \<exists>xs s ys. bs = xs @ (s, True) # ys \<and> unfit n xs \<and> n \<le> s \<and> p = end_of a xs + hdr \<and>
       bs' = xs @ carve n s @ ys"
proof (induction bs arbitrary: a bs')
  case (Cons b bs)
  show ?case
  proof (cases "snd b \<and> n \<le> fst b")
    case True
    with Cons.prems have "b # bs = [] @ (fst b, True) # bs \<and> unfit n [] \<and> n \<le> fst b \<and>
        p = end_of a [] + hdr \<and> bs' = [] @ carve n (fst b) @ bs"
      by (cases b) (auto simp: unfit_def)
    then show ?thesis by blast
  next
    case False
    with Cons.prems obtain cs where cs: "take_block n (a + hdr + fst b) bs = Some (p, cs)"
      "bs' = b # cs" by (auto split: if_splits)
    from Cons.IH [OF cs(1)] obtain xs s ys where
      *: "bs = xs @ (s, True) # ys" "unfit n xs" "n \<le> s" "p = end_of (a + hdr + fst b) xs + hdr"
        "cs = xs @ carve n s @ ys" by blast
    have "b # bs = (b # xs) @ (s, True) # ys \<and> unfit n (b # xs) \<and> n \<le> s \<and>
        p = end_of a (b # xs) + hdr \<and> bs' = (b # xs) @ carve n s @ ys"
      using * False cs(2) by (auto simp: unfit_def)
    then show ?thesis by blast
  qed
qed simp

lemma end_of_carve: "n \<le> s \<Longrightarrow> end_of a (carve n s) = a + hdr + s"
  by (auto simp: carve_def)

lemma live_carve:
  "n \<le> s \<Longrightarrow> live a (carve n s) = {(a + hdr, if n + 32 \<le> s then n else s)}"
  by (auto simp: carve_def)

lemma coalesced_carve:
  "coalesced (xs @ (s, True) # ys) \<Longrightarrow> coalesced (xs @ carve n s @ ys)"
  by (auto simp: carve_def coalesced_append coalesced_Cons)

subsection \<open>Release\<close>

lemma mark_free_SomeD:
  "mark_free p a bs = Some bs' \<Longrightarrow>
     \<exists>xs s f ys. bs = xs @ (s, f) # ys \<and> bs' = xs @ (s, True) # ys \<and>
       end_of a xs < p \<and> p < end_of a xs + hdr + s"
proof (induction bs arbitrary: a bs')
  case (Cons b bs)
  show ?case
  proof (cases "a < p \<and> p < a + hdr + fst b")
    case True
    with Cons.prems have "b # bs = [] @ (fst b, snd b) # bs \<and> bs' = [] @ (fst b, True) # bs \<and>
        end_of a [] < p \<and> p < end_of a [] + hdr + fst b"
      by simp
    then show ?thesis by blast
  next
    case False
    with Cons.prems obtain cs where cs: "mark_free p (a + hdr + fst b) bs = Some cs" "bs' = b # cs"
      by (auto split: if_splits)
    from Cons.IH [OF cs(1)] obtain xs s f ys where
      *: "bs = xs @ (s, f) # ys" "cs = xs @ (s, True) # ys" "end_of (a + hdr + fst b) xs < p"
        "p < end_of (a + hdr + fst b) xs + hdr + s" by blast
    then have "b # bs = (b # xs) @ (s, f) # ys \<and> bs' = (b # xs) @ (s, True) # ys \<and>
        end_of a (b # xs) < p \<and> p < end_of a (b # xs) + hdr + s"
      using cs(2) by simp
    then show ?thesis by blast
  qed
qed simp

lemma mark_free_inside:
  "end_of a xs < p \<Longrightarrow> p < end_of a xs + hdr + s \<Longrightarrow>
     mark_free p a (xs @ (s, f) # ys) = Some (xs @ (s, True) # ys)"
proof (induction xs arbitrary: a)
  case (Cons b xs)
  then show ?case using end_of_ge [of "a + hdr + fst b" xs] by simp
qed simp

lemma mark_free_None: "p \<le> a \<or> end_of a bs \<le> p \<Longrightarrow> mark_free p a bs = None"
proof (induction bs arbitrary: a)
  case (Cons b bs)
  then show ?case using end_of_ge [of "a + hdr + fst b" bs] by auto
qed simp

text \<open>Giving back a live block takes exactly that block out of the live ones, and giving it
  back a second time changes nothing.\<close>

lemma live_give_back:
  assumes "(p, s) \<in> live a bs" and "p \<le> q" and "q < p + s"
  shows "\<exists>bs'. give_back q a bs = Some bs' \<and> live a bs' = live a bs - {(p, s)} \<and>
           end_of a bs' = end_of a bs \<and> coalesced bs'"
proof -
  from live_split [OF assms(1)] obtain xs ys where
    bs: "bs = xs @ (s, False) # ys" and p: "p = end_of a xs + hdr" by blast
  have "(p, s) \<notin> live a xs"
    using live_bounds [of p s a xs] p by auto
  moreover have "(p, s) \<notin> live (end_of a xs + hdr + s) ys"
    using live_bounds [of p s "end_of a xs + hdr + s" ys] p assms by auto
  ultimately have "live a (xs @ (s, True) # ys) = live a bs - {(p, s)}"
    by (auto simp: bs p)
  moreover have "give_back q a bs = Some (merge (xs @ (s, True) # ys))"
    using mark_free_inside [of a xs q s False ys] p assms(2,3) by (simp add: give_back_def bs)
  ultimately show ?thesis
    by (simp add: live_merge end_of_merge coalesced_merge bs)
qed

text \<open>Giving back what was just taken restores the layout.\<close>

lemma take_give_back:
  assumes co: "coalesced bs" and take: "take_block n a bs = Some (p, bs')" and "0 < n"
  shows "give_back p a bs' = Some bs"
proof -
  from take_block_SomeD [OF take] obtain xs s ys where
    bs: "bs = xs @ (s, True) # ys" and n: "n \<le> s" and p: "p = end_of a xs + hdr"
    and bs': "bs' = xs @ carve n s @ ys" by blast
  have ys: "merge ys = ys" "join (t, True) ys = (t, True) # ys" for t
    using co by (auto simp: bs coalesced_append coalesced_Cons merge_coalesced intro!: join_coalesced)
  have rest: "foldr join xs ((s, True) # ys) = bs"
    using co foldr_join_coalesced [of xs "(s, True) # ys"] by (simp add: bs)
  have "\<exists>u zs. carve n s = (u, False) # zs \<and> 0 < u \<and> join (u, True) (merge (zs @ ys)) = (s, True) # ys"
    using n \<open>0 < n\<close> by (cases "n + 32 \<le> s") (simp_all add: carve_def ys)
  then obtain u zs where
    c: "carve n s = (u, False) # zs" "0 < u" "join (u, True) (merge (zs @ ys)) = (s, True) # ys"
    by blast
  have "mark_free p a bs' = Some (xs @ (u, True) # zs @ ys)"
    using mark_free_inside [of a xs p u False "zs @ ys"] c p by (simp add: bs')
  with c(3) rest show ?thesis by (simp add: give_back_def merge_append)
qed

end
