(* ===== verification/Heap.thy ===== *)
theory Heap
  imports Allocator_Spec Heap_Spec
begin

text \<open>
  The kernel heap, \<open>kernel/memory/heap.c\<close>: first-fit allocation with block splitting and
  coalescing free on block headers that live in the byte memory itself. The operations
  below read and write the three fields of a header (\<open>magic\<close> at offset 0, \<open>is_free\<close>
  at 4, \<open>next\<close> at 8, 16 bytes in all) as the C code does. The chain of
  \<open>HeapRegion\<close> objects is kept as a list, \<open>first_heap_region\<close> being its head and the empty
  list the null pointer; the block that holds a region object of an expanded heap is
  allocated all the same.

  A loop over headers that does not end, or a null dereference, is \<open>None\<close>. The page
  allocator is a parameter of the functions that reach it: \<open>None\<close> when
  \<open>memory_regions\<close> is null, and otherwise a function of the size in KB and the heap,
  which it may use itself.
\<close>

section \<open>Regions and headers\<close>

record HeapRegion =
  region_base :: nat
  region_size :: nat

record heap_state =
  heap_mem :: mem
  heap_regions :: "HeapRegion list"

type_synonym page_allocator = "nat \<Rightarrow> heap_state \<Rightarrow> nat \<times> heap_state"

definition HEAP_MAGIC :: nat where "HEAP_MAGIC = 0xDEADBEEF"

definition sizeof_HeapNode :: nat where "sizeof_HeapNode = 16"

definition sizeof_HeapRegion :: nat where "sizeof_HeapRegion = 24"

definition HEAP_NODE_MIN_SIZE :: nat where "HEAP_NODE_MIN_SIZE = 8 * 2"

definition node_magic :: "mem \<Rightarrow> nat \<Rightarrow> nat" where "node_magic m a = load_le 4 m a"

definition node_is_free :: "mem \<Rightarrow> nat \<Rightarrow> bool" where "node_is_free m a \<longleftrightarrow> m (a + 4) \<noteq> 0"

definition node_next :: "mem \<Rightarrow> nat \<Rightarrow> nat" where "node_next m a = load_le 8 m (a + 8)"

definition set_magic :: "mem \<Rightarrow> nat \<Rightarrow> nat \<Rightarrow> mem" where "set_magic m a v = store_le 4 m a v"

definition set_is_free :: "mem \<Rightarrow> nat \<Rightarrow> bool \<Rightarrow> mem" where
  "set_is_free m a b = m(a + 4 := (if b then 1 else 0))"

definition set_next :: "mem \<Rightarrow> nat \<Rightarrow> nat \<Rightarrow> mem" where "set_next m a v = store_le 8 m (a + 8) v"

definition NODE_SIZE :: "mem \<Rightarrow> nat \<Rightarrow> nat" where
  "NODE_SIZE m a =
     (if node_next m a \<noteq> 0 then sub64 (sub64 (node_next m a) a) sizeof_HeapNode else 0)"

section \<open>Operations on one region\<close>

definition initRegion :: "HeapRegion \<Rightarrow> mem \<Rightarrow> mem" where
  "initRegion r m =
     (if region_base r = 0 \<or> region_size r = 0 then m
      else if region_size r < 2 * sizeof_HeapNode then m
      else
        let initial_node = region_base r;
            end_node = sub64 (add64 (region_base r) (region_size r)) sizeof_HeapNode;
            m = set_magic m initial_node HEAP_MAGIC;
            m = set_is_free m initial_node True;
            m = set_next m initial_node end_node;
            m = set_magic m end_node 0;
            m = set_next m end_node 0;
            m = set_is_free m end_node False
        in m)"

partial_function (option) alloc_loop :: "mem \<Rightarrow> nat \<Rightarrow> nat \<Rightarrow> (nat \<times> mem) option" where
  "alloc_loop m node sz =
     (if node \<noteq> 0 \<and> node_magic m node = HEAP_MAGIC then
        if node_is_free m node \<and> sz \<le> NODE_SIZE m node then
          let remaining_size = NODE_SIZE m node - sz in
          if HEAP_NODE_MIN_SIZE + sizeof_HeapNode \<le> remaining_size then
            let new_node = node + sz + sizeof_HeapNode;
                m = set_magic m new_node HEAP_MAGIC;
                m = set_is_free m new_node True;
                m = set_next m new_node (node_next m node);
                m = set_is_free m node False;
                m = set_next m node new_node
            in Some (node + sizeof_HeapNode, m)
          else Some (node + sizeof_HeapNode, set_is_free m node False)
        else alloc_loop m (node_next m node) sz
      else Some (0, m))"

declare alloc_loop.simps [code]

definition alloc_region :: "HeapRegion \<Rightarrow> nat \<Rightarrow> mem \<Rightarrow> (nat \<times> mem) option" where
  "alloc_region r sz m = alloc_loop m (region_base r) sz"

partial_function (option) free_loop :: "mem \<Rightarrow> nat \<Rightarrow> nat \<Rightarrow> nat \<Rightarrow> (bool \<times> mem) option" where
  "free_loop m prev node p =
     (if node \<noteq> 0 \<and> node_magic m node = HEAP_MAGIC then
        if node < p \<and> p < node_next m node then
          let m = set_is_free m node True;
              m = (if node_next m node \<noteq> 0 \<and> node_is_free m (node_next m node)
                   then set_next m node (node_next m (node_next m node)) else m);
              m = (if prev \<noteq> 0 \<and> node_is_free m prev
                   then set_magic (set_is_free (set_next m prev (node_next m node)) prev True)
                          prev HEAP_MAGIC
                   else m)
          in Some (True, m)
        else free_loop m node (node_next m node) p
      else Some (False, m))"

declare free_loop.simps [code]

definition free_region :: "HeapRegion \<Rightarrow> nat \<Rightarrow> mem \<Rightarrow> (bool \<times> mem) option" where
  "free_region r p m = (if p = 0 then Some (False, m) else free_loop m 0 (region_base r) p)"

section \<open>The heap\<close>

text \<open>\<open>local_heap\<close> stands for \<open>localHeapRegion\<close>, whose bounds the linker provides.\<close>

definition heap_init :: "HeapRegion \<Rightarrow> heap_state \<Rightarrow> heap_state" where
  "heap_init local_heap h =
     h\<lparr>heap_regions := [local_heap], heap_mem := initRegion local_heap (heap_mem h)\<rparr>"

definition heap_ready :: "HeapRegion \<Rightarrow> heap_state \<Rightarrow> heap_state" where
  "heap_ready local_heap h = (if heap_regions h = [] then heap_init local_heap h else h)"

fun alloc_regions :: "HeapRegion list \<Rightarrow> nat \<Rightarrow> mem \<Rightarrow> (nat \<times> mem) option" where
  "alloc_regions [] n m = Some (0, m)"
| "alloc_regions (r # rs) n m = do {
     (p, m') \<leftarrow> alloc_region r n m;
     if p \<noteq> 0 then Some (p, m') else alloc_regions rs n m'
   }"

definition expansion_size :: "nat \<Rightarrow> nat" where
  "expansion_size n = add64 (add64 n (4096 - n mod 4096)) 0x1000"

definition heap_expand :: "page_allocator \<Rightarrow> nat \<Rightarrow> heap_state \<Rightarrow> (nat \<times> heap_state) option" where
  "heap_expand pmm_alloc n h =
     (let regionSize = expansion_size n;
          (newRegionPtr, h) = pmm_alloc (regionSize div 1024) h
      in if newRegionPtr = 0 then Some (0, h)
         else do {
           let newRegion = \<lparr>region_base = newRegionPtr, region_size = regionSize\<rparr>;
           let m = initRegion newRegion (heap_mem h);
           (region, m) \<leftarrow> alloc_region newRegion sizeof_HeapRegion m;
           if region = 0 \<or> heap_regions h = [] then None
           else do {
             (ret, m) \<leftarrow> alloc_region newRegion n m;
             Some (ret, h\<lparr>heap_mem := m, heap_regions := heap_regions h @ [newRegion]\<rparr>)
           }
         })"

definition heap_alloc ::
  "HeapRegion \<Rightarrow> page_allocator option \<Rightarrow> nat \<Rightarrow> heap_state \<Rightarrow> (nat \<times> heap_state) option" where
  "heap_alloc local_heap pmm n h =
     (if n = 0 then Some (0, h)
      else do {
        let h = heap_ready local_heap h;
        (p, m) \<leftarrow> alloc_regions (heap_regions h) n (heap_mem h);
        let h = h\<lparr>heap_mem := m\<rparr>;
        if p \<noteq> 0 then Some (p, h)
        else (case pmm of None \<Rightarrow> Some (0, h) | Some pmm_alloc \<Rightarrow> heap_expand pmm_alloc n h)
      })"

fun free_regions :: "HeapRegion list \<Rightarrow> nat \<Rightarrow> mem \<Rightarrow> mem option" where
  "free_regions [] p m = Some m"
| "free_regions (r # rs) p m = do {
     (ok, m') \<leftarrow> free_region r p m;
     if ok then Some m' else free_regions rs p m'
   }"

definition heap_free :: "HeapRegion \<Rightarrow> nat \<Rightarrow> heap_state \<Rightarrow> heap_state option" where
  "heap_free local_heap p h =
     (if p = 0 then Some h
      else do {
        let h = heap_ready local_heap h;
        m \<leftarrow> free_regions (heap_regions h) p (heap_mem h);
        Some (h\<lparr>heap_mem := m\<rparr>)
      })"

definition heap_realloc ::
  "HeapRegion \<Rightarrow> page_allocator option \<Rightarrow> bool \<Rightarrow> nat \<Rightarrow> nat \<Rightarrow> heap_state \<Rightarrow>
     (nat \<times> heap_state) option" where
  "heap_realloc local_heap pmm erms p new_size h =
     (if new_size = 0 then do { h \<leftarrow> heap_free local_heap p h; Some (0, h) }
      else if p = 0 then heap_alloc local_heap pmm new_size h
      else
        let node = sub64 p sizeof_HeapNode in
        if node_magic (heap_mem h) node \<noteq> HEAP_MAGIC then Some (0, h)
        else
          let old_size = NODE_SIZE (heap_mem h) node in
          if new_size \<le> old_size then Some (p, h)
          else do {
            (new_ptr, h) \<leftarrow> heap_alloc local_heap pmm new_size h;
            if new_ptr \<noteq> 0 then do {
              let h = h\<lparr>heap_mem := memcpy erms new_ptr p old_size (heap_mem h)\<rparr>;
              h \<leftarrow> heap_free local_heap p h;
              Some (new_ptr, h)
            } else Some (new_ptr, h)
          })"

definition heap_calloc ::
  "HeapRegion \<Rightarrow> page_allocator option \<Rightarrow> nat \<Rightarrow> nat \<Rightarrow> heap_state \<Rightarrow>
     (nat \<times> heap_state) option" where
  "heap_calloc local_heap pmm count sz h =
     (if count = 0 \<or> sz = 0 then Some (0, h)
      else do {
        (p, h) \<leftarrow> heap_alloc local_heap pmm (mul64 count sz) h;
        if p \<noteq> 0 then Some (p, h\<lparr>heap_mem := memset p 0 (mul64 count sz) (heap_mem h)\<rparr>)
        else Some (p, h)
      })"

definition heap_aligned_alloc ::
  "HeapRegion \<Rightarrow> page_allocator option \<Rightarrow> nat \<Rightarrow> nat \<Rightarrow> heap_state \<Rightarrow>
     (nat \<times> heap_state) option" where
  "heap_aligned_alloc local_heap pmm alignment sz h =
     (if alignment = 0 \<or> sz = 0 \<or> alignment AND (alignment - 1) \<noteq> 0 then Some (0, h)
      else do {
        (p, h) \<leftarrow> heap_alloc local_heap pmm
                    (add64 (add64 sz (alignment - 1)) sizeof_HeapNode) h;
        if p = 0 then Some (0, h)
        else do {
          let aligned_ptr = align_up64 (add64 p sizeof_HeapNode) alignment;
          let node = sub64 aligned_ptr sizeof_HeapNode;
          let m = set_magic (heap_mem h) node HEAP_MAGIC;
          let m = set_is_free m node False;
          let m = set_next m node 0;
          Some (aligned_ptr, h\<lparr>heap_mem := m\<rparr>)
        }
      })"

definition heap_register_region :: "HeapRegion option \<Rightarrow> heap_state \<Rightarrow> heap_state option" where
  "heap_register_region region h =
     (case region of None \<Rightarrow> Some h
      | Some r \<Rightarrow>
          if region_base r = 0 \<or> region_size r = 0 then Some h
          else if region_size r < 2 * sizeof_HeapNode then Some h
          else
            let m = initRegion r (heap_mem h) in
            (case heap_regions h of [] \<Rightarrow> None
             | first # _ \<Rightarrow> Some (h\<lparr>heap_mem := m, heap_regions := [first, r]\<rparr>)))"

text \<open>The names of \<open>memory/memory.c\<close>, by which the rest of the kernel calls these.\<close>

definition malloc ::
  "HeapRegion \<Rightarrow> page_allocator option \<Rightarrow> nat \<Rightarrow> heap_state \<Rightarrow> (nat \<times> heap_state) option" where
  "malloc local_heap pmm sz h = heap_alloc local_heap pmm sz h"

definition kfree :: "HeapRegion \<Rightarrow> nat \<Rightarrow> heap_state \<Rightarrow> heap_state option" where
  "kfree local_heap p h = heap_free local_heap p h"

definition realloc ::
  "HeapRegion \<Rightarrow> page_allocator option \<Rightarrow> bool \<Rightarrow> nat \<Rightarrow> nat \<Rightarrow> heap_state \<Rightarrow>
     (nat \<times> heap_state) option" where
  "realloc local_heap pmm erms p sz h = heap_realloc local_heap pmm erms p sz h"

definition calloc ::
  "HeapRegion \<Rightarrow> page_allocator option \<Rightarrow> nat \<Rightarrow> nat \<Rightarrow> heap_state \<Rightarrow>
     (nat \<times> heap_state) option" where
  "calloc local_heap pmm count sz h = heap_calloc local_heap pmm count sz h"

definition malloc_aligned ::
  "HeapRegion \<Rightarrow> page_allocator option \<Rightarrow> nat \<Rightarrow> nat \<Rightarrow> heap_state \<Rightarrow>
     (nat \<times> heap_state) option" where
  "malloc_aligned local_heap pmm alignment sz h = heap_aligned_alloc local_heap pmm alignment sz h"

section \<open>The layout a region's memory holds\<close>

primrec seg :: "mem \<Rightarrow> nat \<Rightarrow> block list \<Rightarrow> bool" where
  "seg m a [] \<longleftrightarrow> True"
| "seg m a (b # bs) \<longleftrightarrow>
     node_magic m a = HEAP_MAGIC \<and> node_is_free m a = snd b \<and>
     node_next m a = a + hdr + fst b \<and> seg m (a + hdr + fst b) bs"

definition end_node :: "mem \<Rightarrow> nat \<Rightarrow> bool" where
  "end_node m e \<longleftrightarrow> node_magic m e = 0 \<and> \<not> node_is_free m e \<and> node_next m e = 0"

definition region_rep :: "mem \<Rightarrow> HeapRegion \<Rightarrow> block list \<Rightarrow> bool" where
  "region_rep m r bs \<longleftrightarrow>
     0 < region_base r \<and> region_base r + region_size r \<le> 2 ^ 64 \<and>
     end_of (region_base r) bs + hdr = region_base r + region_size r \<and>
     seg m (region_base r) bs \<and> end_node m (end_of (region_base r) bs) \<and>
     coalesced bs \<and> (\<forall>(p, s) \<in> live (region_base r) bs. 0 < s)"

text \<open>The whole heap: one layout per region, no two regions overlapping.\<close>

definition apart :: "HeapRegion \<Rightarrow> HeapRegion \<Rightarrow> bool" where
  "apart r r' \<longleftrightarrow> region_base r + region_size r \<le> region_base r' \<or>
               region_base r' + region_size r' \<le> region_base r"

definition mem_rep :: "mem \<Rightarrow> HeapRegion list \<Rightarrow> block list list \<Rightarrow> bool" where
  "mem_rep m rs lay \<longleftrightarrow> list_all2 (region_rep m) rs lay \<and> sorted_wrt apart rs"

definition live_all :: "HeapRegion list \<Rightarrow> block list list \<Rightarrow> (nat \<times> nat) set" where
  "live_all rs lay = (\<Union>(r, bs) \<in> set (zip rs lay). live (region_base r) bs)"

definition heap_rep :: "heap_state \<Rightarrow> block list list \<Rightarrow> bool" where
  "heap_rep h lay \<longleftrightarrow> mem_rep (heap_mem h) (heap_regions h) lay \<and> heap_regions h \<noteq> []"

definition heap_live :: "heap_state \<Rightarrow> block list list \<Rightarrow> (nat \<times> nat) set" where
  "heap_live h lay = live_all (heap_regions h) lay"

text \<open>What the heap relies on when it takes pages: the page allocator, which allocates from
  the heap itself, keeps the heap intact and returns null or memory outside every region.\<close>

definition page_contract :: "page_allocator \<Rightarrow> bool" where
  "page_contract pmm_alloc \<longleftrightarrow>
     (\<forall>k h lay p h'. heap_rep h lay \<longrightarrow> pmm_alloc k h = (p, h') \<longrightarrow>
        (\<exists>lay'. heap_rep h' lay' \<and> heap_live h lay \<subseteq> heap_live h' lay' \<and>
           keeps (heap_live h lay) (heap_mem h) (heap_mem h')) \<and>
        (p \<noteq> 0 \<longrightarrow> p + 1024 * k \<le> 2 ^ 64 \<and>
           (\<forall>r \<in> set (heap_regions h'). apart \<lparr>region_base = p, region_size = 1024 * k\<rparr> r)))"

definition pages_ok :: "page_allocator option \<Rightarrow> nat \<Rightarrow> bool" where
  "pages_ok pmm n \<longleftrightarrow>
     (case pmm of None \<Rightarrow> True | Some pmm_alloc \<Rightarrow> page_contract pmm_alloc \<and> n + 8192 < 2 ^ 64)"

section \<open>Header fields\<close>

text \<open>A write to one field of a header is seen by no other field and by no other header.\<close>

lemmas node_defs = node_magic_def node_is_free_def node_next_def set_magic_def set_is_free_def
  set_next_def

lemma set_frame:
  "c < a \<or> a + hdr \<le> c \<Longrightarrow> set_magic m a v c = m c"
  "c < a \<or> a + hdr \<le> c \<Longrightarrow> set_is_free m a b c = m c"
  "c < a \<or> a + hdr \<le> c \<Longrightarrow> set_next m a v c = m c"
  by (auto simp: node_defs store_le_other)

lemma node_cong:
  assumes "\<And>c. a \<le> c \<Longrightarrow> c < a + hdr \<Longrightarrow> m c = m' c"
  shows "node_magic m a = node_magic m' a" "node_is_free m a = node_is_free m' a"
    "node_next m a = node_next m' a"
  using assms by (auto simp: node_defs intro!: load_le_cong)

lemma node_same [mem_simps]:
  "v < 2 ^ 32 \<Longrightarrow> node_magic (set_magic m a v) a = v"
  "node_is_free (set_is_free m a b) a = b"
  "w < 2 ^ 64 \<Longrightarrow> node_next (set_next m a w) a = w"
  "node_magic (set_is_free m a b) a = node_magic m a"
  "node_magic (set_next m a w) a = node_magic m a"
  "node_is_free (set_magic m a v) a = node_is_free m a"
  "node_is_free (set_next m a w) a = node_is_free m a"
  "node_next (set_magic m a v) a = node_next m a"
  "node_next (set_is_free m a b) a = node_next m a"
  by (auto simp: node_defs load_store_le store_le_other load_store_le_other intro!: load_le_cong)

lemma node_other [mem_simps]:
  assumes "a + hdr \<le> b \<or> b + hdr \<le> a"
  shows "node_magic (set_magic m a v) b = node_magic m b"
    "node_magic (set_is_free m a f) b = node_magic m b"
    "node_magic (set_next m a v) b = node_magic m b"
    "node_is_free (set_magic m a v) b = node_is_free m b"
    "node_is_free (set_is_free m a f) b = node_is_free m b"
    "node_is_free (set_next m a v) b = node_is_free m b"
    "node_next (set_magic m a v) b = node_next m b"
    "node_next (set_is_free m a f) b = node_next m b"
    "node_next (set_next m a v) b = node_next m b"
  using assms by (auto intro!: node_cong set_frame)

lemma HEAP_MAGIC_bounds [simp]: "HEAP_MAGIC < 4294967296" "HEAP_MAGIC \<noteq> 0"
  by (simp_all add: HEAP_MAGIC_def)

lemma NODE_SIZE_next:
  assumes "node_next m a = a + hdr + s" and "a + hdr + s < 2 ^ 64"
  shows "NODE_SIZE m a = s"
proof -
  have "sub64 (a + hdr + s) a = hdr + s" "sub64 (hdr + s) hdr = s"
    using assms(2) by (subst sub64_le; simp)+
  with assms(1) show ?thesis
    by (simp add: NODE_SIZE_def sizeof_HeapNode_def)
qed

section \<open>Segments of the chain\<close>

lemma seg_append [simp]: "seg m a (xs @ ys) \<longleftrightarrow> seg m a xs \<and> seg m (end_of a xs) ys"
  by (induction xs arbitrary: a) auto

lemma seg_cong:
  "(\<And>c. c \<in> headers a bs \<Longrightarrow> m c = m' c) \<Longrightarrow> seg m a bs = seg m' a bs"
proof (induction bs arbitrary: a)
  case (Cons b bs)
  have "node_magic m a = node_magic m' a" "node_is_free m a = node_is_free m' a"
    "node_next m a = node_next m' a"
    using Cons.prems by (intro node_cong; simp)+
  moreover have "seg m (a + hdr + fst b) bs = seg m' (a + hdr + fst b) bs"
    using Cons by auto
  ultimately show ?case by simp
qed simp

lemma end_node_cong:
  "(\<And>c. e \<le> c \<Longrightarrow> c < e + hdr \<Longrightarrow> m c = m' c) \<Longrightarrow> end_node m e = end_node m' e"
  unfolding end_node_def using node_cong [of e m m'] by metis

text \<open>A memory that agrees outside the range of some blocks holds the same segments before
  and after it.\<close>

lemma seg_before:
  assumes "\<And>c. c < end_of a xs \<Longrightarrow> m c = m' c"
  shows "seg m a xs = seg m' a xs"
  using assms headers_bounds by (intro seg_cong) blast

lemma seg_after:
  assumes "\<And>c. a \<le> c \<Longrightarrow> m c = m' c"
  shows "seg m a xs = seg m' a xs"
  using assms headers_bounds by (intro seg_cong) blast

lemma region_rep_cong:
  assumes "\<And>c. c \<in> headers (region_base r) bs \<Longrightarrow> m c = m' c"
    and "\<And>c. end_of (region_base r) bs \<le> c \<Longrightarrow> c < end_of (region_base r) bs + hdr \<Longrightarrow> m c = m' c"
  shows "region_rep m r bs = region_rep m' r bs"
  using seg_cong [of "region_base r" bs m m'] end_node_cong [of "end_of (region_base r) bs" m m'] assms
  by (simp add: region_rep_def)

section \<open>Allocation in a region\<close>

lemmas heap_sizes = sizeof_HeapNode_def sizeof_HeapRegion_def HEAP_NODE_MIN_SIZE_def

lemma alloc_loop_skip:
  assumes "seg m a xs" and "unfit n xs" and "0 < a" and "end_of a xs < 2 ^ 64"
  shows "alloc_loop m a n = alloc_loop m (end_of a xs) n"
  using assms
proof (induction xs arbitrary: a)
  case (Cons b xs)
  have "NODE_SIZE m a = fst b"
    using Cons.prems end_of_ge [of "a + hdr + fst b" xs] by (intro NODE_SIZE_next) auto
  with Cons.prems have "alloc_loop m a n = alloc_loop m (a + hdr + fst b) n"
    by (subst alloc_loop.simps) (auto simp: unfit_def)
  also have "\<dots> = alloc_loop m (end_of a (b # xs)) n"
    using Cons by (auto simp: unfit_def)
  finally show ?case .
qed simp

lemma alloc_loop_end: "end_node m e \<Longrightarrow> alloc_loop m e n = Some (0, m)"
  by (subst alloc_loop.simps) (auto simp: end_node_def)

lemma alloc_loop_hit:
  assumes "seg m a ((s, True) # ys)" and "n \<le> s" and "0 < a" and "a + hdr + s < 2 ^ 64"
  shows "\<exists>m'. alloc_loop m a n = Some (a + hdr, m') \<and> seg m' a (carve n s) \<and>
           (\<forall>c. c < a \<or> a + hdr + s \<le> c \<longrightarrow> m' c = m c)"
proof -
  have size: "NODE_SIZE m a = s"
    using assms by (intro NODE_SIZE_next) auto
  show ?thesis
  proof (cases "n + 32 \<le> s")
    case True
    define b where "b = a + hdr + n"
    define m1 where "m1 = set_is_free (set_magic m b HEAP_MAGIC) b True"
    define m2 where "m2 = set_is_free (set_next m1 b (node_next m1 a)) a False"
    define m' where "m' = set_next m2 a b"
    have b: "a + hdr \<le> b" "b < 2 ^ 64" "b + hdr \<le> a + hdr + s"
      using True assms(4) by (simp_all add: b_def)
    have room: "32 \<le> s - n" using True by simp
    have "alloc_loop m a n = Some (a + hdr, m')"
      using assms room size
      by (subst alloc_loop.simps) (simp add: Let_def heap_sizes b_def m1_def m2_def m'_def ac_simps)
    moreover have "node_next m1 a = a + hdr + s"
      using b assms by (simp add: m1_def mem_simps)
    then have "seg m' a (carve n s)"
      using b assms True
      by (simp add: m'_def m2_def m1_def mem_simps carve_def flip: b_def) (simp add: b_def)
    moreover have "m' c = m c" if "c < a \<or> a + hdr + s \<le> c" for c
      using that b by (auto simp: m'_def m2_def m1_def set_frame)
    ultimately show ?thesis by blast
  next
    case False
    then have room: "\<not> 32 \<le> s - n" using assms(2) by simp
    have "alloc_loop m a n = Some (a + hdr, set_is_free m a False)"
      using assms room size by (subst alloc_loop.simps) (simp add: Let_def heap_sizes)
    moreover have "seg (set_is_free m a False) a (carve n s)"
      using assms False by (simp add: carve_def mem_simps)
    moreover have "set_is_free m a False c = m c" if "c < a \<or> a + hdr + s \<le> c" for c
      using that by (auto intro: set_frame)
    ultimately show ?thesis by blast
  qed
qed

text \<open>\<open>alloc_region\<close> implements \<open>take_block\<close>, and what it changes in memory lies in
  the free block it takes.\<close>

lemma alloc_region_None:
  assumes "region_rep m r bs" and "take_block n (region_base r) bs = None"
  shows "alloc_region r n m = Some (0, m)"
  using assms alloc_loop_skip [of m "region_base r" bs n] alloc_loop_end
  by (simp add: alloc_region_def region_rep_def take_block_None)

lemma alloc_region_Some:
  assumes rep: "region_rep m r bs" and take: "take_block n (region_base r) bs = Some (p, bs')"
    and "0 < n"
  shows "\<exists>m' s. alloc_region r n m = Some (p, m') \<and> region_rep m' r bs' \<and> n \<le> s \<and>
           live (region_base r) bs' = insert (p, s) (live (region_base r) bs) \<and>
           p \<notin> fst ` live (region_base r) bs \<and>
           (\<forall>c. m' c \<noteq> m c \<longrightarrow> region_base r \<le> c \<and> c < end_of (region_base r) bs \<and>
              (\<forall>(q, t) \<in> live (region_base r) bs. c < q \<or> q + t \<le> c))"
proof -
  let ?a = "region_base r"
  from take_block_SomeD [OF take] obtain xs s ys where
    bs: "bs = xs @ (s, True) # ys" and unfit: "unfit n xs" and n: "n \<le> s"
    and p: "p = end_of ?a xs + hdr" and bs': "bs' = xs @ carve n s @ ys" by blast
  define h where "h = end_of ?a xs"
  have a: "0 < ?a" "?a \<le> h" using rep end_of_ge [of ?a xs] by (simp_all add: region_rep_def h_def)
  have e: "h + hdr + s \<le> end_of ?a bs" "end_of ?a bs + hdr \<le> 2 ^ 64"
    using rep end_of_ge [of "h + hdr + s" ys] by (simp_all add: region_rep_def bs h_def)
  have seg: "seg m ?a xs" "seg m h ((s, True) # ys)"
    using rep by (simp_all add: region_rep_def bs h_def)
  have "0 < h" "h + hdr + s < 2 ^ 64" using a e by simp_all
  from alloc_loop_hit [OF seg(2) n this] obtain m' where
    m': "alloc_loop m h n = Some (h + hdr, m')" "seg m' h (carve n s)"
    and frame: "\<And>c. c < h \<or> h + hdr + s \<le> c \<Longrightarrow> m' c = m c" by blast
  have "alloc_region r n m = Some (p, m')"
    using alloc_loop_skip [OF seg(1) unfit a(1)] a e m'(1) by (simp add: alloc_region_def h_def p)
  moreover have "region_rep m' r bs'"
  proof -
    have "seg m' ?a xs" using seg(1) seg_before [of ?a xs m m'] frame by (simp add: h_def)
    moreover have "seg m' (h + hdr + s) ys"
      using seg(2) seg_after [of "h + hdr + s" m m' ys] frame by simp
    moreover have "end_node m' (end_of ?a bs)"
      using rep end_node_cong [of "end_of ?a bs" m m'] frame e by (simp add: region_rep_def)
    ultimately show ?thesis
      using rep m'(2) n coalesced_carve [of xs s ys n] \<open>0 < n\<close>
      by (auto simp: region_rep_def bs bs' end_of_carve live_carve simp flip: h_def split: if_splits)
  qed
  moreover have "live ?a bs' = insert (p, if n + 32 \<le> s then n else s) (live ?a bs)"
    using n by (auto simp: bs bs' end_of_carve live_carve p simp flip: h_def)
  moreover have out: "q + t \<le> h \<or> h + hdr + s + hdr \<le> q" if "(q, t) \<in> live ?a bs" for q t
    using that live_bounds [of q t ?a xs] live_bounds [of q t "h + hdr + s" ys]
    by (auto simp: bs h_def)
  moreover have "p \<notin> fst ` live ?a bs"
    using out p n \<open>0 < n\<close> by (fastforce simp flip: h_def)
  moreover have "?a \<le> c \<and> c < end_of ?a bs \<and> (\<forall>(q, t) \<in> live ?a bs. c < q \<or> q + t \<le> c)"
    if "m' c \<noteq> m c" for c
  proof -
    from that frame have "h \<le> c \<and> c < h + hdr + s" by (meson leI)
    with out a e show ?thesis by fastforce
  qed
  ultimately show ?thesis
    using n by (intro exI [of _ m'] exI [of _ "if n + 32 \<le> s then n else s"]) auto
qed

section \<open>Release in a region\<close>

lemma free_loop_skip:
  assumes "seg m a xs" and "0 < a" and "mark_free p a xs = None"
  shows "free_loop m prev a p =
           free_loop m (if xs = [] then prev else end_of a (butlast xs)) (end_of a xs) p"
  using assms
proof (induction xs arbitrary: a prev)
  case (Cons b xs)
  have "free_loop m prev a p = free_loop m a (a + hdr + fst b) p"
    using Cons.prems by (subst free_loop.simps) (auto split: if_splits)
  also have "\<dots> = free_loop m (if xs = [] then a else end_of (a + hdr + fst b) (butlast xs))
      (end_of a (b # xs)) p"
    using Cons.prems by (subst Cons.IH) (auto split: if_splits)
  finally show ?case by simp
qed simp

lemma free_loop_end: "end_node m e \<Longrightarrow> free_loop m prev e p = Some (False, m)"
  by (subst free_loop.simps) (auto simp: end_node_def)

text \<open>The two steps of the release: the marked block takes in a free right neighbour, then a
  free left neighbour takes in the result.\<close>

definition free_mark :: "mem \<Rightarrow> nat \<Rightarrow> mem" where
  "free_mark m node =
     (let m = set_is_free m node True
      in if node_next m node \<noteq> 0 \<and> node_is_free m (node_next m node)
         then set_next m node (node_next m (node_next m node)) else m)"

definition free_join_prev :: "mem \<Rightarrow> nat \<Rightarrow> nat \<Rightarrow> mem" where
  "free_join_prev m prev node =
     (if prev \<noteq> 0 \<and> node_is_free m prev
      then set_magic (set_is_free (set_next m prev (node_next m node)) prev True) prev HEAP_MAGIC
      else m)"

lemma free_loop_hit:
  assumes "node \<noteq> 0" and "node_magic m node = HEAP_MAGIC" and "node < p" and "p < node_next m node"
  shows "free_loop m prev node p = Some (True, free_join_prev (free_mark m node) prev node)"
  using assms by (subst free_loop.simps) (simp add: Let_def free_mark_def free_join_prev_def)

lemma free_mark_frame: "c < a \<or> a + hdr \<le> c \<Longrightarrow> free_mark m a c = m c"
  by (auto simp: free_mark_def Let_def set_frame)

lemma free_mark_seg:
  assumes "seg m a ((s, f) # ys)" and "end_node m (end_of (a + hdr + s) ys)"
    and "0 < a" and "end_of (a + hdr + s) ys < 2 ^ 64"
  shows "seg (free_mark m a) a (join (s, True) ys)"
proof (cases ys)
  case Nil
  with assms show ?thesis by (simp add: free_mark_def Let_def mem_simps end_node_def)
next
  case (Cons b zs)
  have "a + hdr + s + hdr + fst b < 2 ^ 64"
    using assms(4) end_of_ge [of "a + hdr + s + hdr + fst b" zs] Cons by simp
  moreover have "seg (free_mark m a) (a + hdr + s) ys"
    using assms(1) seg_after [of "a + hdr + s" m "free_mark m a" ys]
    by (simp add: free_mark_frame)
  ultimately show ?thesis
    using assms Cons by (cases "snd b") (simp_all add: free_mark_def Let_def mem_simps ac_simps)
qed

lemma free_join_prev_frame: "c < b \<or> b + hdr \<le> c \<Longrightarrow> free_join_prev m b a c = m c"
  by (auto simp: free_join_prev_def set_frame)

lemma free_join_prev_seg:
  assumes "seg m b (x # y # zs)" and "snd y" and "0 < b"
    and "b + hdr + fst x + hdr + fst y < 2 ^ 64"
  shows "seg (free_join_prev m b (b + hdr + fst x)) b (join x (y # zs))"
proof -
  let ?m = "free_join_prev m b (b + hdr + fst x)"
  have "seg ?m (b + hdr + fst x) (y # zs)"
    using assms(1) seg_after [of "b + hdr + fst x" m ?m "y # zs"]
    by (simp add: free_join_prev_frame)
  then show ?thesis
    using assms by (cases "snd x") (simp_all add: free_join_prev_def mem_simps ac_simps)
qed

text \<open>\<open>free_region\<close> implements \<open>give_back\<close>, and it only writes to block headers.\<close>

lemma free_region_None:
  assumes "region_rep m r bs" and "give_back p (region_base r) bs = None"
  shows "free_region r p m = Some (False, m)"
  using assms free_loop_skip [of m "region_base r" bs p 0] free_loop_end
  by (simp add: free_region_def give_back_def region_rep_def)

lemma free_loop_first:
  assumes "seg m a ((s, f) # ys)" and "end_node m (end_of (a + hdr + s) ys)" and "0 < a"
    and "end_of (a + hdr + s) ys < 2 ^ 64" and "a < p" and "p < a + hdr + s"
    and "coalesced ((s, f) # ys)"
  shows "\<exists>m'. free_loop m 0 a p = Some (True, m') \<and> seg m' a (merge ((s, True) # ys)) \<and>
           (\<forall>c. c < a \<or> a + hdr \<le> c \<longrightarrow> m' c = m c)"
proof -
  have "free_loop m 0 a p = Some (True, free_mark m a)"
    using assms free_loop_hit [of a m p 0] by (simp add: free_join_prev_def)
  with free_mark_seg [OF assms(1-4)] free_mark_frame merge_marked_first [OF assms(7)]
  show ?thesis by auto
qed

lemma free_loop_later:
  assumes bs: "bs = xs @ [b] @ (s, f) # ys" and "seg m a bs" and "end_node m (end_of a bs)"
    and "0 < a" and "end_of a bs < 2 ^ 64" and "coalesced bs"
    and h: "h = end_of a (xs @ [b])" and "h < p" and "p < h + hdr + s"
  shows "\<exists>m'. free_loop m 0 a p = Some (True, m') \<and> seg m' a (merge (xs @ [b] @ (s, True) # ys)) \<and>
           (\<forall>c. c \<notin> headers a bs \<longrightarrow> m' c = m c)"
proof -
  define g where "g = end_of a xs"
  have hg: "h = g + hdr + fst b" by (simp add: h g_def)
  have g: "0 < g" using end_of_ge [of a xs] assms(4) by (simp add: g_def)
  have e: "end_of (h + hdr + s) ys = end_of a bs" by (simp add: h bs)
  define m1 where "m1 = free_mark m h"
  define m' where "m' = free_join_prev m1 g h"
  have node: "seg m a xs" "seg m g [b]" "seg m h ((s, f) # ys)"
    using assms(2) by (simp_all add: g_def hg bs)
  obtain y zs where y: "join (s, True) ys = y # zs" "snd y"
    using join_not_Nil [of "(s, True)" ys] hd_join [of "(s, True)" ys]
    by (cases "join (s, True) ys") auto
  have bound: "h + hdr + fst y < 2 ^ 64"
    using y(1) end_of_join [of h "(s, True)" ys] end_of_ge [of "h + hdr + fst y" zs] e assms(5)
    by simp
  have "free_loop m 0 a p = free_loop m g h p"
    using free_loop_skip [of m a "xs @ [b]" p 0] mark_free_None [of p a "xs @ [b]"] assms(4,8,9) node
    by (simp add: g_def h)
  moreover have "free_loop m g h p = Some (True, m')"
    using free_loop_hit [of h m p g] node(3) g assms(8,9) by (simp add: m'_def m1_def hg)
  moreover have "seg m1 h (y # zs)"
    using free_mark_seg [OF node(3)] e assms(3,5) g y by (simp add: m1_def hg)
  then have "seg m1 g (b # y # zs)"
    using node(2) seg_before [of g "[b]" m m1] by (simp add: free_mark_frame m1_def hg)
  then have "seg m' g (join b (y # zs))"
    using free_join_prev_seg [of m1 g b y zs] y(2) g bound by (simp add: m'_def hg)
  moreover have "seg m' a xs"
    using node(1) seg_before [of a xs m m'] hg
    by (simp add: m'_def m1_def free_mark_frame free_join_prev_frame flip: g_def)
  moreover have "m' c = m c" if "c \<notin> headers a bs" for c
    using that by (auto simp: m'_def m1_def g_def hg bs intro!: free_mark_frame
        free_join_prev_frame [THEN trans])
  ultimately show ?thesis
    using merge_marked [of xs b s f ys] assms(6) bs y(1) by (intro exI [of _ m']) (simp add: g_def)
qed

lemma free_region_Some:
  assumes rep: "region_rep m r bs" and give: "give_back p (region_base r) bs = Some bs'"
  shows "\<exists>m'. free_region r p m = Some (True, m') \<and> region_rep m' r bs' \<and>
           (\<forall>c. m' c \<noteq> m c \<longrightarrow> c \<in> headers (region_base r) bs)"
proof -
  let ?a = "region_base r"
  from give obtain cs where cs: "mark_free p ?a bs = Some cs" "bs' = merge cs"
    by (auto simp: give_back_def)
  from mark_free_SomeD [OF cs(1)] obtain xs s f ys where
    bs: "bs = xs @ (s, f) # ys" "cs = xs @ (s, True) # ys"
    and p: "end_of ?a xs < p" "p < end_of ?a xs + hdr + s" by blast
  have R: "seg m ?a bs" "end_node m (end_of ?a bs)" "0 < ?a" "end_of ?a bs + hdr \<le> 2 ^ 64"
    "coalesced bs" using rep by (simp_all add: region_rep_def)
  have "\<exists>m'. free_loop m 0 ?a p = Some (True, m') \<and> seg m' ?a bs' \<and>
      (\<forall>c. c \<notin> headers ?a bs \<longrightarrow> m' c = m c)"
  proof (cases xs rule: rev_cases)
    case Nil
    with free_loop_first [of m ?a s f ys p] R p bs show ?thesis by (auto simp: cs(2))
  next
    case (snoc zs b)
    with free_loop_later [of bs zs b s f ys m ?a "end_of ?a xs" p] R p bs show ?thesis
      by (auto simp: cs(2))
  qed
  then obtain m' where m': "free_loop m 0 ?a p = Some (True, m')" "seg m' ?a bs'"
    and frame: "\<And>c. c \<notin> headers ?a bs \<Longrightarrow> m' c = m c" by blast
  have "end_node m' (end_of ?a bs)"
    using R(2) end_node_cong [of "end_of ?a bs" m m'] frame headers_bounds by (metis leD)
  moreover have "live ?a bs' \<subseteq> live ?a bs" by (auto simp: cs(2) bs live_merge split: if_splits)
  ultimately have "region_rep m' r bs'"
    using rep m'(2) by (auto simp: region_rep_def cs(2) bs end_of_merge coalesced_merge)
  then show ?thesis using m'(1) frame p by (auto simp: free_region_def)
qed

section \<open>The heap as a whole\<close>

lemma live_all_Nil [simp]: "live_all [] [] = {}"
  by (simp add: live_all_def)

lemma live_all_Cons [simp]:
  "live_all (r # rs) (bs # lay) = live (region_base r) bs \<union> live_all rs lay"
  by (simp add: live_all_def)

lemma live_all_append:
  "length rs = length lay \<Longrightarrow> live_all (rs @ rs') (lay @ lay') = live_all rs lay \<union> live_all rs' lay'"
  by (auto simp: live_all_def)

lemma region_live_bounds:
  "region_rep m r bs \<Longrightarrow> (p, s) \<in> live (region_base r) bs \<Longrightarrow>
     region_base r + hdr \<le> p \<and> p + s + hdr \<le> region_base r + region_size r \<and> 0 < s"
  using live_bounds [of p s "region_base r" bs] by (fastforce simp: region_rep_def)

lemma apart_sym: "apart r r' \<longleftrightarrow> apart r' r"
  by (auto simp: apart_def)

lemma region_rep_apart:
  assumes "region_rep m r' bs" and "apart r r'"
    and frame: "\<And>c. m' c \<noteq> m c \<Longrightarrow> region_base r \<le> c \<and> c < region_base r + region_size r"
  shows "region_rep m' r' bs"
proof -
  have "m c = m' c" if "region_base r' \<le> c" "c < region_base r' + region_size r'" for c
  proof (rule ccontr)
    assume "m c \<noteq> m' c"
    then show False using frame [of c] that assms(2) by (auto simp: apart_def)
  qed
  moreover have "end_of (region_base r') bs + hdr = region_base r' + region_size r'"
    using assms(1) by (simp add: region_rep_def)
  ultimately show ?thesis
    using assms(1) headers_bounds [of _ "region_base r'" bs] end_of_ge [of "region_base r'" bs]
    by (subst region_rep_cong [of r' bs m' m]) fastforce+
qed

lemma mem_rep_split:
  assumes "mem_rep m (rs @ r # rs') (ls @ bs # ls')" and "length rs = length ls"
  shows "region_rep m r bs" "list_all2 (region_rep m) rs ls" "list_all2 (region_rep m) rs' ls'"
    "\<And>r'. r' \<in> set rs \<union> set rs' \<Longrightarrow> apart r r'"
  using assms by (auto simp: mem_rep_def list_all2_append sorted_wrt_append apart_sym)

lemma mem_rep_update:
  assumes rep: "mem_rep m (rs @ r # rs') (ls @ bs # ls')" and len: "length rs = length ls"
    and "region_rep m' r bs'"
    and frame: "\<And>c. m' c \<noteq> m c \<Longrightarrow> region_base r \<le> c \<and> c < region_base r + region_size r"
  shows "mem_rep m' (rs @ r # rs') (ls @ bs' # ls')"
proof -
  note split = mem_rep_split [OF rep len]
  have "list_all2 (region_rep m') rs ls" "list_all2 (region_rep m') rs' ls'"
    using split(2,3) split(4) region_rep_apart [OF _ _ frame]
    by (auto simp: list_all2_conv_all_nth)
  with assms(3) rep len show ?thesis
    by (simp add: mem_rep_def list_all2_append)
qed

lemma live_all_member:
  assumes "list_all2 (region_rep m) rs ls" and "(p, s) \<in> live_all rs ls"
  shows "\<exists>r \<in> set rs. region_base r + hdr \<le> p \<and> p + s + hdr \<le> region_base r + region_size r \<and> 0 < s"
  using assms by (induction rule: list_all2_induct) (auto dest: region_live_bounds)

lemma live_all_split:
  assumes "mem_rep m (rs @ r # rs') (ls @ bs # ls')" and "length rs = length ls"
  shows "live_all (rs @ r # rs') (ls @ bs # ls') =
    live (region_base r) bs \<union> (live_all rs ls \<union> live_all rs' ls')"
  using assms(2) by (auto simp: live_all_append)

lemma live_all_rest:
  assumes "mem_rep m (rs @ r # rs') (ls @ bs # ls')" and "length rs = length ls"
    and "(p, s) \<in> live_all rs ls \<union> live_all rs' ls'"
  shows "p + s \<le> region_base r \<or> region_base r + region_size r \<le> p" and "0 < s"
proof -
  note split = mem_rep_split [OF assms(1,2)]
  from assms(3) obtain r' where "r' \<in> set rs \<union> set rs'" "region_base r' + hdr \<le> p"
    "p + s + hdr \<le> region_base r' + region_size r'" and s: "0 < s"
    using live_all_member [OF split(2), of p s] live_all_member [OF split(3), of p s] by blast
  then show "p + s \<le> region_base r \<or> region_base r + region_size r \<le> p"
    using split(4) [of r'] by (auto simp: apart_def)
  show "0 < s" by (rule s)
qed

lemma outside_live_all:
  assumes "mem_rep m (rs @ r # rs') (ls @ bs # ls')" and "length rs = length ls"
    and "region_base r \<le> c" and "c < region_base r + region_size r"
    and "outside (live (region_base r) bs) c"
  shows "outside (live_all (rs @ r # rs') (ls @ bs # ls')) c"
  using assms(3-5) live_all_rest(1) [OF assms(1,2)]
  unfolding outside_def live_all_split [OF assms(1,2)] by fastforce

lemma live_all_separate:
  assumes "mem_rep m rs lay" and "(p, s) \<in> live_all rs lay" and "(q, t) \<in> live_all rs lay"
  shows "(p, s) = (q, t) \<or> p + s \<le> q \<or> q + t \<le> p"
proof -
  from assms(2) obtain r bs where rb: "(r, bs) \<in> set (zip rs lay)" "(p, s) \<in> live (region_base r) bs"
    by (auto simp: live_all_def)
  have len: "length rs = length lay" using assms(1) by (auto simp: mem_rep_def list_all2_lengthD)
  from rb(1) obtain i where "i < length rs" "rs ! i = r" "lay ! i = bs" "i < length lay"
    by (auto simp: set_zip)
  then obtain rs1 rs2 ls1 ls2 where eq: "rs = rs1 @ r # rs2" "lay = ls1 @ bs # ls2"
    "length rs1 = length ls1"
    using id_take_nth_drop [of i rs] id_take_nth_drop [of i lay] len
    by (metis length_take)
  note rep = assms(1) [unfolded eq(1,2)]
  note pb = region_live_bounds [OF mem_rep_split(1) [OF rep eq(3)] rb(2)]
  from assms(3) have "(q, t) \<in> live (region_base r) bs \<or> (q, t) \<in> live_all rs1 ls1 \<union> live_all rs2 ls2"
    unfolding eq(1,2) live_all_split [OF rep eq(3)] by blast
  then show ?thesis
    using live_separate [OF rb(2), of q t] live_all_rest [OF rep eq(3), of q t] pb by fastforce
qed

subsection \<open>Allocation\<close>

lemma alloc_region_in_heap:
  assumes rep: "mem_rep m (rs1 @ r # rs2) (ls1 @ bs # ls2)" and len: "length rs1 = length ls1"
    and take: "take_block n (region_base r) bs = Some (p, bs')" and "0 < n"
  shows "\<exists>s m'. alloc_region r n m = Some (p, m') \<and> mem_rep m' (rs1 @ r # rs2) (ls1 @ bs' # ls2) \<and>
           0 < p \<and> n \<le> s \<and>
           live_all (rs1 @ r # rs2) (ls1 @ bs' # ls2) =
             insert (p, s) (live_all (rs1 @ r # rs2) (ls1 @ bs # ls2)) \<and>
           (p, s) \<notin> live_all (rs1 @ r # rs2) (ls1 @ bs # ls2) \<and>
           keeps (live_all (rs1 @ r # rs2) (ls1 @ bs # ls2)) m m'"
proof -
  note split = mem_rep_split [OF rep len]
  from alloc_region_Some [OF split(1) take \<open>0 < n\<close>] obtain m' s where
    *: "alloc_region r n m = Some (p, m')" "region_rep m' r bs'" "n \<le> s"
    "live (region_base r) bs' = insert (p, s) (live (region_base r) bs)"
    "p \<notin> fst ` live (region_base r) bs"
    and frame: "\<And>c. m' c \<noteq> m c \<Longrightarrow> region_base r \<le> c \<and> c < end_of (region_base r) bs \<and>
      outside (live (region_base r) bs) c"
    unfolding outside_def by blast
  have frame': "region_base r \<le> c \<and> c < region_base r + region_size r" if "m' c \<noteq> m c" for c
    using frame [OF that] split(1) by (simp add: region_rep_def)
  have pb: "region_base r + hdr \<le> p" "p + s + hdr \<le> region_base r + region_size r"
    using region_live_bounds [OF *(2), of p s] *(4) by auto
  have "(p, s) \<notin> live_all (rs1 @ r # rs2) (ls1 @ bs # ls2)"
    using *(5) live_all_rest [OF rep len, of p s] pb \<open>n \<le> s\<close> \<open>0 < n\<close>
    unfolding live_all_split [OF rep len] by force
  moreover have "keeps (live_all (rs1 @ r # rs2) (ls1 @ bs # ls2)) m m'"
    using frame frame' outside_live_all [OF rep len] by (intro keeps_outside) simp
  moreover have "live_all (rs1 @ r # rs2) (ls1 @ bs' # ls2) =
      insert (p, s) (live_all (rs1 @ r # rs2) (ls1 @ bs # ls2))"
    using len *(4) by (simp add: live_all_append)
  ultimately show ?thesis
    using mem_rep_update [OF rep len *(2) frame'] *(1,3) pb by auto
qed

lemma alloc_regions_skip:
  assumes "list_all2 (region_rep m) rs ls" and "\<forall>bs \<in> set ls. unfit n bs"
  shows "alloc_regions (rs @ rs') n m = alloc_regions rs' n m"
  using assms
  by (induction rule: list_all2_induct) (simp_all add: alloc_region_None take_block_None)

lemma alloc_regions_None:
  assumes "mem_rep m rs lay" and "\<forall>bs \<in> set lay. unfit n bs"
  shows "alloc_regions rs n m = Some (0, m)"
  using alloc_regions_skip [of m rs lay n "[]"] assms by (simp add: mem_rep_def)

lemma alloc_regions_Some:
  assumes rep: "mem_rep m rs lay" and fit: "\<not> (\<forall>bs \<in> set lay. unfit n bs)" and "0 < n"
  shows "\<exists>p s m' lay'. alloc_regions rs n m = Some (p, m') \<and> mem_rep m' rs lay' \<and> 0 < p \<and> n \<le> s \<and>
           live_all rs lay' = insert (p, s) (live_all rs lay) \<and> (p, s) \<notin> live_all rs lay \<and>
           keeps (live_all rs lay) m m'"
proof -
  from fit obtain ls1 bs ls2 where lay: "lay = ls1 @ bs # ls2" "\<not> unfit n bs"
    "\<forall>bs \<in> set ls1. unfit n bs"
    using split_list_first_prop [of lay "\<lambda>bs. \<not> unfit n bs"] by auto
  with rep obtain rs1 r rs2 where rs: "rs = rs1 @ r # rs2" and len: "length rs1 = length ls1"
    by (auto simp: mem_rep_def list_all2_append2 list_all2_Cons2)
  note rep' = rep [unfolded lay(1) rs]
  from lay(2) obtain p bs' where take: "take_block n (region_base r) bs = Some (p, bs')"
    using take_block_None [of n "region_base r" bs] by auto
  have "alloc_regions rs n m = alloc_regions (r # rs2) n m"
    using alloc_regions_skip [OF mem_rep_split(2) [OF rep' len] lay(3)] rs by simp
  with alloc_region_in_heap [OF rep' len take \<open>0 < n\<close>] show ?thesis
    by (fastforce simp: lay(1) rs)
qed

subsection \<open>Release\<close>

lemma free_regions_skip:
  assumes "list_all2 (region_rep m) rs ls"
    and "\<forall>r \<in> set rs. q \<le> region_base r \<or> region_base r + region_size r \<le> q"
  shows "free_regions (rs @ rs') q m = free_regions rs' q m"
  using assms
proof (induction rule: list_all2_induct)
  case (Cons r rs bs ls)
  have "give_back q (region_base r) bs = None"
    using Cons.hyps(1) Cons.prems by (auto simp: give_back_def region_rep_def intro!: mark_free_None)
  with Cons show ?case by (simp add: free_region_None)
qed simp

lemma live_all_region:
  assumes rep: "mem_rep m rs lay" and live: "(p, s) \<in> live_all rs lay"
  shows "\<exists>rs1 r rs2 ls1 bs ls2. rs = rs1 @ r # rs2 \<and> lay = ls1 @ bs # ls2 \<and>
           length rs1 = length ls1 \<and> (p, s) \<in> live (region_base r) bs"
proof -
  from live obtain i where "i < length rs" "i < length lay" "(p, s) \<in> live (region_base (rs ! i)) (lay ! i)"
    by (auto simp: live_all_def set_zip)
  then show ?thesis
    using id_take_nth_drop [of i rs] id_take_nth_drop [of i lay]
    by (intro exI [of _ "take i rs"] exI [of _ "rs ! i"] exI [of _ "drop (Suc i) rs"]
        exI [of _ "take i lay"] exI [of _ "lay ! i"] exI [of _ "drop (Suc i) lay"]) simp
qed

lemma free_regions_live:
  assumes rep: "mem_rep m rs lay" and live: "(p, s) \<in> live_all rs lay" and q: "p \<le> q" "q < p + s"
  shows "\<exists>m' lay'. free_regions rs q m = Some m' \<and> mem_rep m' rs lay' \<and>
           live_all rs lay' = live_all rs lay - {(p, s)} \<and> keeps (live_all rs lay) m m'"
proof -
  from live_all_region [OF rep live] obtain rs1 r rs2 ls1 bs ls2 where
    rs: "rs = rs1 @ r # rs2" and lay: "lay = ls1 @ bs # ls2" and len: "length rs1 = length ls1"
    and ps: "(p, s) \<in> live (region_base r) bs" by blast
  note rep' = rep [unfolded rs lay]
  note split = mem_rep_split [OF rep' len]
  note pb = region_live_bounds [OF split(1) ps]
  from live_give_back [OF ps q] obtain bs' where
    bs': "give_back q (region_base r) bs = Some bs'"
      "live (region_base r) bs' = live (region_base r) bs - {(p, s)}" by blast
  from free_region_Some [OF split(1) bs'(1)] obtain m' where
    m': "free_region r q m = Some (True, m')" "region_rep m' r bs'"
    and frame: "\<And>c. m' c \<noteq> m c \<Longrightarrow> c \<in> headers (region_base r) bs" by blast
  have frame': "region_base r \<le> c \<and> c < region_base r + region_size r" if "m' c \<noteq> m c" for c
    using headers_bounds [OF frame [OF that]] split(1) by (simp add: region_rep_def)
  have "q \<le> region_base r' \<or> region_base r' + region_size r' \<le> q" if "r' \<in> set rs1" for r'
    using split(4) [of r'] that pb q by (auto simp: apart_def)
  then have "free_regions rs q m = Some m'"
    using free_regions_skip [OF split(2), of q "r # rs2"] m'(1) by (simp add: rs)
  moreover have "mem_rep m' rs (ls1 @ bs' # ls2)"
    using mem_rep_update [OF rep' len m'(2) frame'] rs by simp
  moreover have "(p, s) \<notin> live_all rs1 ls1 \<union> live_all rs2 ls2"
    using live_all_rest [OF rep' len, of p s] pb by fastforce
  then have "live_all rs (ls1 @ bs' # ls2) = live_all rs lay - {(p, s)}"
    using len bs'(2) by (auto simp: rs lay live_all_append)
  moreover have "outside (live (region_base r) bs) c" if "m' c \<noteq> m c" for c
    using live_headers_disjoint frame [OF that] by (fastforce simp: outside_def)
  then have "keeps (live_all rs lay) m m'"
    using frame' outside_live_all [OF rep' len] by (intro keeps_outside) (simp add: rs lay)
  ultimately show ?thesis by blast
qed

subsection \<open>New regions\<close>

lemma initRegion_rep:
  assumes "0 < region_base r" and "32 \<le> region_size r"
    and "region_base r + region_size r \<le> 2 ^ 64"
  shows "region_rep (initRegion r m) r [(region_size r - 32, True)]"
    and "initRegion r m c \<noteq> m c \<Longrightarrow> region_base r \<le> c \<and> c < region_base r + region_size r"
proof -
  define e where "e = region_base r + region_size r - hdr"
  have e: "region_base r + hdr \<le> e" "e < 2 ^ 64" "e + hdr = region_base r + region_size r"
    using assms by (simp_all add: e_def)
  have "sub64 (add64 (region_base r) (region_size r)) sizeof_HeapNode = e"
  proof (cases "region_base r + region_size r = 2 ^ 64")
    case True
    then have "add64 (region_base r) (region_size r) = 0" "e = 2 ^ 64 - 16"
      unfolding add64_def e_def by simp_all
    then show ?thesis by (simp add: heap_sizes sub64_def)
  next
    case False
    then show ?thesis using assms by (simp add: add64_small sub64_le heap_sizes e_def)
  qed
  then have init: "initRegion r m =
      set_is_free (set_next (set_magic
        (set_next (set_is_free (set_magic m (region_base r) HEAP_MAGIC) (region_base r) True)
           (region_base r) e) e 0) e 0) e False"
    using assms by (simp add: initRegion_def Let_def heap_sizes)
  show "region_rep (initRegion r m) r [(region_size r - 32, True)]"
    using assms e by (simp add: region_rep_def end_node_def init mem_simps) (simp add: e_def mem_simps)
  assume "initRegion r m c \<noteq> m c"
  moreover have "initRegion r m c = m c" if "c < region_base r \<or> region_base r + region_size r \<le> c"
    using that e by (auto simp: init set_frame)
  ultimately show "region_base r \<le> c \<and> c < region_base r + region_size r" by fastforce
qed

lemma mem_rep_new_region:
  assumes rep: "mem_rep m rs lay" and r: "0 < region_base r" "32 \<le> region_size r"
    "region_base r + region_size r \<le> 2 ^ 64" and apart: "\<forall>r' \<in> set rs. apart r r'"
  shows "mem_rep (initRegion r m) (rs @ [r]) (lay @ [[(region_size r - 32, True)]])"
    and "live_all (rs @ [r]) (lay @ [[(region_size r - 32, True)]]) = live_all rs lay"
    and "keeps (live_all rs lay) m (initRegion r m)"
proof -
  note init = initRegion_rep [OF r, of m]
  have len: "length rs = length lay" using rep by (auto simp: mem_rep_def dest: list_all2_lengthD)
  have "list_all2 (region_rep (initRegion r m)) rs lay"
    using rep apart region_rep_apart [of m _ _ r "initRegion r m"] init(2)
    by (simp add: mem_rep_def list_all2_conv_all_nth)
  with init(1) rep apart show "mem_rep (initRegion r m) (rs @ [r]) (lay @ [[(region_size r - 32, True)]])"
    using len by (simp add: mem_rep_def list_all2_append sorted_wrt_append apart_sym [of r])
  show "live_all (rs @ [r]) (lay @ [[(region_size r - 32, True)]]) = live_all rs lay"
    using len by (simp add: live_all_append)
  have "outside (live_all rs lay) c" if "initRegion r m c \<noteq> m c" for c
    using init(2) [OF that] live_all_member [of m rs lay] rep apart
    by (fastforce simp: outside_def mem_rep_def apart_def)
  then show "keeps (live_all rs lay) m (initRegion r m)" by (rule keeps_outside)
qed

lemma expansion_size_no_wrap:
  assumes "n + 8192 < 2 ^ 64"
  shows "expansion_size n = n + (4096 - n mod 4096) + 4096"
    and "1024 * (expansion_size n div 1024) = expansion_size n"
    and "n + 4096 < expansion_size n"
proof -
  show *: "expansion_size n = n + (4096 - n mod 4096) + 4096"
    using assms by (simp add: expansion_size_def add64_small)
  obtain q r where qr: "n = 4096 * q + r" "r < 4096"
    using mult_div_mod_eq [of 4096 n] mod_less_divisor [of 4096 n] by (metis zero_less_numeral)
  then have mod: "n mod 4096 = r" by simp
  from qr have "n + (4096 - r) = 4096 * (q + 1)" by simp
  with mod have "n + (4096 - n mod 4096) = 4096 * (q + 1)" by simp
  then have "expansion_size n = 1024 * (4 * (q + 2))" using * by simp
  then show "1024 * (expansion_size n div 1024) = expansion_size n" by simp
  show "n + 4096 < expansion_size n"
    using * mod qr by simp
qed

lemma heap_expand_ok:
  assumes rep: "heap_rep h lay" and pmm: "page_contract pmm_alloc" and n: "0 < n" "n + 8192 < 2 ^ 64"
  shows "\<exists>p h' lay'. heap_expand pmm_alloc n h = Some (p, h') \<and> heap_rep h' lay' \<and>
           heap_live h lay \<subseteq> heap_live h' lay' \<and>
           keeps (heap_live h lay) (heap_mem h) (heap_mem h') \<and>
           (if fst (pmm_alloc (expansion_size n div 1024) h) = 0 then p = 0
            else 0 < p \<and> (\<exists>s \<ge> n. (p, s) \<in> heap_live h' lay' - heap_live h lay))"
proof -
  define k where "k = expansion_size n div 1024"
  note size = expansion_size_no_wrap [OF n(2)]
  obtain q h1 where pages: "pmm_alloc k h = (q, h1)" by fastforce
  with pmm rep obtain lay1 where
    h1: "heap_rep h1 lay1" "heap_live h lay \<subseteq> heap_live h1 lay1"
      "keeps (heap_live h lay) (heap_mem h) (heap_mem h1)"
    and q: "q \<noteq> 0 \<Longrightarrow> q + 1024 * k \<le> 2 ^ 64 \<and>
      (\<forall>r \<in> set (heap_regions h1). apart \<lparr>region_base = q, region_size = 1024 * k\<rparr> r)"
    unfolding page_contract_def by blast
  show ?thesis
  proof (cases "q = 0")
    case True
    then have "heap_expand pmm_alloc n h = Some (0, h1)"
      using pages by (simp add: heap_expand_def k_def)
    with True h1 pages show ?thesis by (auto simp: k_def)
  next
    case False
    define r where "r = \<lparr>region_base = q, region_size = expansion_size n\<rparr>"
    let ?rs = "heap_regions h1" and ?m0 = "initRegion r (heap_mem h1)"
    let ?b = "expansion_size n - 32"
    have len: "length ?rs = length lay1"
      using h1(1) by (auto simp: heap_rep_def mem_rep_def dest: list_all2_lengthD)
    have r: "0 < region_base r" "32 \<le> region_size r" "region_base r + region_size r \<le> 2 ^ 64"
      "\<forall>r' \<in> set ?rs. apart r r'"
      using q [OF False] size False by (auto simp: r_def k_def)
    note new = mem_rep_new_region [OF _ r, of "heap_mem h1" lay1]
    have rep0: "mem_rep (heap_mem h1) ?rs lay1" using h1(1) by (simp add: heap_rep_def)
    have t1: "take_block sizeof_HeapRegion (region_base r) [(region_size r - 32, True)] =
        Some (q + 16, [(24, False), (?b - 40, True)])"
      using size(3) by (simp add: r_def heap_sizes carve_def)
    from alloc_region_in_heap [OF new(1) [OF rep0] len t1] obtain m1 s1 where
      m1: "alloc_region r sizeof_HeapRegion ?m0 = Some (q + 16, m1)"
        "mem_rep m1 (?rs @ [r]) (lay1 @ [[(24, False), (?b - 40, True)]])"
        "live_all ?rs lay1 \<subseteq> live_all (?rs @ [r]) (lay1 @ [[(24, False), (?b - 40, True)]])"
        "keeps (live_all ?rs lay1) ?m0 m1"
      using new(2) [OF rep0] by (auto simp: heap_sizes)
    have t2: "take_block n (region_base r) [(24, False), (?b - 40, True)] =
        Some (q + 56, (24, False) # carve n (?b - 40))"
      using size(3) by (simp add: r_def)
    from alloc_region_in_heap [OF m1(2) len t2 n(1)] obtain m2 s where
      m2: "alloc_region r n m1 = Some (q + 56, m2)"
        "mem_rep m2 (?rs @ [r]) (lay1 @ [(24, False) # carve n (?b - 40)])" "n \<le> s"
        "live_all (?rs @ [r]) (lay1 @ [(24, False) # carve n (?b - 40)]) =
           insert (q + 56, s) (live_all (?rs @ [r]) (lay1 @ [[(24, False), (?b - 40, True)]]))"
        "(q + 56, s) \<notin> live_all (?rs @ [r]) (lay1 @ [[(24, False), (?b - 40, True)]])"
        "keeps (live_all (?rs @ [r]) (lay1 @ [[(24, False), (?b - 40, True)]])) m1 m2"
      by auto
    define h2 where "h2 = h1\<lparr>heap_mem := m2, heap_regions := ?rs @ [r]\<rparr>"
    have "heap_expand pmm_alloc n h = Some (q + 56, h2)"
      using False pages m1(1) m2(1) h1(1)
      by (simp add: heap_expand_def k_def Let_def r_def h2_def heap_rep_def)
    moreover have "keeps (heap_live h lay) (heap_mem h) (heap_mem h2)"
      using keeps_trans [OF h1(3) keeps_trans [OF new(3) [OF rep0]
            keeps_trans [OF m1(4) m2(6) m1(3)] order_refl]] h1(2)
      by (simp add: h2_def heap_live_def)
    moreover have "heap_rep h2 (lay1 @ [(24, False) # carve n (?b - 40)])"
      using m2(2) by (simp add: heap_rep_def h2_def)
    moreover have "heap_live h lay \<subseteq> heap_live h2 (lay1 @ [(24, False) # carve n (?b - 40)])"
      "(q + 56, s) \<in> heap_live h2 (lay1 @ [(24, False) # carve n (?b - 40)]) - heap_live h lay"
      using m2(4,5) m1(3) h1(2) by (auto simp: heap_live_def h2_def)
    ultimately show ?thesis
      using False m2(3) pages by (intro exI conjI) (auto simp: k_def)
  qed
qed

end
