(* ===== verification/Heap_Correct.thy ===== *)
theory Heap_Correct
  imports Heap
begin

text \<open>
  The heap implements the allocator interface: what \<open>malloc\<close>, \<open>free\<close>, \<open>realloc\<close>,
  \<open>calloc\<close> and \<open>malloc_aligned\<close> guarantee to their callers, on top of the region lemmas
  of \<^theory_text>\<open>Heap\<close>.
\<close>

definition heap_abs :: "heap_state \<Rightarrow> (nat \<times> nat) set \<Rightarrow> bool" where
  "heap_abs h L \<longleftrightarrow> (\<exists>lay. heap_rep h lay \<and> L = heap_live h lay)"

text \<open>A client's store of one byte.\<close>

definition heap_poke :: "nat \<Rightarrow> byte \<Rightarrow> heap_state \<Rightarrow> heap_state" where
  "heap_poke a v h = h\<lparr>heap_mem := (heap_mem h)(a := v)\<rparr>"

section \<open>Allocation and release\<close>

lemma heap_ready_rep [simp]: "heap_rep h lay \<Longrightarrow> heap_ready lh h = h"
  by (simp add: heap_ready_def heap_rep_def)

lemma heap_mem_same [simp]: "h\<lparr>heap_mem := heap_mem h\<rparr> = (h :: heap_state)"
  by (cases h) simp

lemma heap_alloc_fit:
  assumes "heap_rep h lay" and "\<not> (\<forall>bs \<in> set lay. unfit n bs)" and "0 < n"
  shows "\<exists>p s h' lay'. heap_alloc lh pmm n h = Some (p, h') \<and> heap_rep h' lay' \<and> 0 < p \<and> n \<le> s \<and>
           heap_live h' lay' = insert (p, s) (heap_live h lay) \<and> (p, s) \<notin> heap_live h lay \<and>
           keeps (heap_live h lay) (heap_mem h) (heap_mem h') \<and> heap_regions h' = heap_regions h"
proof -
  from assms obtain p s m' lay' where
    *: "alloc_regions (heap_regions h) n (heap_mem h) = Some (p, m')"
      "mem_rep m' (heap_regions h) lay'" "0 < p" "n \<le> s"
      "live_all (heap_regions h) lay' = insert (p, s) (live_all (heap_regions h) lay)"
      "(p, s) \<notin> live_all (heap_regions h) lay"
      "keeps (live_all (heap_regions h) lay) (heap_mem h) m'"
    using alloc_regions_Some [of "heap_mem h" "heap_regions h" lay n] by (auto simp: heap_rep_def)
  have "heap_alloc lh pmm n h = Some (p, h\<lparr>heap_mem := m'\<rparr>)"
    using assms * by (simp add: heap_alloc_def Let_def)
  with * assms(1) show ?thesis
    by (intro exI [of _ p] exI [of _ s] exI [of _ "h\<lparr>heap_mem := m'\<rparr>"] exI [of _ lay'])
      (simp add: heap_rep_def heap_live_def)
qed

lemma heap_alloc_full:
  assumes "heap_rep h lay" and "\<forall>bs \<in> set lay. unfit n bs" and "0 < n"
  shows "heap_alloc lh pmm n h =
    (case pmm of None \<Rightarrow> Some (0, h) | Some pmm_alloc \<Rightarrow> heap_expand pmm_alloc n h)"
proof -
  have "alloc_regions (heap_regions h) n (heap_mem h) = Some (0, heap_mem h)"
    using assms by (intro alloc_regions_None) (auto simp: heap_rep_def)
  with assms show ?thesis by (simp add: heap_alloc_def Let_def split: option.split)
qed

lemma heap_alloc_ok:
  assumes rep: "heap_rep h lay" and n: "0 < n" and pages: "pages_ok pmm n"
  shows "\<exists>p h' lay'. heap_alloc lh pmm n h = Some (p, h') \<and> heap_rep h' lay' \<and>
           heap_live h lay \<subseteq> heap_live h' lay' \<and>
           keeps (heap_live h lay) (heap_mem h) (heap_mem h') \<and>
           (p \<noteq> 0 \<longrightarrow> (\<exists>s \<ge> n. (p, s) \<in> heap_live h' lay' - heap_live h lay))"
proof (cases "\<forall>bs \<in> set lay. unfit n bs")
  case full: True
  show ?thesis
  proof (cases pmm)
    case None
    with heap_alloc_full [OF rep full n] rep show ?thesis by auto
  next
    case (Some pmm_alloc)
    with pages have "page_contract pmm_alloc" "n + 8192 < 2 ^ 64" by (simp_all add: pages_ok_def)
    from heap_expand_ok [OF rep this(1) n this(2)] heap_alloc_full [OF rep full n, of lh pmm] Some
    show ?thesis by (auto split: if_splits)
  qed
next
  case False
  from heap_alloc_fit [OF rep False n, of lh pmm] show ?thesis by blast
qed

lemma heap_free_ok:
  assumes rep: "heap_rep h lay" and live: "(p, s) \<in> heap_live h lay" and q: "p \<le> q" "q < p + s"
  shows "\<exists>h' lay'. heap_free lh q h = Some h' \<and> heap_rep h' lay' \<and>
           heap_live h' lay' = heap_live h lay - {(p, s)} \<and>
           keeps (heap_live h lay) (heap_mem h) (heap_mem h')"
proof -
  from free_regions_live [of "heap_mem h" "heap_regions h" lay p s q] assms obtain m' lay' where
    *: "free_regions (heap_regions h) q (heap_mem h) = Some m'" "mem_rep m' (heap_regions h) lay'"
      "live_all (heap_regions h) lay' = live_all (heap_regions h) lay - {(p, s)}"
      "keeps (live_all (heap_regions h) lay) (heap_mem h) m'"
    by (auto simp: heap_rep_def heap_live_def)
  have "0 < q"
    using live_all_member [of "heap_mem h" "heap_regions h" lay p s] assms
    by (auto simp: heap_rep_def mem_rep_def heap_live_def)
  then have "heap_free lh q h = Some (h\<lparr>heap_mem := m'\<rparr>)"
    using rep * by (simp add: heap_free_def Let_def)
  with * rep show ?thesis
    by (intro exI [of _ "h\<lparr>heap_mem := m'\<rparr>"] exI [of _ lay']) (simp add: heap_rep_def heap_live_def)
qed

section \<open>Writes by clients\<close>

lemma mem_rep_payload:
  assumes rep: "mem_rep m rs lay" and live: "(p, s) \<in> live_all rs lay"
    and frame: "\<And>c. m' c \<noteq> m c \<Longrightarrow> p \<le> c \<and> c < p + s"
  shows "mem_rep m' rs lay"
proof -
  from live_all_region [OF rep live] obtain rs1 r rs2 ls1 bs ls2 where
    rs: "rs = rs1 @ r # rs2" and lay: "lay = ls1 @ bs # ls2" and len: "length rs1 = length ls1"
    and ps: "(p, s) \<in> live (region_base r) bs" by blast
  note rep' = rep [unfolded rs lay]
  note split = mem_rep_split [OF rep' len]
  note pb = region_live_bounds [OF split(1) ps]
  have "m c = m' c" if "c \<in> headers (region_base r) bs" for c
    using live_headers_disjoint [OF ps that] frame [of c] by fastforce
  moreover have "m c = m' c" if "end_of (region_base r) bs \<le> c" for c
    using live_bounds [OF ps] that frame [of c] by fastforce
  ultimately have "region_rep m' r bs"
    using split(1) region_rep_cong [of r bs m m'] by blast
  moreover have "region_base r \<le> c \<and> c < region_base r + region_size r" if "m' c \<noteq> m c" for c
    using frame [OF that] pb by linarith
  ultimately show ?thesis
    using mem_rep_update [OF rep' len] by (simp add: rs lay)
qed

lemma heap_rep_payload:
  assumes "heap_rep h lay" and "(p, s) \<in> heap_live h lay"
    and "\<And>c. m' c \<noteq> heap_mem h c \<Longrightarrow> p \<le> c \<and> c < p + s"
  shows "heap_rep (h\<lparr>heap_mem := m'\<rparr>) lay" "heap_live (h\<lparr>heap_mem := m'\<rparr>) lay = heap_live h lay"
  using assms mem_rep_payload [of "heap_mem h" "heap_regions h" lay p s m']
  by (simp_all add: heap_rep_def heap_live_def)

lemma heap_live_separate:
  assumes "heap_rep h lay" and "(p, s) \<in> heap_live h lay" and "(q, t) \<in> heap_live h lay"
  shows "(p, s) = (q, t) \<or> p + s \<le> q \<or> q + t \<le> p"
  using assms live_all_separate [of "heap_mem h" "heap_regions h" lay p s q t]
  by (simp add: heap_rep_def heap_live_def)

lemma heap_live_bounds:
  assumes "heap_rep h lay" and "(p, s) \<in> heap_live h lay"
  shows "0 < s" and "hdr < p" and "p + s < 2 ^ 64"
proof -
  from assms obtain r where r: "r \<in> set (heap_regions h)" "region_base r + hdr \<le> p"
    "p + s + hdr \<le> region_base r + region_size r" "0 < s"
    using live_all_member [of "heap_mem h" "heap_regions h" lay p s]
    by (auto simp: heap_rep_def mem_rep_def heap_live_def)
  moreover have "0 < region_base r \<and> region_base r + region_size r \<le> 2 ^ 64"
    using assms(1) r(1) by (auto simp: heap_rep_def mem_rep_def region_rep_def list_all2_conv_all_nth in_set_conv_nth)
  ultimately show "0 < s" "hdr < p" "p + s < 2 ^ 64" by linarith+
qed

lemma heap_rep_coalesced:
  assumes "heap_rep h lay"
  shows "\<forall>bs \<in> set lay. coalesced bs"
  using assms
  by (auto simp: heap_rep_def mem_rep_def region_rep_def list_all2_conv_all_nth in_set_conv_nth)

lemma heap_live_node:
  assumes "heap_rep h lay" and "(p, s) \<in> heap_live h lay"
  shows "node_magic (heap_mem h) (p - hdr) = HEAP_MAGIC" and "NODE_SIZE (heap_mem h) (p - hdr) = s"
proof -
  from live_all_region [of "heap_mem h" "heap_regions h" lay p s] assms
  obtain rs1 r rs2 ls1 bs ls2 where
    rs: "heap_regions h = rs1 @ r # rs2" and lay: "lay = ls1 @ bs # ls2"
    and len: "length rs1 = length ls1" and ps: "(p, s) \<in> live (region_base r) bs"
    by (auto simp: heap_rep_def heap_live_def)
  from live_split [OF ps] obtain xs ys where
    bs: "bs = xs @ (s, False) # ys" and p: "p = end_of (region_base r) xs + hdr" by blast
  have "region_rep (heap_mem h) r bs"
    using assms(1) mem_rep_split(1) [OF _ len] by (simp add: heap_rep_def rs lay)
  then have node: "node_magic (heap_mem h) (p - hdr) = HEAP_MAGIC"
      "node_next (heap_mem h) (p - hdr) = p - hdr + hdr + s"
    by (simp_all add: region_rep_def bs p)
  show "node_magic (heap_mem h) (p - hdr) = HEAP_MAGIC" by (rule node)
  show "NODE_SIZE (heap_mem h) (p - hdr) = s"
    using heap_live_bounds [OF assms] by (intro NODE_SIZE_next node) simp
qed

text \<open>Writing to a block just handed out disturbs no block that was live before.\<close>

lemma keeps_fresh_write:
  assumes "heap_rep h lay" and "(q, t) \<in> heap_live h lay" and "L \<subseteq> heap_live h lay" and "(q, t) \<notin> L"
    and frame: "\<And>c. m' c \<noteq> heap_mem h c \<Longrightarrow> q \<le> c \<and> c < q + t"
  shows "keeps L (heap_mem h) m'"
proof (rule keeps_outside)
  fix c assume "m' c \<noteq> heap_mem h c"
  note frame [OF this]
  moreover have "q + t \<le> x \<or> x + y \<le> q" if "(x, y) \<in> L" for x y
    using heap_live_separate [OF assms(1,2), of x y] assms(3,4) that by auto
  ultimately show "outside L c" by (fastforce simp: outside_def)
qed

section \<open>The allocator interface\<close>

interpretation kernel_heap: allocator heap_abs heap_mem "pages_ok pmm" "malloc lh pmm" "kfree lh"
  heap_poke
  for lh pmm
proof
  fix h :: heap_state and L n
  assume "heap_abs h L" "0 < n" "pages_ok pmm n"
  then show "\<exists>p h' L'. malloc lh pmm n h = Some (p, h') \<and> heap_abs h' L' \<and> L \<subseteq> L' \<and>
      keeps L (heap_mem h) (heap_mem h') \<and> (p \<noteq> 0 \<longrightarrow> (\<exists>s\<ge>n. (p, s) \<in> L' - L))"
    using heap_alloc_ok [of h _ n pmm lh] by (fastforce simp: heap_abs_def malloc_def)
next
  fix h :: heap_state and L and p s :: nat
  assume "heap_abs h L" "(p, s) \<in> L"
  then obtain lay where lay: "heap_rep h lay" "(p, s) \<in> heap_live h lay" "L = heap_live h lay"
    by (auto simp: heap_abs_def)
  with heap_live_bounds(1) [OF lay(1,2)] heap_free_ok [OF lay(1,2), of p lh]
  show "\<exists>h'. kfree lh p h = Some h' \<and> heap_abs h' (L - {(p, s)}) \<and> keeps L (heap_mem h) (heap_mem h')"
    by (auto simp: heap_abs_def kfree_def)
next
  fix h :: heap_state and L and p s q t :: nat
  assume "heap_abs h L" "(p, s) \<in> L" "(q, t) \<in> L"
  then show "0 < s \<and> ((p, s) = (q, t) \<or> p + s \<le> q \<or> q + t \<le> p)"
    using heap_live_separate heap_live_bounds(1) unfolding heap_abs_def by blast
next
  fix h :: heap_state and L and p s i :: nat and v :: byte
  assume "heap_abs h L" "(p, s) \<in> L" "i < s"
  then obtain lay where lay: "heap_rep h lay" "(p, s) \<in> heap_live h lay" "L = heap_live h lay"
    by (auto simp: heap_abs_def)
  then have "p \<le> c \<and> c < p + s" if "((heap_mem h)(p + i := v)) c \<noteq> heap_mem h c" for c
    using that \<open>i < s\<close> by (auto split: if_splits)
  with heap_rep_payload [OF lay(1,2), of "(heap_mem h)(p + i := v)"] lay(3)
  show "heap_abs (heap_poke (p + i) v h) L \<and>
      heap_mem (heap_poke (p + i) v h) = (heap_mem h)(p + i := v)"
    by (auto simp: heap_abs_def heap_poke_def)
qed

section \<open>Reallocation, zeroed and aligned allocation\<close>

lemma copied_frame: "copied d s n m c \<noteq> m c \<Longrightarrow> d \<le> c \<and> c < d + n"
  by (auto simp: copied_def split: if_splits)

lemma bytes_at_copied: "k \<le> n \<Longrightarrow> bytes_at (copied d s n m) d k = bytes_at m s k"
  by (auto simp: bytes_at_def copied_def)

lemma heap_realloc_grow:
  assumes rep: "heap_rep h lay" and live: "(p, s) \<in> heap_live h lay" and n: "s < n"
    and pages: "pages_ok pmm n"
  shows "\<exists>q h' lay'. heap_realloc lh pmm erms p n h = Some (q, h') \<and> heap_rep h' lay' \<and>
           heap_live h lay - {(p, s)} \<subseteq> heap_live h' lay' \<and>
           keeps (heap_live h lay - {(p, s)}) (heap_mem h) (heap_mem h') \<and>
           (if q = 0 then (p, s) \<in> heap_live h' lay' \<and> bytes_at (heap_mem h') p s = bytes_at (heap_mem h) p s
            else \<exists>t \<ge> n. (q, t) \<in> heap_live h' lay' \<and> bytes_at (heap_mem h') q s = bytes_at (heap_mem h) p s)"
proof -
  note node = heap_live_node [OF rep live] and pb = heap_live_bounds [OF rep live]
  have sub: "sub64 p sizeof_HeapNode = p - hdr" using pb by (simp add: sub64_le heap_sizes)
  from n have "0 < n" by simp
  from heap_alloc_ok [OF rep this pages, of lh] obtain q h1 lay1 where
    h1: "heap_alloc lh pmm n h = Some (q, h1)" "heap_rep h1 lay1"
      "heap_live h lay \<subseteq> heap_live h1 lay1" "keeps (heap_live h lay) (heap_mem h) (heap_mem h1)"
    and q: "q \<noteq> 0 \<Longrightarrow> \<exists>t \<ge> n. (q, t) \<in> heap_live h1 lay1 - heap_live h lay" by blast
  have kept: "bytes_at (heap_mem h1) p s = bytes_at (heap_mem h) p s"
    using keeps_bytes [OF h1(4) live] by simp
  show ?thesis
  proof (cases "q = 0")
    case True
    then have "heap_realloc lh pmm erms p n h = Some (0, h1)"
      using n pb node h1(1) by (simp add: heap_realloc_def Let_def sub)
    with True h1 live kept show ?thesis
      by (intro exI [of _ 0] exI [of _ h1] exI [of _ lay1]) (auto intro: keeps_subset)
  next
    case False
    from q [OF False] obtain t where t: "n \<le> t" "(q, t) \<in> heap_live h1 lay1" "(q, t) \<notin> heap_live h lay"
      by blast
    have live1: "(p, s) \<in> heap_live h1 lay1" using h1(3) live by blast
    have sep: "q + t \<le> p \<or> p + s \<le> q"
      using heap_live_separate [OF h1(2) t(2) live1] t(3) live by auto
    define m2 where "m2 = copied q p s (heap_mem h1)"
    have cpy: "memcpy erms q p s (heap_mem h1) = m2"
      using sep t(1) n by (auto simp: m2_def intro!: memcpy_copied)
    have frame2: "q \<le> c \<and> c < q + t" if "m2 c \<noteq> heap_mem h1 c" for c
      using copied_frame [OF that [unfolded m2_def]] n t(1) by linarith
    note rep2 = heap_rep_payload [OF h1(2) t(2) frame2]
    have "\<exists>h' lay'. heap_free lh p (h1\<lparr>heap_mem := m2\<rparr>) = Some h' \<and> heap_rep h' lay' \<and>
        heap_live h' lay' = heap_live h1 lay1 - {(p, s)} \<and>
        keeps (heap_live h1 lay1) m2 (heap_mem h')"
      using heap_free_ok [of "h1\<lparr>heap_mem := m2\<rparr>" lay1 p s p lh] rep2 live1 pb by simp
    then obtain h' lay' where h': "heap_free lh p (h1\<lparr>heap_mem := m2\<rparr>) = Some h'" "heap_rep h' lay'"
        "heap_live h' lay' = heap_live h1 lay1 - {(p, s)}" "keeps (heap_live h1 lay1) m2 (heap_mem h')"
      by blast
    have "heap_realloc lh pmm erms p n h = Some (q, h')"
      using n pb node h1(1) False h'(1) by (simp add: heap_realloc_def Let_def sub cpy)
    moreover have "keeps (heap_live h lay) (heap_mem h1) m2"
      by (rule keeps_fresh_write [OF h1(2) t(2) h1(3) t(3) frame2])
    then have "keeps (heap_live h lay) (heap_mem h) (heap_mem h')"
      using keeps_trans [OF keeps_trans [OF h1(4)] h'(4) h1(3)] by blast
    moreover have "bytes_at (heap_mem h') q s = bytes_at (heap_mem h) p s"
      using keeps_bytes [OF h'(4) t(2)] n t(1) bytes_at_copied [of s s q p "heap_mem h1"] kept
      by (simp add: m2_def)
    moreover have "(q, t) \<in> heap_live h' lay'" using h'(3) t live by auto
    moreover have "heap_live h lay - {(p, s)} \<subseteq> heap_live h' lay'" using h1(3) h'(3) by blast
    ultimately show ?thesis
      using False t(1) h'(2) by (intro exI [of _ q] exI [of _ h'] exI [of _ lay']) (auto intro: keeps_subset)
  qed
qed

lemma heap_realloc_shrink:
  assumes "heap_rep h lay" and "(p, s) \<in> heap_live h lay" and "0 < n" and "n \<le> s"
  shows "heap_realloc lh pmm erms p n h = Some (p, h)"
proof -
  note node = heap_live_node [OF assms(1,2)] and pb = heap_live_bounds [OF assms(1,2)]
  have "sub64 p sizeof_HeapNode = p - hdr" using pb by (simp add: sub64_le heap_sizes)
  with node pb assms show ?thesis by (simp add: heap_realloc_def Let_def)
qed

lemma heap_calloc_ok:
  assumes rep: "heap_rep h lay" and nz: "0 < count" "0 < sz" and small: "count * sz < 2 ^ 64"
    and pages: "pages_ok pmm (count * sz)"
  shows "\<exists>p h' lay'. heap_calloc lh pmm count sz h = Some (p, h') \<and> heap_rep h' lay' \<and>
           heap_live h lay \<subseteq> heap_live h' lay' \<and>
           keeps (heap_live h lay) (heap_mem h) (heap_mem h') \<and>
           (p \<noteq> 0 \<longrightarrow> (\<exists>s \<ge> count * sz. (p, s) \<in> heap_live h' lay' - heap_live h lay) \<and>
              bytes_at (heap_mem h') p (count * sz) = replicate (count * sz) 0)"
proof -
  let ?n = "count * sz"
  have n: "0 < ?n" "mul64 count sz = ?n" using nz small by (simp_all add: mul64_small)
  from heap_alloc_ok [OF rep n(1) pages, of lh] obtain p h1 lay1 where
    h1: "heap_alloc lh pmm ?n h = Some (p, h1)" "heap_rep h1 lay1"
      "heap_live h lay \<subseteq> heap_live h1 lay1" "keeps (heap_live h lay) (heap_mem h) (heap_mem h1)"
    and p: "p \<noteq> 0 \<Longrightarrow> \<exists>t \<ge> ?n. (p, t) \<in> heap_live h1 lay1 - heap_live h lay" by blast
  show ?thesis
  proof (cases "p = 0")
    case True
    with h1 n nz show ?thesis by (auto simp: heap_calloc_def)
  next
    case False
    from p [OF False] obtain t where t: "?n \<le> t" "(p, t) \<in> heap_live h1 lay1" "(p, t) \<notin> heap_live h lay"
      by blast
    define m2 where "m2 = memset p 0 ?n (heap_mem h1)"
    have frame2: "p \<le> c \<and> c < p + t" if "m2 c \<noteq> heap_mem h1 c" for c
      using that t(1) by (auto simp: m2_def memset_apply split: if_splits)
    note rep2 = heap_rep_payload [OF h1(2) t(2) frame2]
    have "keeps (heap_live h lay) (heap_mem h1) m2"
      by (rule keeps_fresh_write [OF h1(2) t(2) h1(3) t(3) frame2])
    with h1 have "keeps (heap_live h lay) (heap_mem h) m2" by (blast intro: keeps_trans)
    moreover have "bytes_at m2 p ?n = replicate ?n 0"
      by (simp add: bytes_at_def m2_def memset_apply list_eq_iff_nth_eq)
    moreover have "heap_calloc lh pmm count sz h = Some (p, h1\<lparr>heap_mem := m2\<rparr>)"
      using h1(1) n nz False by (simp add: heap_calloc_def m2_def)
    ultimately show ?thesis
      using rep2 h1(3) t
      by (intro exI [of _ p] exI [of _ "h1\<lparr>heap_mem := m2\<rparr>"] exI [of _ lay1]) auto
  qed
qed

lemma heap_aligned_alloc_ok:
  assumes rep: "heap_rep h lay" and sz: "0 < sz" and k: "k < 64" and small: "sz + 2 ^ k + hdr < 2 ^ 64"
    and pages: "pages_ok pmm (sz + (2 ^ k - 1) + hdr)"
  shows "\<exists>q h' lay'. heap_aligned_alloc lh pmm (2 ^ k) sz h = Some (q, h') \<and> heap_rep h' lay' \<and>
           heap_live h lay \<subseteq> heap_live h' lay' \<and>
           keeps (heap_live h lay) (heap_mem h) (heap_mem h') \<and>
           (q \<noteq> 0 \<longrightarrow> 2 ^ k dvd q \<and> node_magic (heap_mem h') (q - hdr) = HEAP_MAGIC \<and>
              node_next (heap_mem h') (q - hdr) = 0 \<and>
              (\<exists>p s. (p, s) \<in> heap_live h' lay' - heap_live h lay \<and> p + hdr \<le> q \<and> q + sz \<le> p + s))"
proof -
  let ?n = "sz + (2 ^ k - 1) + hdr"
  have one: "1 \<le> (2 :: nat) ^ k" by simp
  have n: "0 < ?n" "add64 (add64 sz (2 ^ k - 1)) sizeof_HeapNode = ?n"
    using small one by (simp_all add: add64_small heap_sizes)
  have guard: "\<not> ((2 ^ k :: nat) = 0 \<or> sz = 0 \<or> (2 ^ k :: nat) AND (2 ^ k - 1) \<noteq> 0)"
    using sz pow2_and [of k] by simp
  from heap_alloc_ok [OF rep n(1) pages, of lh] obtain p h1 lay1 where
    h1: "heap_alloc lh pmm ?n h = Some (p, h1)" "heap_rep h1 lay1"
      "heap_live h lay \<subseteq> heap_live h1 lay1" "keeps (heap_live h lay) (heap_mem h) (heap_mem h1)"
    and p: "p \<noteq> 0 \<Longrightarrow> \<exists>t \<ge> ?n. (p, t) \<in> heap_live h1 lay1 - heap_live h lay" by blast
  show ?thesis
  proof (cases "p = 0")
    case True
    then have "heap_aligned_alloc lh pmm (2 ^ k) sz h = Some (0, h1)"
      using h1(1) n(2) guard by (simp only: heap_aligned_alloc_def if_False) simp
    with h1 show ?thesis by (intro exI [of _ 0] exI [of _ h1] exI [of _ lay1]) simp
  next
    case False
    from p [OF False] obtain t where t: "?n \<le> t" "(p, t) \<in> heap_live h1 lay1" "(p, t) \<notin> heap_live h lay"
      by blast
    note pb = heap_live_bounds [OF h1(2) t(2)]
    have ph: "add64 p sizeof_HeapNode = p + hdr" and pk: "p + hdr + 2 ^ k \<le> 2 ^ 64"
      using pb t(1) sz one by (simp_all add: add64_small heap_sizes)
    define q where "q = align_up64 (p + hdr) (2 ^ k)"
    note qb = align_up64_bounds [OF k pk, folded q_def]
    have fit: "q + sz \<le> p + t" using qb(3) t(1) sz one by linarith
    have qh: "sub64 q sizeof_HeapNode = q - hdr"
      using qb fit pb sz by (simp add: sub64_le heap_sizes)
    define m2 where "m2 = set_next (set_is_free (set_magic (heap_mem h1) (q - hdr) HEAP_MAGIC)
        (q - hdr) False) (q - hdr) 0"
    have frame2: "p \<le> c \<and> c < p + t" if "m2 c \<noteq> heap_mem h1 c" for c
    proof -
      have "\<not> (c < q - hdr \<or> q - hdr + hdr \<le> c)" using that by (auto simp: m2_def set_frame)
      with qb(2) fit show ?thesis by linarith
    qed
    note rep2 = heap_rep_payload [OF h1(2) t(2) frame2]
    have "keeps (heap_live h lay) (heap_mem h) m2"
      using keeps_fresh_write [OF h1(2) t(2) h1(3) t(3) frame2] h1(4) by (blast intro: keeps_trans)
    moreover have "node_magic m2 (q - hdr) = HEAP_MAGIC" "node_next m2 (q - hdr) = 0"
      by (simp_all add: m2_def mem_simps)
    moreover have "heap_aligned_alloc lh pmm (2 ^ k) sz h = Some (q, h1\<lparr>heap_mem := m2\<rparr>)"
      using h1(1) n(2) guard False
      by (simp only: heap_aligned_alloc_def if_False) (simp add: Let_def ph qh m2_def flip: q_def)
    ultimately show ?thesis
      using rep2 h1(3) t(2,3) qb(1,2) fit
      by (intro exI [of _ q] exI [of _ "h1\<lparr>heap_mem := m2\<rparr>"] exI [of _ lay1]) auto
  qed
qed

section \<open>Round trips and start-up\<close>

lemma heap_init_rep:
  assumes "0 < region_base r" and "32 \<le> region_size r" and "region_base r + region_size r \<le> 2 ^ 64"
  shows "heap_rep (heap_init r h) [[(region_size r - 32, True)]]"
  using initRegion_rep(1) [OF assms] by (simp add: heap_init_def heap_rep_def mem_rep_def)

lemma alloc_free_regions:
  assumes rep: "mem_rep m rs lay" and fit: "\<not> (\<forall>bs \<in> set lay. unfit n bs)" and "0 < n"
  shows "\<exists>p m' m''. alloc_regions rs n m = Some (p, m') \<and> 0 < p \<and> free_regions rs p m' = Some m'' \<and>
           mem_rep m'' rs lay"
proof -
  from fit obtain ls1 bs ls2 where lay: "lay = ls1 @ bs # ls2" "\<not> unfit n bs"
    "\<forall>bs \<in> set ls1. unfit n bs"
    using split_list_first_prop [of lay "\<lambda>bs. \<not> unfit n bs"] by auto
  with rep obtain rs1 r rs2 where rs: "rs = rs1 @ r # rs2" and len: "length rs1 = length ls1"
    by (auto simp: mem_rep_def list_all2_append2 list_all2_Cons2)
  note rep' = rep [unfolded lay(1) rs]
  from lay(2) obtain p bs' where take: "take_block n (region_base r) bs = Some (p, bs')"
    using take_block_None [of n "region_base r" bs] by auto
  have alloc: "alloc_regions rs n m = alloc_regions (r # rs2) n m"
    using alloc_regions_skip [OF mem_rep_split(2) [OF rep' len] lay(3)] rs by simp
  from alloc_region_in_heap [OF rep' len take \<open>0 < n\<close>] obtain m' s where
    m': "alloc_region r n m = Some (p, m')" "mem_rep m' (rs1 @ r # rs2) (ls1 @ bs' # ls2)" "0 < p"
    by blast
  note split = mem_rep_split [OF m'(2) len]
  have "give_back p (region_base r) bs' = Some bs"
    using mem_rep_split(1) [OF rep' len] take_give_back [OF _ take \<open>0 < n\<close>] by (simp add: region_rep_def)
  from free_region_Some [OF split(1) this] obtain m'' where
    m'': "free_region r p m' = Some (True, m'')" "region_rep m'' r bs"
    and frame: "\<And>c. m'' c \<noteq> m' c \<Longrightarrow> c \<in> headers (region_base r) bs'" by blast
  have frame': "region_base r \<le> c \<and> c < region_base r + region_size r" if "m'' c \<noteq> m' c" for c
    using headers_bounds [OF frame [OF that]] split(1) by (simp add: region_rep_def)
  obtain xs s where "p = end_of (region_base r) xs + hdr" "n \<le> s"
      "end_of (region_base r) xs + hdr + s \<le> end_of (region_base r) bs"
    using take_block_SomeD [OF take] end_of_ge by fastforce
  then have pb: "region_base r < p" "p < region_base r + region_size r"
    using mem_rep_split(1) [OF rep' len] end_of_ge [of "region_base r" xs] by (auto simp: region_rep_def)
  have "p \<le> region_base r' \<or> region_base r' + region_size r' \<le> p" if "r' \<in> set rs1" for r'
    using split(4) [of r'] that pb by (auto simp: apart_def)
  then have "free_regions rs p m' = Some m''"
    using free_regions_skip [OF split(2), of p "r # rs2"] m''(1) by (simp add: rs)
  moreover have "mem_rep m'' rs lay"
    using mem_rep_update [OF m'(2) len m''(2) frame'] by (simp add: rs lay(1))
  ultimately show ?thesis using alloc m'(1,3) by auto
qed

section \<open>A small heap to evaluate on\<close>

definition demo_region :: HeapRegion where
  "demo_region = \<lparr>region_base = 4096, region_size = 4096\<rparr>"

definition demo_heap :: heap_state where
  "demo_heap = heap_init demo_region \<lparr>heap_mem = (\<lambda>_. 0), heap_regions = []\<rparr>"

lemma demo_heap_rep: "heap_rep demo_heap [[(4064, True)]]"
  using heap_init_rep [of demo_region] by (simp add: demo_heap_def demo_region_def)

lemma demo_heap_alloc:
  "\<exists>p s h lay. malloc demo_region None 100 demo_heap = Some (p, h) \<and> heap_rep h lay \<and>
     heap_live h lay = {(p, s)} \<and> 100 \<le> s \<and> 0 < p"
proof -
  have "\<not> (\<forall>bs \<in> set [[(4064, True)]]. unfit 100 bs)" by (simp add: unfit_def)
  moreover have "heap_live demo_heap [[(4064, True)]] = {}"
    by (simp add: heap_live_def demo_heap_def heap_init_def)
  ultimately show ?thesis
    using heap_alloc_fit [OF demo_heap_rep, of 100 demo_region None] by (auto simp: malloc_def)
qed

lemma demo_client_start:
  "client_run heap_mem (pages_ok None) (malloc demo_region None) (kfree demo_region) heap_poke
     demo_heap demo_heap Map.empty"
  by (rule client_run.Start)

section \<open>Properties\<close>





text \<open>C10. Freeing a live block, by its address or by any address inside it, takes exactly this
  block out of use: all other live blocks and their bytes stay, and the heap stays intact with
  no two neighbouring free blocks.\<close>

theorem heap_free_correct:
  assumes "heap_rep h lay" and "(p, s) \<in> heap_live h lay" and "p \<le> q" and "q < p + s"
  shows "\<exists>h' lay'. heap_free lh q h = Some h' \<and> heap_rep h' lay' \<and>
           heap_live h' lay' = heap_live h lay - {(p, s)} \<and>
           keeps (heap_live h' lay') (heap_mem h) (heap_mem h') \<and> (\<forall>bs \<in> set lay'. coalesced bs)"
proof -
  from heap_free_ok [OF assms, of lh] obtain h' lay' where
    *: "heap_free lh q h = Some h'" "heap_rep h' lay'" "heap_live h' lay' = heap_live h lay - {(p, s)}"
      "keeps (heap_live h lay) (heap_mem h) (heap_mem h')" by blast
  have "keeps (heap_live h' lay') (heap_mem h) (heap_mem h')"
    by (rule keeps_subset [OF *(4)]) (simp add: *(3) Diff_subset)
  with * heap_rep_coalesced [OF *(2)] show ?thesis by blast
qed

theorem heap_free_correct_witness:
  "\<exists>p h h' lay'. malloc demo_region None 100 demo_heap = Some (p, h) \<and>
     heap_free demo_region (p + 99) h = Some h' \<and> heap_rep h' lay' \<and> heap_live h' lay' = {}"
proof -
  obtain p s h lay where *: "malloc demo_region None 100 demo_heap = Some (p, h)" "heap_rep h lay"
    "heap_live h lay = {(p, s)}" "100 \<le> s" using demo_heap_alloc by blast
  from *(3) have live: "(p, s) \<in> heap_live h lay" by simp
  have "p \<le> p + 99" "p + 99 < p + s" using *(4) by simp_all
  from heap_free_correct [OF *(2) live this, of demo_region] *(1,3) show ?thesis by auto
qed







text \<open>The product of \<open>heap_calloc\<close> is taken modulo \<open>2 ^ 64\<close> without a check: a request that
  overflows is served as a request for the few bytes of the wrapped product.\<close>

theorem heap_calloc_wraps:
  assumes "mul64 count sz \<noteq> 0"
  shows "heap_calloc lh pmm count sz h = heap_calloc lh pmm 1 (mul64 count sz) h"
proof -
  have "count \<noteq> 0" "sz \<noteq> 0" using assms by (cases "count = 0"; cases "sz = 0"; simp add: mul64_def)+
  moreover have "mul64 1 (mul64 count sz) = mul64 count sz" by (simp add: mul64_def)
  ultimately show ?thesis using assms by (simp add: heap_calloc_def cong: if_cong)
qed

theorem heap_calloc_wraps_witness:
  "heap_calloc demo_region None (2 ^ 63 + 1) 2 demo_heap = heap_calloc demo_region None 1 2 demo_heap"
  by (subst heap_calloc_wraps) (simp_all add: mul64_def)



text \<open>\<open>heap_realloc\<close> of an address that \<open>heap_aligned_alloc\<close> returned loses the data: the header
  written there has a null \<open>next\<close>, the old size is taken as 0 and no byte is copied before the
  old block is freed.\<close>

theorem heap_realloc_aligned_copies_nothing:
  assumes "node_magic (heap_mem h) (q - 16) = HEAP_MAGIC" and "node_next (heap_mem h) (q - 16) = 0"
    and "16 \<le> q" and "q < 2 ^ 64" and "0 < n"
  shows "heap_realloc lh pmm erms q n h = do {
           (new_ptr, h) \<leftarrow> heap_alloc lh pmm n h;
           if new_ptr \<noteq> 0 then do { h \<leftarrow> heap_free lh q h; Some (new_ptr, h) } else Some (0, h)
         }"
proof -
  have "sub64 q sizeof_HeapNode = q - 16" using assms by (simp add: sub64_le heap_sizes)
  moreover have "NODE_SIZE (heap_mem h) (q - 16) = 0" using assms by (simp add: NODE_SIZE_def)
  ultimately show ?thesis
    using assms
    by (cases "heap_alloc lh pmm n h") (auto simp: heap_realloc_def Let_def memcpy_def)
qed

theorem heap_realloc_aligned_copies_nothing_witness:
  "\<exists>h. heap_realloc demo_region None False 4216 8 h = do {
     (new_ptr, h) \<leftarrow> heap_alloc demo_region None 8 h;
     if new_ptr \<noteq> 0 then do { h \<leftarrow> heap_free demo_region 4216 h; Some (new_ptr, h) } else Some (0, h)
   }"
  by (rule exI [of _ "demo_heap\<lparr>heap_mem := set_next (set_magic (heap_mem demo_heap) 4200 HEAP_MAGIC) 4200 0\<rparr>"],
      rule heap_realloc_aligned_copies_nothing) (simp_all add: mem_simps)

text \<open>\<open>heap_register_region\<close> with a usable region makes it the second and last region of the
  heap: every other region beyond the first is dropped from the chain, and with no region at
  all the call dereferences a null pointer.\<close>

theorem heap_register_region_behaviour:
  assumes "0 < region_base r" and "32 \<le> region_size r"
  shows "heap_register_region (Some r) h =
     (case heap_regions h of [] \<Rightarrow> None
      | first # rest \<Rightarrow> Some \<lparr>heap_mem = initRegion r (heap_mem h), heap_regions = [first, r]\<rparr>)"
  using assms by (cases h) (auto simp: heap_register_region_def heap_sizes Let_def split: list.split)

theorem heap_register_region_behaviour_witness:
  "heap_register_region (Some demo_region) \<lparr>heap_mem = (\<lambda>_. 0), heap_regions = []\<rparr> = None"
  by (subst heap_register_region_behaviour) (simp_all add: demo_region_def)

end
