(* ===== verification/Pmm.thy ===== *)
theory Pmm
  imports Memory
begin

text \<open>
  The physical page allocator, \<open>kernel/memory/pmm.c\<close>: the list of memory regions that the boot
  code fills from the firmware's memory map, and the operations that merge, split, reserve and
  release regions in it. \<open>memory_regions\<close> is the list of the region objects in list order,
  each with its address, which the code uses as the object's identity; that the pointer list
  behind it behaves as this list is shown in \<open>Linked_List\<close>. Sizes and addresses are
  \<open>size_t\<close> values, with the wrap-around written out. The outcome of an allocation that a
  function makes is an argument of it: for a region object its address (0 when \<open>malloc\<close>
  fails), for a list node whether there was memory for it. A null dereference or a failed
  \<open>ASSERT\<close> is \<open>None\<close>.
\<close>

section \<open>Regions\<close>

datatype MemoryRegionType =
    MR_UNKNOWN | MR_NULL | MR_USABLE | MR_RESERVED | MR_EFI_RT_CODE | MR_EFI_RT_DATA
  | MR_ACPI_RECLAIMABLE | MR_ACPI_NVS | MR_BAD_MEMORY | MR_PCI_RESOURCE | MR_EFI_BS_CODE
  | MR_EFI_BS_DATA | MR_EFI_LOADER_CODE | MR_EFI_LOADER_DATA

record MemoryRegion =
  mr_base :: nat
  mr_size :: nat
  mr_type :: MemoryRegionType

type_synonym regions = "(nat \<times> MemoryRegion) list"

definition mb2_mrType_to_mrType :: "nat \<Rightarrow> MemoryRegionType" where
  "mb2_mrType_to_mrType t =
     (if t = 1 then MR_USABLE
      else if t = 2 then MR_RESERVED
      else if t = 3 then MR_ACPI_RECLAIMABLE
      else if t = 4 then MR_ACPI_NVS
      else if t = 5 then MR_BAD_MEMORY
      else MR_UNKNOWN)"

definition efiType_to_mrType :: "nat \<Rightarrow> MemoryRegionType" where
  "efiType_to_mrType t =
     (if t = 0 then MR_RESERVED
      else if t = 1 then MR_EFI_LOADER_CODE
      else if t = 2 then MR_EFI_LOADER_DATA
      else if t = 3 then MR_EFI_BS_CODE
      else if t = 4 then MR_EFI_BS_DATA
      else if t = 5 then MR_EFI_RT_CODE
      else if t = 6 then MR_EFI_RT_DATA
      else if t = 7 then MR_USABLE
      else if t = 8 then MR_BAD_MEMORY
      else if t = 9 then MR_ACPI_RECLAIMABLE
      else if t = 10 then MR_ACPI_NVS
      else if t = 11 then MR_PCI_RESOURCE
      else if t = 12 then MR_PCI_RESOURCE
      else if t = 13 then MR_RESERVED
      else if t = 14 then MR_RESERVED
      else MR_UNKNOWN)"

fun mrTypeToString :: "MemoryRegionType \<Rightarrow> string" where
  "mrTypeToString MR_UNKNOWN = ''UNKNOWN''"
| "mrTypeToString MR_NULL = ''NULL''"
| "mrTypeToString MR_USABLE = ''USABLE''"
| "mrTypeToString MR_RESERVED = ''RESERVED''"
| "mrTypeToString MR_EFI_RT_CODE = ''EFI_RT_CODE''"
| "mrTypeToString MR_EFI_RT_DATA = ''EFI_RT_DATA''"
| "mrTypeToString MR_ACPI_RECLAIMABLE = ''ACPI_RECLAIMABLE''"
| "mrTypeToString MR_ACPI_NVS = ''ACPI_NVS''"
| "mrTypeToString MR_BAD_MEMORY = ''BAD_MEMORY''"
| "mrTypeToString MR_PCI_RESOURCE = ''PCI_RESOURCE''"
| "mrTypeToString MR_EFI_BS_CODE = ''EFI_BS_CODE''"
| "mrTypeToString MR_EFI_BS_DATA = ''EFI_BS_DATA''"
| "mrTypeToString MR_EFI_LOADER_CODE = ''EFI_LOADER_CODE''"
| "mrTypeToString MR_EFI_LOADER_DATA = ''EFI_LOADER_DATA''"

definition mr_end :: "MemoryRegion \<Rightarrow> nat" where
  "mr_end r = add64 (mr_base r) (mr_size r)"

text \<open>The calls to \<open>list.c\<close>: at the end of the list \<open>List_InsertAt\<close> reports success even when
  there was no memory for the node.\<close>

definition region_insert :: "regions \<Rightarrow> nat \<Rightarrow> nat \<times> MemoryRegion \<Rightarrow> bool \<Rightarrow> bool \<times> regions" where
  "region_insert rs i x node_ok =
     (if i > length rs then (False, rs)
      else if i = length rs then (True, if node_ok then rs @ [x] else rs)
      else if node_ok then (True, insert_nth i x rs) else (False, rs))"

fun region_remove :: "nat \<Rightarrow> regions \<Rightarrow> regions" where
  "region_remove x [] = []"
| "region_remove x (r # rs) = (if fst r = x then rs else r # region_remove x rs)"

section \<open>Merging\<close>

function (sequential) maintain_loop :: "regions \<Rightarrow> regions" where
  "maintain_loop ((i, cur) # (j, nxt) # rs) =
     (if mr_type cur = MR_USABLE \<and> mr_type nxt = MR_USABLE \<and> mr_base nxt \<le> mr_end cur then
        let new_base = (if mr_base cur < mr_base nxt then mr_base cur else mr_base nxt);
            new_end = (if mr_end cur > mr_end nxt then mr_end cur else mr_end nxt)
        in maintain_loop ((i, cur\<lparr>mr_base := new_base, mr_size := sub64 new_end new_base\<rparr>) # rs)
      else (i, cur) # maintain_loop ((j, nxt) # rs))"
| "maintain_loop rs = rs"
  by pat_completeness auto
termination by (relation "measure length") auto

definition pmm_maintain :: "regions \<Rightarrow> regions" where
  "pmm_maintain rs = (if rs = [] then rs else maintain_loop rs)"

section \<open>Allocation\<close>

text \<open>The allocations \<open>pmm_alloc\<close> may make, in the order it makes them.\<close>

record pmm_mallocs =
  alloc_mem :: nat
  alloc_node :: bool
  suffix_mem :: nat
  suffix_node :: bool

definition PAGE :: nat where "PAGE = 4096"

definition aligned_base :: "MemoryRegion \<Rightarrow> nat" where
  "aligned_base r = align_up64 (mr_base r) PAGE"

definition fits :: "nat \<Rightarrow> MemoryRegion \<Rightarrow> bool" where
  "fits alloc_size r \<longleftrightarrow>
     mr_type r = MR_USABLE \<and> \<not> aligned_base r < mr_base r \<and>
     \<not> mr_size r < add64 (aligned_base r - mr_base r) alloc_size"

text \<open>What the loop body does with the region it settles on, at index \<open>i\<close> of the list.\<close>

definition alloc_from :: "pmm_mallocs \<Rightarrow> nat \<Rightarrow> regions \<Rightarrow> nat \<Rightarrow> nat \<times> regions" where
  "alloc_from env alloc_size rs i =
     (let (p, cur) = rs ! i;
          gap = aligned_base cur - mr_base cur;
          cur_end = mr_end cur;
          alloc_end = add64 (aligned_base cur) alloc_size
      in
      if gap = 0 \<and> mr_size cur = alloc_size then
        (mr_base cur, rs[i := (p, cur\<lparr>mr_type := MR_RESERVED\<rparr>)])
      else if gap = 0 then
        let ret = mr_base cur;
            rs = rs[i := (p, cur\<lparr>mr_type := MR_RESERVED, mr_size := alloc_size\<rparr>)]
        in if alloc_end < cur_end then
             if suffix_mem env = 0 then (0, rs)
             else
               let suffix = \<lparr>mr_base = alloc_end, mr_size = sub64 cur_end alloc_end, mr_type = MR_USABLE\<rparr>;
                   (ok, rs) = region_insert rs (i + 1) (suffix_mem env, suffix) (suffix_node env)
               in if \<not> ok then (0, rs) else (ret, rs)
           else (ret, rs)
      else if alloc_mem env = 0 then (0, rs)
      else
        let region = \<lparr>mr_base = aligned_base cur, mr_size = alloc_size, mr_type = MR_RESERVED\<rparr>;
            rs = rs[i := (p, cur\<lparr>mr_size := gap\<rparr>)];
            (ok, rs) = region_insert rs (i + 1) (alloc_mem env, region) (alloc_node env)
        in if \<not> ok then (0, rs)
           else if alloc_end < cur_end then
             if suffix_mem env = 0 then (0, rs)
             else
               let suffix = \<lparr>mr_base = alloc_end, mr_size = sub64 cur_end alloc_end, mr_type = MR_USABLE\<rparr>;
                   (ok, rs) = region_insert rs (i + 2) (suffix_mem env, suffix) (suffix_node env)
               in if \<not> ok then (0, rs) else (mr_base region, rs)
           else (mr_base region, rs))"

definition pmm_alloc_size :: "nat \<Rightarrow> nat" where
  "pmm_alloc_size sizeInKB = align_up64 (sizeInKB * 1024) PAGE"

definition pmm_alloc :: "pmm_mallocs \<Rightarrow> nat \<Rightarrow> regions \<Rightarrow> nat \<times> regions" where
  "pmm_alloc env sizeInKB rs =
     (if sizeInKB = 0 then (0, rs)
      else if sizeInKB > (2 ^ 64 - 1) div 1024 then (0, rs)
      else
        let alloc_size = pmm_alloc_size sizeInKB in
        if alloc_size = 0 then (0, rs)
        else
          let rs = pmm_maintain rs in
          (case first_index (\<lambda>(p, r). fits alloc_size r) rs of
             None \<Rightarrow> (0, rs)
           | Some i \<Rightarrow> alloc_from env alloc_size rs i))"

section \<open>Release\<close>

text \<open>One pass of the merging loop: the first usable region that touches or overlaps the freed
  one, in list order, with its new bounds.\<close>

fun find_merge :: "nat \<Rightarrow> MemoryRegion \<Rightarrow> regions \<Rightarrow> (nat \<times> MemoryRegion) option" where
  "find_merge f fr [] = None"
| "find_merge f fr ((p, mr) # rs) =
     (if p = f \<or> mr_type mr \<noteq> MR_USABLE then find_merge f fr rs
      else if \<not> (mr_base mr > mr_end fr \<or> mr_end mr < mr_base fr) then
        let new_base = (if mr_base fr < mr_base mr then mr_base fr else mr_base mr);
            new_end = (if mr_end fr > mr_end mr then mr_end fr else mr_end mr)
        in Some (p, fr\<lparr>mr_base := new_base, mr_size := sub64 new_end new_base\<rparr>)
      else if mr_end mr = mr_base fr then
        Some (p, fr\<lparr>mr_base := mr_base mr, mr_size := add64 (mr_size fr) (mr_size mr)\<rparr>)
      else if mr_end fr = mr_base mr then
        Some (p, fr\<lparr>mr_size := add64 (mr_size fr) (mr_size mr)\<rparr>)
      else find_merge f fr rs)"

text \<open>Storing the freed region object, which the list holds by its address.\<close>

definition region_set :: "nat \<Rightarrow> MemoryRegion \<Rightarrow> regions \<Rightarrow> regions" where
  "region_set f fr rs = map (\<lambda>(p, r). if p = f then (p, fr) else (p, r)) rs"

lemma find_merge_mem: "find_merge f fr rs = Some (p, r) \<Longrightarrow> p \<in> fst ` set rs \<and> p \<noteq> f"
  by (induction rs) (auto simp: Let_def split: if_splits)

lemma fst_region_set [simp]: "map fst (region_set f fr rs) = map fst rs"
  by (auto simp: region_set_def)

lemma length_region_set [simp]: "length (region_set f fr rs) = length rs"
  by (simp add: region_set_def)

lemma length_region_remove: "p \<in> fst ` set rs \<Longrightarrow> length (region_remove p rs) < length rs"
  by (induction rs) auto

function merge_loop :: "nat \<Rightarrow> MemoryRegion \<Rightarrow> regions \<Rightarrow> regions" where
  "merge_loop f fr rs =
     (case find_merge f fr rs of None \<Rightarrow> rs
      | Some (p, fr') \<Rightarrow> merge_loop f fr' (region_remove p (region_set f fr' rs)))"
  by pat_completeness auto
termination
proof (relation "measure (\<lambda>(f, fr, rs). length rs)")
  fix f fr rs x p fr'
  assume "find_merge f fr rs = Some x" "(p, fr') = x"
  then have "p \<in> fst ` set rs" using find_merge_mem by blast
  then have "p \<in> fst ` set (region_set f fr' rs)"
    using fst_region_set [of f fr' rs] by (metis list.set_map)
  from length_region_remove [OF this]
  show "((f, fr', region_remove p (region_set f fr' rs)), f, fr, rs) \<in> measure (\<lambda>(f, fr, rs). length rs)"
    by simp
qed simp

declare merge_loop.simps [simp del]

definition pmm_free :: "nat \<Rightarrow> regions \<Rightarrow> regions" where
  "pmm_free ptr rs =
     (if ptr = 0 then rs
      else
        let addr = (if ptr mod 4096 \<noteq> 0 then ptr - ptr mod 4096 else ptr) in
        (case find (\<lambda>(p, r). mr_base r = addr) rs of
           None \<Rightarrow> rs
         | Some (f, freed) \<Rightarrow>
             if mr_type freed = MR_USABLE then rs
             else
               let fr = freed\<lparr>mr_type := MR_USABLE\<rparr>
               in merge_loop f fr (region_set f fr rs)))"

section \<open>Start-up\<close>

text \<open>The Multiboot2 memory map: the size of the tag, the size of an entry and the entries.
  Allocations for a region object and its list node come as a list of outcomes, used in order.\<close>

record mmap_entry =
  entry_addr :: nat
  entry_len :: nat
  entry_type :: nat

record mmap_tag =
  tag_size :: nat
  tag_entry_size :: nat
  tag_entries :: "nat \<Rightarrow> mmap_entry"

definition sizeof_mmap_tag :: nat where "sizeof_mmap_tag = 16"

type_synonym outcomes = "(nat \<times> bool) list"

text \<open>\<open>List_Add\<close> of a new region object; writing to it when \<open>malloc\<close> failed is a null
  dereference.\<close>

definition region_add :: "MemoryRegion \<Rightarrow> outcomes \<Rightarrow> regions \<Rightarrow> (outcomes \<times> regions) option" where
  "region_add r env rs =
     (case env of [] \<Rightarrow> None
      | (p, node_ok) # env' \<Rightarrow>
          if p = 0 then None else Some (env', if node_ok then rs @ [(p, r)] else rs))"

primrec bios_entries :: "mmap_tag \<Rightarrow> nat \<Rightarrow> nat \<Rightarrow> outcomes \<Rightarrow> regions \<Rightarrow> (outcomes \<times> regions) option" where
  "bios_entries tag 0 i env rs = Some (env, rs)"
| "bios_entries tag (Suc k) i env rs = do {
     let entry = tag_entries tag i;
     (env, rs) \<leftarrow> region_add \<lparr>mr_base = entry_addr entry, mr_size = entry_len entry,
                     mr_type = mb2_mrType_to_mrType (entry_type entry)\<rparr> env rs;
     bios_entries tag k (i + 1) env rs
   }"

definition bios_mr_init :: "mmap_tag option \<Rightarrow> outcomes \<Rightarrow> regions \<Rightarrow> (outcomes \<times> regions) option" where
  "bios_mr_init mb2_mmap env rs =
     (case mb2_mmap of None \<Rightarrow> None
      | Some tag \<Rightarrow>
          if tag_entry_size tag = 0 then None
          else bios_entries tag (sub64 (tag_size tag) sizeof_mmap_tag div tag_entry_size tag) 0 env [])"

text \<open>What the firmware's \<open>GetMemoryMap\<close> delivers; \<open>None\<close> when one of the two calls does not
  return what the code asserts.\<close>

record efi_descriptor =
  physical_start :: nat
  number_of_pages :: nat
  efi_type :: nat

primrec efi_entries :: "efi_descriptor list \<Rightarrow> outcomes \<Rightarrow> regions \<Rightarrow> (outcomes \<times> regions) option" where
  "efi_entries [] env rs = Some (env, rs)"
| "efi_entries (d # ds) env rs = do {
     (env, rs) \<leftarrow> region_add \<lparr>mr_base = physical_start d, mr_size = mul64 (number_of_pages d) 4096,
                     mr_type = efiType_to_mrType (efi_type d)\<rparr> env rs;
     efi_entries ds env rs
   }"

definition efi_mr_init ::
  "mmap_tag option \<Rightarrow> efi_descriptor list option \<Rightarrow> outcomes \<Rightarrow> regions \<Rightarrow> (outcomes \<times> regions) option" where
  "efi_mr_init mb2_mmap efi_map env rs =
     (if mb2_mmap \<noteq> None then bios_mr_init mb2_mmap env rs
      else (case efi_map of None \<Rightarrow> None | Some ds \<Rightarrow> efi_entries ds env rs))"

text \<open>The loop that reserves everything below the end of the kernel. A region inserted behind the
  current one is visited next, as in the code.\<close>

function (sequential) reserve_kernel :: "nat \<Rightarrow> outcomes \<Rightarrow> regions \<Rightarrow> (outcomes \<times> regions) option" where
  "reserve_kernel kernel_end env [] = Some (env, [])"
| "reserve_kernel kernel_end env ((p, r) # rs) =
     (if mr_base r < kernel_end then
        if mr_end r > kernel_end then
          (case env of [] \<Rightarrow> None
           | (q, node_ok) # env' \<Rightarrow>
               if q = 0 then None
               else
                 let new_region = \<lparr>mr_base = kernel_end, mr_size = sub64 (mr_end r) kernel_end,
                                   mr_type = MR_USABLE\<rparr>;
                     r' = r\<lparr>mr_size := kernel_end - mr_base r, mr_type := MR_RESERVED\<rparr>
                 in map_option (apsnd ((#) (p, r')))
                      (reserve_kernel kernel_end env' (if node_ok then (q, new_region) # rs else rs)))
        else map_option (apsnd ((#) (p, r\<lparr>mr_type := MR_RESERVED\<rparr>)))
               (reserve_kernel kernel_end env rs)
      else map_option (apsnd ((#) (p, r))) (reserve_kernel kernel_end env rs))"
  by pat_completeness auto
termination
  by (relation "measures [\<lambda>(k, env, rs). length (filter (\<lambda>(p, r). mr_base r < k) rs),
                          \<lambda>(k, env, rs). length rs]") auto

text \<open>The loop that carves the framebuffer out of the regions it overlaps.\<close>

function (sequential) reserve_fb ::
  "nat \<Rightarrow> nat \<Rightarrow> nat \<Rightarrow> outcomes \<Rightarrow> regions \<Rightarrow> (outcomes \<times> regions) option" where
  "reserve_fb fb_start fb_end fb_size env [] = Some (env, [])"
| "reserve_fb fb_start fb_end fb_size env ((p, r) # rs) =
     (if mr_base r < fb_end \<and> mr_end r > fb_start then
        if mr_base r < fb_start \<and> mr_end r > fb_end then
          (case env of (q1, node1) # (q2, node2) # env' \<Rightarrow>
             if q1 = 0 \<or> q2 = 0 then None
             else
               let new_region = \<lparr>mr_base = fb_end, mr_size = sub64 (mr_end r) fb_end,
                                 mr_type = mr_type r\<rparr>;
                   fb_region = \<lparr>mr_base = fb_start, mr_size = fb_size, mr_type = MR_RESERVED\<rparr>;
                   rs = (if node1 then (q1, new_region) # rs else rs);
                   rs = (if node2 then (q2, fb_region) # rs else rs)
               in map_option (apsnd ((#) (p, r\<lparr>mr_size := fb_start - mr_base r\<rparr>)))
                    (reserve_fb fb_start fb_end fb_size env' rs)
           | _ \<Rightarrow> None)
        else if mr_base r < fb_start \<and> mr_end r \<le> fb_end then
          map_option (apsnd ((#) (p, r\<lparr>mr_size := fb_start - mr_base r\<rparr>)))
            (reserve_fb fb_start fb_end fb_size env rs)
        else if mr_base r \<ge> fb_start \<and> mr_end r > fb_end then
          map_option (apsnd ((#) (p, r\<lparr>mr_base := fb_end, mr_size := mr_end r - fb_end\<rparr>)))
            (reserve_fb fb_start fb_end fb_size env rs)
        else map_option (apsnd ((#) (p, r\<lparr>mr_type := MR_RESERVED\<rparr>)))
               (reserve_fb fb_start fb_end fb_size env rs)
      else map_option (apsnd ((#) (p, r))) (reserve_fb fb_start fb_end fb_size env rs))"
  by pat_completeness auto
termination
  by (relation "measures [\<lambda>(a, e, s, env, rs). length (filter (\<lambda>(p, r). mr_base r < a \<and> mr_base r < e) rs),
                          \<lambda>(a, e, s, env, rs). length rs]") auto

text \<open>\<open>main_screen.mode\<close>: the framebuffer's address (0 when there is none), its pitch and its
  height.\<close>

record screen_mode =
  framebuffer :: nat
  pitch :: nat
  height :: nat

definition fb_reserved_size :: "screen_mode \<Rightarrow> nat" where
  "fb_reserved_size mode =
     (let sz = mul64 (pitch mode) (height mode)
      in if sz mod 4096 \<noteq> 0 then mul64 (sz div 4096 + 1) 4096 else sz)"

definition pmm_init ::
  "bool \<Rightarrow> mmap_tag option \<Rightarrow> efi_descriptor list option \<Rightarrow> nat \<Rightarrow> screen_mode \<Rightarrow> outcomes \<Rightarrow> regions option" where
  "pmm_init efi_boot mb2_mmap efi_map kernel_end mode env = do {
     (env, rs) \<leftarrow> (if efi_boot then efi_mr_init mb2_mmap efi_map env []
                   else bios_mr_init mb2_mmap env []);
     (env, rs) \<leftarrow> reserve_kernel kernel_end env rs;
     if framebuffer mode \<noteq> 0 then do {
       let sz = fb_reserved_size mode;
       (env, rs) \<leftarrow> reserve_fb (framebuffer mode) (add64 (framebuffer mode) sz) sz env rs;
       Some rs
     } else Some rs
   }"

section \<open>Well-formed region lists\<close>

definition span :: "MemoryRegion \<Rightarrow> nat set" where
  "span r = {mr_base r..<mr_base r + mr_size r}"

definition region_ok :: "MemoryRegion \<Rightarrow> bool" where
  "region_ok r \<longleftrightarrow> 0 < mr_size r \<and> mr_base r + mr_size r < 2 ^ 64"

definition below :: "nat \<times> MemoryRegion \<Rightarrow> nat \<times> MemoryRegion \<Rightarrow> bool" where
  "below x y \<longleftrightarrow> mr_base (snd x) + mr_size (snd x) \<le> mr_base (snd y)"

text \<open>In address order, without overlap, with distinct region objects.\<close>

definition pmm_wf :: "regions \<Rightarrow> bool" where
  "pmm_wf rs \<longleftrightarrow>
     sorted_wrt below rs \<and> distinct (map fst rs) \<and> (\<forall>x \<in> set rs. fst x \<noteq> 0 \<and> region_ok (snd x))"

definition usable :: "regions \<Rightarrow> nat set" where
  "usable rs = (\<Union>x \<in> set rs. if mr_type (snd x) = MR_USABLE then span (snd x) else {})"

definition taken :: "regions \<Rightarrow> regions" where
  "taken rs = filter (\<lambda>x. mr_type (snd x) \<noteq> MR_USABLE) rs"

lemma mr_end_ok [simp]: "region_ok r \<Longrightarrow> mr_end r = mr_base r + mr_size r"
  by (simp add: mr_end_def add64_small region_ok_def)

lemma usable_simps [simp]:
  "usable [] = {}"
  "usable (x # rs) = (if mr_type (snd x) = MR_USABLE then span (snd x) else {}) \<union> usable rs"
  "usable (rs @ rs') = usable rs \<union> usable rs'"
  by (auto simp: usable_def)

lemma taken_simps [simp]:
  "taken [] = []"
  "taken (x # rs) = (if mr_type (snd x) = MR_USABLE then taken rs else x # taken rs)"
  "taken (rs @ rs') = taken rs @ taken rs'"
  by (auto simp: taken_def)

lemma pmm_wf_Nil [simp]: "pmm_wf []"
  by (simp add: pmm_wf_def)

lemma pmm_wf_Cons:
  "pmm_wf (x # rs) \<longleftrightarrow> pmm_wf rs \<and> fst x \<noteq> 0 \<and> region_ok (snd x) \<and> fst x \<notin> fst ` set rs \<and>
     (\<forall>y \<in> set rs. below x y)"
  by (auto simp: pmm_wf_def)

lemma pmm_wf_append:
  "pmm_wf (rs @ rs') \<longleftrightarrow> pmm_wf rs \<and> pmm_wf rs' \<and> fst ` set rs \<inter> fst ` set rs' = {} \<and>
     (\<forall>x \<in> set rs. \<forall>y \<in> set rs'. below x y)"
  by (auto simp: pmm_wf_def sorted_wrt_append)

lemmas pmm_wf_simps = pmm_wf_Cons pmm_wf_append

lemma usable_bounds:
  "a \<in> usable rs \<Longrightarrow> \<exists>x \<in> set rs. mr_base (snd x) \<le> a \<and> a < mr_base (snd x) + mr_size (snd x)"
  by (auto simp: usable_def span_def split: if_splits)

lemma merge_two:
  assumes "region_ok c" and "region_ok n" and "mr_base c + mr_size c = mr_base n"
  shows "sub64 (mr_base n + mr_size n) (mr_base c) = mr_size c + mr_size n"
  using assms by (subst sub64_le) (auto simp: region_ok_def)

section \<open>Merging keeps the usable memory\<close>

lemma maintain_step:
  assumes wf: "pmm_wf ((i, cur) # (j, nxt) # rs)" and "mr_base nxt \<le> mr_end cur"
  shows "(if mr_base cur < mr_base nxt then mr_base cur else mr_base nxt) = mr_base cur"
    and "(if mr_end cur > mr_end nxt then mr_end cur else mr_end nxt) = mr_base nxt + mr_size nxt"
    and "mr_base cur + mr_size cur = mr_base nxt"
  using assms by (auto simp: pmm_wf_simps below_def region_ok_def)

lemma pmm_wf_merge_two:
  assumes "pmm_wf (xs @ (i, c) # (j, n) # ys)" and "mr_base c + mr_size c = mr_base n"
    and "k \<in> {i, j}" and "mr_base m = mr_base c" and "mr_size m = mr_size c + mr_size n"
  shows "pmm_wf (xs @ (k, m) # ys)"
  using assms by (auto simp: pmm_wf_simps below_def region_ok_def)

lemma span_merge_two:
  "mr_base c + mr_size c = mr_base n \<Longrightarrow> mr_base m = mr_base c \<Longrightarrow> mr_size m = mr_size c + mr_size n \<Longrightarrow>
     span m = span c \<union> span n"
  by (auto simp: span_def)

lemma pmm_wf_hd_least: "pmm_wf rs \<Longrightarrow> y \<in> set rs \<Longrightarrow> mr_base (snd (hd rs)) \<le> mr_base (snd y)"
  by (cases rs) (auto simp: pmm_wf_Cons below_def)

definition same_memory :: "regions \<Rightarrow> regions \<Rightarrow> bool" where
  "same_memory rs rs' \<longleftrightarrow>
     pmm_wf rs' \<and> usable rs' = usable rs \<and> taken rs' = taken rs \<and> fst ` set rs' \<subseteq> fst ` set rs"

lemma maintain_loop_same:
  "pmm_wf rs \<Longrightarrow>
     same_memory rs (maintain_loop rs) \<and>
     (rs \<noteq> [] \<longrightarrow> maintain_loop rs \<noteq> [] \<and> mr_base (snd (hd (maintain_loop rs))) = mr_base (snd (hd rs)))"
proof (induction rs rule: maintain_loop.induct)
  case (1 i cur j nxt rs)
  note wf = "1.prems"
  show ?case
  proof (cases "mr_type cur = MR_USABLE \<and> mr_type nxt = MR_USABLE \<and> mr_base nxt \<le> mr_end cur")
    case merge: True
    note step = maintain_step [OF wf conjunct2 [OF conjunct2 [OF merge]]]
    have ok: "region_ok cur" "region_ok nxt" using wf by (auto simp: pmm_wf_Cons)
    define m where "m = cur\<lparr>mr_base := mr_base cur, mr_size := mr_size cur + mr_size nxt\<rparr>"
    have m: "mr_base m = mr_base cur" "mr_size m = mr_size cur + mr_size nxt" "mr_type m = mr_type cur"
      by (simp_all add: m_def)
    have eq: "maintain_loop ((i, cur) # (j, nxt) # rs) = maintain_loop ((i, m) # rs)"
      using merge step merge_two [OF ok step(3)] by (simp add: Let_def m_def)
    have wf': "pmm_wf ((i, m) # rs)"
      using pmm_wf_merge_two [of "[]" i cur j nxt rs i m] wf step(3) m by simp
    have IH: "same_memory ((i, m) # rs) (maintain_loop ((i, m) # rs)) \<and>
        maintain_loop ((i, m) # rs) \<noteq> [] \<and> mr_base (snd (hd (maintain_loop ((i, m) # rs)))) = mr_base m"
      using "1.IH"(1) [OF merge refl refl] step merge_two [OF ok step(3)] wf' by (simp add: m_def)
    have "same_memory ((i, cur) # (j, nxt) # rs) (maintain_loop ((i, m) # rs))"
      using IH merge span_merge_two [OF step(3) m(1,2)] m(3) unfolding same_memory_def by auto
    with IH m eq show ?thesis by (simp del: maintain_loop.simps)
  next
    case False
    have wf': "pmm_wf ((j, nxt) # rs)" using wf by (simp add: pmm_wf_Cons)
    let ?rs = "maintain_loop ((j, nxt) # rs)"
    have IH: "same_memory ((j, nxt) # rs) ?rs" "?rs \<noteq> []" "mr_base (snd (hd ?rs)) = mr_base nxt"
      using "1.IH"(2) [OF False wf'] by auto
    have "below (i, cur) y" if "y \<in> set ?rs" for y
      using pmm_wf_hd_least [of ?rs y] that IH(1,3) wf
      by (auto simp: same_memory_def pmm_wf_Cons below_def)
    with IH(1) wf have "same_memory ((i, cur) # (j, nxt) # rs) ((i, cur) # ?rs)"
      by (auto simp: same_memory_def pmm_wf_Cons split: if_splits)
    moreover have "maintain_loop ((i, cur) # (j, nxt) # rs) = (i, cur) # ?rs"
      using False by (simp only: maintain_loop.simps if_False)
    ultimately show ?thesis by (simp del: maintain_loop.simps)
  qed
qed (auto simp: same_memory_def)

lemma pmm_maintain_same: "pmm_wf rs \<Longrightarrow> same_memory rs (pmm_maintain rs)"
  using maintain_loop_same by (auto simp: pmm_maintain_def same_memory_def)

section \<open>Allocation takes pages out of the usable memory\<close>

lemma fits_bounds:
  assumes "fits n r" and "region_ok r" and "n \<le> 2 ^ 64 - 4096"
  shows "4096 dvd aligned_base r" and "mr_base r \<le> aligned_base r"
    and "aligned_base r + n \<le> mr_base r + mr_size r" and "mr_type r = MR_USABLE"
proof -
  have base: "mr_base r < 2 ^ 64" using assms(2) by (simp add: region_ok_def)
  have small: "mr_base r + 2 ^ 12 \<le> 2 ^ 64"
  proof (rule ccontr)
    assume "\<not> ?thesis"
    then have "aligned_base r = 0" and "0 < mr_base r"
      using align_up64_wrap [OF base, of 12] by (simp_all add: aligned_base_def PAGE_def)
    with assms(1) show False by (simp add: fits_def)
  qed
  show "4096 dvd aligned_base r" "mr_base r \<le> aligned_base r"
    using align_up64_bounds(1,2) [OF _ small] by (simp_all add: aligned_base_def PAGE_def)
  have "aligned_base r < mr_base r + 4096"
    using align_up64_bounds(3) [OF _ small] by (simp add: aligned_base_def PAGE_def)
  then have "aligned_base r - mr_base r < 4096" by linarith
  then have "add64 (aligned_base r - mr_base r) n = aligned_base r - mr_base r + n"
    using assms(3) by (intro add64_small) simp
  then show "aligned_base r + n \<le> mr_base r + mr_size r"
    using assms(1) \<open>mr_base r \<le> aligned_base r\<close> unfolding fits_def by linarith
  show "mr_type r = MR_USABLE" using assms(1) by (simp add: fits_def)
qed

text \<open>The pieces a region is split into: what stays in front, the reserved part and what is left
  behind it. A failed allocation drops the second or third piece.\<close>

definition front_piece :: "nat \<Rightarrow> MemoryRegion \<Rightarrow> regions" where
  "front_piece p cur =
     (if aligned_base cur = mr_base cur then []
      else [(p, cur\<lparr>mr_size := aligned_base cur - mr_base cur\<rparr>)])"

definition taken_piece :: "pmm_mallocs \<Rightarrow> nat \<Rightarrow> nat \<Rightarrow> MemoryRegion \<Rightarrow> nat \<times> MemoryRegion" where
  "taken_piece env n p cur =
     (if aligned_base cur = mr_base cur then p else alloc_mem env,
      \<lparr>mr_base = aligned_base cur, mr_size = n, mr_type = MR_RESERVED\<rparr>)"

definition rest_piece :: "pmm_mallocs \<Rightarrow> nat \<Rightarrow> MemoryRegion \<Rightarrow> nat \<times> MemoryRegion" where
  "rest_piece env n cur =
     (suffix_mem env,
      \<lparr>mr_base = aligned_base cur + n,
       mr_size = mr_base cur + mr_size cur - (aligned_base cur + n), mr_type = MR_USABLE\<rparr>)"

definition split_region ::
  "pmm_mallocs \<Rightarrow> nat \<Rightarrow> nat \<Rightarrow> MemoryRegion \<Rightarrow> bool \<Rightarrow> bool \<Rightarrow> regions" where
  "split_region env n p cur a b =
     front_piece p cur @ (if a then [taken_piece env n p cur] else []) @
     (if b then [rest_piece env n cur] else [])"

definition env_fresh :: "pmm_mallocs \<Rightarrow> regions \<Rightarrow> bool" where
  "env_fresh env rs \<longleftrightarrow>
     alloc_mem env \<notin> fst ` set rs \<and> suffix_mem env \<notin> fst ` set rs \<and>
     (alloc_mem env = suffix_mem env \<longrightarrow> alloc_mem env = 0)"

definition env_ok :: "pmm_mallocs \<Rightarrow> bool" where
  "env_ok env \<longleftrightarrow> alloc_mem env \<noteq> 0 \<and> suffix_mem env \<noteq> 0 \<and> alloc_node env \<and> suffix_node env"

definition split_flags :: "pmm_mallocs \<Rightarrow> nat \<Rightarrow> MemoryRegion \<Rightarrow> bool \<Rightarrow> bool \<Rightarrow> bool" where
  "split_flags env n cur a b \<longleftrightarrow>
     (aligned_base cur = mr_base cur \<longrightarrow> a) \<and>
     (a \<longrightarrow> aligned_base cur \<noteq> mr_base cur \<longrightarrow> alloc_mem env \<noteq> 0) \<and>
     (b \<longrightarrow> suffix_mem env \<noteq> 0 \<and> aligned_base cur + n < mr_base cur + mr_size cur)"

lemma region_insert_at:
  "region_insert (xs @ x # ys) (Suc (length xs)) y ok =
     (if ok then (True, xs @ x # y # ys) else (ys = [], xs @ x # ys))"
  using insert_nth_append [of "xs @ [x]" y ys]
  by (auto simp: region_insert_def)

lemma region_insert_at2:
  "region_insert (xs @ x # x' # ys) (Suc (Suc (length xs))) y ok =
     (if ok then (True, xs @ x # x' # y # ys) else (ys = [], xs @ x # x' # ys))"
  using insert_nth_append [of "xs @ [x, x']" y ys]
  by (auto simp: region_insert_def)

lemma alloc_from_aligned:
  assumes fit: "fits n cur" and ok: "region_ok cur" and n: "n \<le> 2 ^ 64 - 4096"
    and aligned: "aligned_base cur = mr_base cur"
  shows "alloc_from env n (xs @ (p, cur) # ys) (length xs) =
    (if mr_size cur = n then (mr_base cur, xs @ taken_piece env n p cur # ys)
     else if suffix_mem env = 0 then (0, xs @ taken_piece env n p cur # ys)
     else if suffix_node env then (mr_base cur, xs @ taken_piece env n p cur # rest_piece env n cur # ys)
     else (if ys = [] then mr_base cur else 0, xs @ taken_piece env n p cur # ys))"
proof -
  note fb = fits_bounds [OF fit ok n]
  have e: "mr_end cur = mr_base cur + mr_size cur" "mr_base cur + mr_size cur < 2 ^ 64"
    using ok by (simp_all add: region_ok_def)
  have kn: "add64 (mr_base cur) n = mr_base cur + n" "n \<le> mr_size cur"
    using fb(3) e(2) aligned by (simp_all add: add64_small)
  have suf: "sub64 (mr_base cur + mr_size cur) (mr_base cur + n) = mr_size cur - n"
    using fb(3) e(2) aligned by (simp add: sub64_le)
  have "cur\<lparr>mr_type := MR_RESERVED\<rparr> = snd (taken_piece env n p cur)" if "mr_size cur = n"
    using that aligned by (cases cur) (simp add: taken_piece_def)
  then show ?thesis
    using aligned kn suf e(1)
    by (auto simp: alloc_from_def Let_def region_insert_at taken_piece_def rest_piece_def)
qed

lemma alloc_from_gap:
  assumes fit: "fits n cur" and ok: "region_ok cur" and n: "n \<le> 2 ^ 64 - 4096"
    and gap: "aligned_base cur \<noteq> mr_base cur"
  shows "alloc_from env n (xs @ (p, cur) # ys) (length xs) =
    (let k = aligned_base cur; front = (p, cur\<lparr>mr_size := k - mr_base cur\<rparr>);
         more = (k + n < mr_base cur + mr_size cur) in
     if alloc_mem env = 0 then (0, xs @ (p, cur) # ys)
     else if alloc_node env then
       if \<not> more then (k, xs @ front # taken_piece env n p cur # ys)
       else if suffix_mem env = 0 then (0, xs @ front # taken_piece env n p cur # ys)
       else if suffix_node env then
         (k, xs @ front # taken_piece env n p cur # rest_piece env n cur # ys)
       else (if ys = [] then k else 0, xs @ front # taken_piece env n p cur # ys)
     else (if ys = [] \<and> \<not> more then k else 0, xs @ front # ys))"
proof -
  note fb = fits_bounds [OF fit ok n]
  have e: "mr_end cur = mr_base cur + mr_size cur" "mr_base cur + mr_size cur < 2 ^ 64"
    using ok by (simp_all add: region_ok_def)
  have kn: "add64 (aligned_base cur) n = aligned_base cur + n" "\<not> aligned_base cur \<le> mr_base cur"
    using fb(2,3) e(2) gap by (simp_all add: add64_small)
  have suf: "sub64 (mr_base cur + mr_size cur) (aligned_base cur + n) =
      mr_base cur + mr_size cur - (aligned_base cur + n)"
    using fb(3) e(2) by (simp add: sub64_le)
  have short: "region_insert (xs @ [x]) (Suc (Suc (length xs))) y ok' = (False, xs @ [x])" for x y ok'
    by (simp add: region_insert_def)
  show ?thesis
    using gap kn suf e(1)
    by (auto simp: alloc_from_def Let_def region_insert_at region_insert_at2 short taken_piece_def rest_piece_def)
qed

lemma alloc_from_cases:
  assumes fit: "fits n cur" and ok: "region_ok cur" and n: "n \<le> 2 ^ 64 - 4096"
  shows "\<exists>r mid. alloc_from env n (xs @ (p, cur) # ys) (length xs) = (r, xs @ mid @ ys) \<and>
    (mid = [(p, cur)] \<and> r = 0 \<or>
     (\<exists>a b. mid = split_region env n p cur a b \<and> split_flags env n cur a b \<and> (r \<noteq> 0 \<longrightarrow> r = aligned_base cur))) \<and>
    (env_ok env \<longrightarrow> r = aligned_base cur \<and>
       mid = split_region env n p cur True (aligned_base cur + n < mr_base cur + mr_size cur))"
proof -
  note pieces = split_region_def front_piece_def split_flags_def env_ok_def
  note fb = fits_bounds [OF fit ok n]
  show ?thesis
  proof (cases "aligned_base cur = mr_base cur")
    case True
    show ?thesis
      using fb(3) unfolding alloc_from_aligned [OF fit ok n True]
      by (cases "mr_size cur = n"; cases "suffix_mem env = 0"; cases "suffix_node env")
        (auto simp: True pieces)
  next
    case False
    show ?thesis
      using fb(3) unfolding alloc_from_gap [OF fit ok n False] Let_def
      by (cases "alloc_mem env = 0"; cases "alloc_node env";
          cases "aligned_base cur + n < mr_base cur + mr_size cur";
          cases "suffix_mem env = 0"; cases "suffix_node env")
        (auto simp: False pieces)
  qed
qed

lemma below_inside:
  assumes "below x (p, cur)" and "mr_base cur \<le> mr_base r"
  shows "below x (q, r)"
  using assms by (simp add: below_def)

lemma inside_below:
  assumes "below (p, cur) y" and "mr_base r + mr_size r \<le> mr_base cur + mr_size cur"
  shows "below (q, r) y"
  using assms by (simp add: below_def)

text \<open>Replacing one region by well-formed pieces that lie inside it.\<close>

lemma pmm_wf_replace:
  assumes wf: "pmm_wf (xs @ (p, cur) # ys)" and mid: "pmm_wf mid"
    and ids: "fst ` set mid \<inter> fst ` set (xs @ ys) = {}"
    and inside: "\<forall>x \<in> set mid. mr_base cur \<le> mr_base (snd x) \<and>
      mr_base (snd x) + mr_size (snd x) \<le> mr_base cur + mr_size cur"
  shows "pmm_wf (xs @ mid @ ys)"
proof -
  have "below x z" if "x \<in> set xs" "z \<in> set mid" for x z
    using wf that inside below_inside [of x p cur "snd z" "fst z"] by (simp add: pmm_wf_simps)
  moreover have "below z y" if "y \<in> set ys" "z \<in> set mid" for y z
    using wf that inside inside_below [of p cur y "snd z" "fst z"] by (simp add: pmm_wf_simps)
  moreover have "below x y" if "x \<in> set xs" "y \<in> set ys" for x y
    using wf that by (simp add: pmm_wf_simps)
  ultimately show ?thesis
    using wf mid ids by (auto simp: pmm_wf_simps image_Un)
qed

lemma split_region_wf:
  assumes wf: "pmm_wf (xs @ (p, cur) # ys)" and fit: "fits n cur" and n: "0 < n" "n \<le> 2 ^ 64 - 4096"
    and fresh: "env_fresh env (xs @ (p, cur) # ys)" and flags: "split_flags env n cur a b"
  shows "pmm_wf (xs @ split_region env n p cur a b @ ys)"
proof -
  have ok: "region_ok cur" "p \<noteq> 0" "p \<notin> fst ` set (xs @ ys)"
    using wf by (auto simp: pmm_wf_simps)
  note fb = fits_bounds [OF fit ok(1) n(2)]
  note defs = split_region_def front_piece_def taken_piece_def rest_piece_def
  have fresh': "alloc_mem env \<noteq> p" "suffix_mem env \<noteq> p" "alloc_mem env \<notin> fst ` set (xs @ ys)"
    "suffix_mem env \<notin> fst ` set (xs @ ys)" "alloc_mem env = suffix_mem env \<Longrightarrow> alloc_mem env = 0"
    using fresh by (auto simp: env_fresh_def)
  have mid: "pmm_wf (split_region env n p cur a b)"
    using ok(1,2) fb flags n(1) fresh'
    by (auto simp: defs pmm_wf_simps below_def region_ok_def split_flags_def)
  have "fst ` set (split_region env n p cur a b) \<subseteq> {p, alloc_mem env, suffix_mem env}"
    by (auto simp: defs)
  moreover have "{p, alloc_mem env, suffix_mem env} \<inter> fst ` set (xs @ ys) = {}"
    using ok(3) fresh'(3,4) by simp
  ultimately have "fst ` set (split_region env n p cur a b) \<inter> fst ` set (xs @ ys) = {}"
    by (meson disjoint_iff subset_iff)
  moreover have "\<forall>x \<in> set (split_region env n p cur a b). mr_base cur \<le> mr_base (snd x) \<and>
      mr_base (snd x) + mr_size (snd x) \<le> mr_base cur + mr_size cur"
    using fb by (auto simp: defs)
  ultimately show ?thesis using pmm_wf_replace [OF wf mid] by simp
qed

lemma usable_apart:
  assumes "pmm_wf (xs @ (p, cur) # ys)"
  shows "span cur \<inter> usable xs = {}" "span cur \<inter> usable ys = {}"
  using assms by (fastforce simp: pmm_wf_simps usable_def span_def below_def)+

lemma remove_part:
  "S \<inter> (X \<union> Y) = {} \<Longrightarrow> A \<subseteq> S \<Longrightarrow> B \<subseteq> S \<Longrightarrow> X \<union> ((S - A - B) \<union> Y) = X \<union> (S \<union> Y) - A - B"
  by blast

lemma split_region_usable:
  assumes wf: "pmm_wf (xs @ (p, cur) # ys)" and fit: "fits n cur" and n: "n \<le> 2 ^ 64 - 4096"
    and flags: "split_flags env n cur a b"
  defines "k \<equiv> aligned_base cur"
  shows "usable (xs @ split_region env n p cur a b @ ys) =
    usable (xs @ (p, cur) # ys) - {k..<k + n} - (if b then {} else {k + n..<mr_base cur + mr_size cur})"
    and "{k..<mr_base cur + mr_size cur} \<subseteq> usable (xs @ (p, cur) # ys)"
proof -
  have ok: "region_ok cur" using wf by (auto simp: pmm_wf_simps)
  note fb = fits_bounds [OF fit ok n]
  let ?B = "if b then {} else {k + n..<mr_base cur + mr_size cur}"
  have "usable (split_region env n p cur a b) = span cur - {k..<k + n} - ?B"
    using fb by (auto simp: split_region_def front_piece_def taken_piece_def rest_piece_def span_def k_def)
  moreover have sub: "{k..<mr_base cur + mr_size cur} \<subseteq> span cur" "{k..<k + n} \<subseteq> span cur"
    "?B \<subseteq> span cur"
    using fb by (auto simp: span_def k_def)
  moreover have "span cur \<inter> (usable xs \<union> usable ys) = {}" using usable_apart [OF wf] by auto
  ultimately show "usable (xs @ split_region env n p cur a b @ ys) =
    usable (xs @ (p, cur) # ys) - {k..<k + n} - ?B"
    using fb(4) remove_part [of "span cur" "usable xs" "usable ys" "{k..<k + n}" ?B] by simp
  show "{k..<mr_base cur + mr_size cur} \<subseteq> usable (xs @ (p, cur) # ys)"
    using sub fb(4) by auto
qed

lemma pmm_alloc_size_bounds:
  assumes "pmm_alloc_size k \<noteq> 0" and "k \<le> (2 ^ 64 - 1) div 1024"
  shows "4096 dvd pmm_alloc_size k" "1024 * k \<le> pmm_alloc_size k" "pmm_alloc_size k < 1024 * k + 4096"
    "pmm_alloc_size k \<le> 2 ^ 64 - 4096"
proof -
  have k: "k * 1024 < 2 ^ 64" using assms(2) by simp
  have small: "k * 1024 + 2 ^ 12 \<le> 2 ^ 64"
    using assms(1) align_up64_wrap [OF k, of 12] by (fastforce simp: pmm_alloc_size_def PAGE_def)
  show *: "4096 dvd pmm_alloc_size k" "1024 * k \<le> pmm_alloc_size k" "pmm_alloc_size k < 1024 * k + 4096"
    using align_up64_bounds [OF _ small] by (simp_all add: pmm_alloc_size_def PAGE_def mult.commute)
  from *(1) obtain j where j: "pmm_alloc_size k = 4096 * j" by blast
  have "4096 * j < 2 ^ 64" using *(3) small j by simp
  then show "pmm_alloc_size k \<le> 2 ^ 64 - 4096" using j by simp
qed

lemma pmm_alloc_found:
  assumes wf: "pmm_wf rs" and fresh: "env_fresh env rs" and n: "0 < n" "n \<le> 2 ^ 64 - 4096"
    and i: "first_index (\<lambda>(p, r). fits n r) rs = Some i" and alloc: "alloc_from env n rs i = (r, rs')"
  shows "pmm_wf rs'" "usable rs' \<subseteq> usable rs"
    "r \<noteq> 0 \<Longrightarrow> 4096 dvd r \<and> {r..<r + n} \<subseteq> usable rs \<and> {r..<r + n} \<inter> usable rs' = {}"
    "env_ok env \<Longrightarrow> 4096 dvd r \<and> usable rs' = usable rs - {r..<r + n} \<and> {r..<r + n} \<subseteq> usable rs \<and>
       (\<exists>q. (q, \<lparr>mr_base = r, mr_size = n, mr_type = MR_RESERVED\<rparr>) \<in> set rs')"
proof -
  from first_index_SomeD [OF i] have il: "i < length rs" "(\<lambda>(p, r). fits n r) (rs ! i)" by auto
  obtain xs p cur ys where rs: "rs = xs @ (p, cur) # ys" and len: "length xs = i" and fit: "fits n cur"
    using split_at_nth [OF il(1)] il(2) by (cases "rs ! i") auto
  have ok: "region_ok cur" using wf by (auto simp: rs pmm_wf_simps)
  note fb = fits_bounds [OF fit ok n(2)]
  let ?k = "aligned_base cur" and ?e = "mr_base cur + mr_size cur"
  from alloc_from_cases [OF fit ok n(2), of env xs p ys] alloc obtain mid where
    rs': "rs' = xs @ mid @ ys"
    and mid: "mid = [(p, cur)] \<and> r = 0 \<or>
      (\<exists>a b. mid = split_region env n p cur a b \<and> split_flags env n cur a b \<and> (r \<noteq> 0 \<longrightarrow> r = ?k))"
    and full: "env_ok env \<Longrightarrow> r = ?k \<and> mid = split_region env n p cur True (?k + n < ?e)"
    by (auto simp: rs len)
  note split = split_region_wf [OF _ fit n, of xs p ys env] split_region_usable [OF _ fit n(2), of xs p ys env]
  have kn: "{?k..<?k + n} \<subseteq> usable rs"
    using fb by (auto simp: rs span_def)
  have outcome: "rs' = rs \<and> r = 0 \<or>
      (\<exists>B. usable rs' = usable rs - {?k..<?k + n} - B) \<and> (r \<noteq> 0 \<longrightarrow> r = ?k)"
  proof (cases "mid = [(p, cur)] \<and> r = 0")
    case False
    with mid obtain a b where "mid = split_region env n p cur a b" "split_flags env n cur a b"
      "r \<noteq> 0 \<longrightarrow> r = ?k" by blast
    with split(2) [OF wf [unfolded rs]] show ?thesis unfolding rs rs' by blast
  qed (simp add: rs rs')
  show "pmm_wf rs'" using mid wf fresh split(1) by (auto simp: rs rs')
  show "usable rs' \<subseteq> usable rs" using outcome by blast
  show "r \<noteq> 0 \<Longrightarrow> 4096 dvd r \<and> {r..<r + n} \<subseteq> usable rs \<and> {r..<r + n} \<inter> usable rs' = {}"
    using outcome kn fb(1) by blast
  assume ok_env: "env_ok env"
  have flags: "split_flags env n cur True (?k + n < ?e)"
    using ok_env by (simp add: split_flags_def env_ok_def)
  have "usable rs' = usable rs - {r..<r + n}"
    using full [OF ok_env] split(2) [OF wf [unfolded rs] flags] fb(3) unfolding rs rs' by force
  moreover have "taken_piece env n p cur \<in> set rs'"
    using full [OF ok_env] by (simp add: rs' split_region_def)
  ultimately show "4096 dvd r \<and> usable rs' = usable rs - {r..<r + n} \<and> {r..<r + n} \<subseteq> usable rs \<and>
       (\<exists>q. (q, \<lparr>mr_base = r, mr_size = n, mr_type = MR_RESERVED\<rparr>) \<in> set rs')"
    using full [OF ok_env] kn fb(1) by (auto simp: taken_piece_def split: if_splits)
qed

lemma env_fresh_subset: "env_fresh env rs \<Longrightarrow> fst ` set rs' \<subseteq> fst ` set rs \<Longrightarrow> env_fresh env rs'"
  by (auto simp: env_fresh_def)

lemma pmm_alloc_ok:
  assumes wf: "pmm_wf rs" and fresh: "env_fresh env rs" and alloc: "pmm_alloc env k rs = (r, rs')"
  defines "n \<equiv> pmm_alloc_size k"
  shows "pmm_wf rs'" "usable rs' \<subseteq> usable rs"
    "r \<noteq> 0 \<Longrightarrow> 4096 dvd r \<and> 1024 * k \<le> n \<and> {r..<r + n} \<subseteq> usable rs \<and> {r..<r + n} \<inter> usable rs' = {}"
    "env_ok env \<Longrightarrow> 0 < k \<Longrightarrow> k \<le> (2 ^ 64 - 1) div 1024 \<Longrightarrow> n \<noteq> 0 \<Longrightarrow>
       \<exists>x \<in> set (pmm_maintain rs). fits n (snd x) \<Longrightarrow>
       4096 dvd r \<and> 1024 * k \<le> n \<and> usable rs' = usable rs - {r..<r + n} \<and> {r..<r + n} \<subseteq> usable rs \<and>
       (\<exists>q. (q, \<lparr>mr_base = r, mr_size = n, mr_type = MR_RESERVED\<rparr>) \<in> set rs')"
proof -
  note same = pmm_maintain_same [OF wf, unfolded same_memory_def]
  let ?rs = "pmm_maintain rs"
  have fresh': "env_fresh env ?rs" using fresh same by (blast intro: env_fresh_subset)
  consider (null) "r = 0 \<and> rs' = rs" "k = 0 \<or> k > (2 ^ 64 - 1) div 1024 \<or> n = 0"
    | (none) "r = 0 \<and> rs' = ?rs" "first_index (\<lambda>(p, r). fits n r) ?rs = None"
    | (found) i where "0 < n" "k \<le> (2 ^ 64 - 1) div 1024"
        "first_index (\<lambda>(p, r). fits n r) ?rs = Some i" "alloc_from env n ?rs i = (r, rs')"
    using alloc unfolding pmm_alloc_def Let_def n_def [symmetric]
    by (auto split: if_splits option.splits)
  then have "pmm_wf rs' \<and> usable rs' \<subseteq> usable rs \<and>
    (r \<noteq> 0 \<longrightarrow> 4096 dvd r \<and> 1024 * k \<le> n \<and> {r..<r + n} \<subseteq> usable rs \<and> {r..<r + n} \<inter> usable rs' = {}) \<and>
    (env_ok env \<longrightarrow> 0 < k \<longrightarrow> k \<le> (2 ^ 64 - 1) div 1024 \<longrightarrow> n \<noteq> 0 \<longrightarrow>
       (\<exists>x \<in> set ?rs. fits n (snd x)) \<longrightarrow>
       4096 dvd r \<and> 1024 * k \<le> n \<and> usable rs' = usable rs - {r..<r + n} \<and> {r..<r + n} \<subseteq> usable rs \<and>
       (\<exists>q. (q, \<lparr>mr_base = r, mr_size = n, mr_type = MR_RESERVED\<rparr>) \<in> set rs'))"
  proof cases
    case null
    then show ?thesis using wf by auto
  next
    case none
    then have "\<not> (\<exists>x \<in> set ?rs. fits n (snd x))" by (auto simp: find_index_from_None)
    with none(1) same show ?thesis by blast
  next
    case found
    note size = pmm_alloc_size_bounds [of k, folded n_def, OF _ found(2)]
    have n: "0 < n" "n \<le> 2 ^ 64 - 4096" "1024 * k \<le> n" using found(1) size by auto
    from same have "pmm_wf ?rs" by blast
    note F = pmm_alloc_found [OF this fresh' n(1,2) found(3,4)]
    have "usable ?rs = usable rs" using same by blast
    with F n(3) show ?thesis by metis
  qed
  then show "pmm_wf rs'" "usable rs' \<subseteq> usable rs"
    "r \<noteq> 0 \<Longrightarrow> 4096 dvd r \<and> 1024 * k \<le> n \<and> {r..<r + n} \<subseteq> usable rs \<and> {r..<r + n} \<inter> usable rs' = {}"
    "env_ok env \<Longrightarrow> 0 < k \<Longrightarrow> k \<le> (2 ^ 64 - 1) div 1024 \<Longrightarrow> n \<noteq> 0 \<Longrightarrow>
       \<exists>x \<in> set ?rs. fits n (snd x) \<Longrightarrow>
       4096 dvd r \<and> 1024 * k \<le> n \<and> usable rs' = usable rs - {r..<r + n} \<and> {r..<r + n} \<subseteq> usable rs \<and>
       (\<exists>q. (q, \<lparr>mr_base = r, mr_size = n, mr_type = MR_RESERVED\<rparr>) \<in> set rs')"
    by blast+
qed

section \<open>Release gives the pages back\<close>

lemma region_set_other: "f \<notin> fst ` set rs \<Longrightarrow> region_set f r rs = rs"
  by (induction rs) (auto simp: region_set_def)

lemma region_set_append: "region_set f r (xs @ ys) = region_set f r xs @ region_set f r ys"
  by (simp add: region_set_def)

lemma region_set_at:
  "distinct (map fst (xs @ (f, r) # ys)) \<Longrightarrow> region_set f r' (xs @ (f, r) # ys) = xs @ (f, r') # ys"
  using region_set_other [of f xs r'] region_set_other [of f ys r']
  by (simp add: region_set_append) (simp add: region_set_def)

lemma region_remove_at:
  "p \<notin> fst ` set xs \<Longrightarrow> region_remove p (xs @ (p, r) # ys) = xs @ ys"
  by (induction xs) auto

lemma pmm_wf_distinct: "pmm_wf rs \<Longrightarrow> distinct (map fst rs)"
  by (simp add: pmm_wf_def)

lemma pmm_wf_order:
  assumes "pmm_wf rs" and "x \<in> set rs" and "y \<in> set rs" and "fst x \<noteq> fst y"
  shows "below x y \<or> below y x"
proof -
  from assms(2) obtain xs ys where rs: "rs = xs @ x # ys" by (auto dest: split_list)
  with assms show ?thesis by (auto simp: pmm_wf_simps)
qed

lemma adjacent_split:
  assumes wf: "pmm_wf rs" and "(p, m) \<in> set rs" and "(f, r) \<in> set rs"
    and touch: "mr_base m + mr_size m = mr_base r"
  shows "\<exists>xs ys. rs = xs @ (p, m) # (f, r) # ys"
proof -
  from assms(2) obtain xs zs where rs: "rs = xs @ (p, m) # zs" by (auto dest: split_list)
  have pos: "0 < mr_size m" using wf by (auto simp: rs pmm_wf_simps region_ok_def)
  have "(f, r) \<in> set zs"
    using assms(3) wf touch pos by (fastforce simp: rs pmm_wf_simps below_def)
  then obtain ms ys where zs: "zs = ms @ (f, r) # ys" by (auto dest: split_list)
  have "ms = []"
  proof (cases ms)
    case (Cons c cs)
    have "below (p, m) c" "below c (f, r)" "0 < mr_size (snd c)"
      using wf by (auto simp: rs zs Cons pmm_wf_simps region_ok_def)
    with touch show ?thesis by (simp add: below_def)
  qed simp
  with rs zs show ?thesis by auto
qed

lemma find_merge_touch:
  assumes "\<forall>x \<in> set rs. region_ok (snd x) \<and> (fst x \<noteq> f \<longrightarrow> below x (f, fr) \<or> below (f, fr) x)"
    and "region_ok fr" and "find_merge f fr rs = Some (p, fr')"
  shows "\<exists>m. (p, m) \<in> set rs \<and> p \<noteq> f \<and> mr_type m = MR_USABLE \<and> mr_type fr' = mr_type fr \<and>
    mr_size fr' = mr_size m + mr_size fr \<and>
    (mr_base m + mr_size m = mr_base fr \<and> mr_base fr' = mr_base m \<or>
     mr_base fr + mr_size fr = mr_base m \<and> mr_base fr' = mr_base fr)"
  using assms
proof (induction rs)
  case (Cons x rs)
  obtain q m where x: "x = (q, m)" by (cases x)
  have m: "region_ok m" "q \<noteq> f \<Longrightarrow> below (q, m) (f, fr) \<or> below (f, fr) (q, m)"
    using Cons.prems(1) by (auto simp: x)
  show ?case
  proof (cases "q = f \<or> mr_type m \<noteq> MR_USABLE \<or> mr_base m > mr_end fr \<or> mr_end m < mr_base fr")
    case True
    then have "find_merge f fr rs = Some (p, fr')"
      using Cons.prems(2,3) m by (auto simp: x split: if_splits)
    with Cons show ?thesis by auto
  next
    case False
    have end_less: "mr_base m + mr_size m < 2 ^ 64" "mr_base fr + mr_size fr < 2 ^ 64"
      "0 < mr_size m" "0 < mr_size fr"
      using m(1) Cons.prems(2) by (simp_all add: region_ok_def)
    from False m Cons.prems(2) have
      "mr_base m + mr_size m = mr_base fr \<or> mr_base fr + mr_size fr = mr_base m"
      by (auto simp: below_def)
    then show ?thesis
      using False Cons.prems(2,3) m(1) end_less
      by (auto simp: x Let_def sub64_le split: if_splits)
  qed
qed simp

lemma merge_step:
  assumes wf: "pmm_wf rs" and f: "(f, fr) \<in> set rs" "mr_type fr = MR_USABLE"
    and found: "find_merge f fr rs = Some (p, fr')"
  shows "same_memory rs (region_remove p (region_set f fr' rs))"
    and "(f, fr') \<in> set (region_remove p (region_set f fr' rs))" and "mr_type fr' = MR_USABLE"
proof -
  have "region_ok fr" using wf f(1) by (auto simp: pmm_wf_def)
  moreover have "\<forall>x \<in> set rs. region_ok (snd x) \<and> (fst x \<noteq> f \<longrightarrow> below x (f, fr) \<or> below (f, fr) x)"
    using pmm_wf_order [OF wf _ f(1)] wf by (auto simp: pmm_wf_def)
  ultimately obtain m where m: "(p, m) \<in> set rs" "p \<noteq> f" "mr_type m = MR_USABLE"
    "mr_type fr' = mr_type fr" "mr_size fr' = mr_size m + mr_size fr"
    and touch: "mr_base m + mr_size m = mr_base fr \<and> mr_base fr' = mr_base m \<or>
      mr_base fr + mr_size fr = mr_base m \<and> mr_base fr' = mr_base fr"
    using find_merge_touch [OF _ _ found] by blast
  show "mr_type fr' = MR_USABLE" using m(4) f(2) by simp
  from touch have "\<exists>xs ys. region_remove p (region_set f fr' rs) = xs @ (f, fr') # ys \<and>
      same_memory rs (xs @ (f, fr') # ys)"
  proof
    assume t: "mr_base m + mr_size m = mr_base fr \<and> mr_base fr' = mr_base m"
    with adjacent_split [OF wf m(1) f(1)] obtain xs ys where rs: "rs = xs @ (p, m) # (f, fr) # ys" by blast
    have d: "distinct (map fst rs)" using wf by (rule pmm_wf_distinct)
    have "region_set f fr' rs = (xs @ [(p, m)]) @ (f, fr') # ys"
      using region_set_at [of "xs @ [(p, m)]" f fr ys fr'] d by (simp add: rs)
    then have "region_remove p (region_set f fr' rs) = xs @ (f, fr') # ys"
      using region_remove_at [of p xs m "(f, fr') # ys"] d by (simp add: rs)
    moreover have "pmm_wf (xs @ (f, fr') # ys)"
      using pmm_wf_merge_two [of xs p m f fr ys f fr'] wf t m(5) by (simp add: rs)
    moreover have "span fr' = span m \<union> span fr" using t m(5) by (intro span_merge_two) auto
    ultimately show ?thesis using m(3,4) f(2) by (auto simp: same_memory_def rs)
  next
    assume t: "mr_base fr + mr_size fr = mr_base m \<and> mr_base fr' = mr_base fr"
    with adjacent_split [OF wf f(1) m(1)] obtain xs ys where rs: "rs = xs @ (f, fr) # (p, m) # ys" by blast
    have d: "distinct (map fst rs)" using wf by (rule pmm_wf_distinct)
    have "region_set f fr' rs = xs @ (f, fr') # (p, m) # ys"
      using region_set_at [of xs f fr "(p, m) # ys" fr'] d by (simp add: rs)
    then have "region_remove p (region_set f fr' rs) = xs @ (f, fr') # ys"
      using region_remove_at [of p "xs @ [(f, fr')]" m ys] d m(2) by (simp add: rs)
    moreover have "pmm_wf (xs @ (f, fr') # ys)"
      using pmm_wf_merge_two [of xs f fr p m ys f fr'] wf t m(5) by (simp add: rs)
    moreover have "span fr' = span fr \<union> span m" using t m(5) by (intro span_merge_two) auto
    ultimately show ?thesis using m(3,4) f(2) by (auto simp: same_memory_def rs)
  qed
  then show "same_memory rs (region_remove p (region_set f fr' rs))"
    "(f, fr') \<in> set (region_remove p (region_set f fr' rs))" by auto
qed

lemma same_memory_trans: "same_memory a b \<Longrightarrow> same_memory b c \<Longrightarrow> same_memory a c"
  unfolding same_memory_def by (metis subset_trans)

lemma merge_loop_same:
  "pmm_wf rs \<Longrightarrow> (f, fr) \<in> set rs \<Longrightarrow> mr_type fr = MR_USABLE \<Longrightarrow> same_memory rs (merge_loop f fr rs)"
proof (induction f fr rs rule: merge_loop.induct)
  case (1 f fr rs)
  show ?case
  proof (cases "find_merge f fr rs")
    case None
    with 1 show ?thesis by (subst merge_loop.simps) (simp add: same_memory_def)
  next
    case (Some x)
    obtain p fr' where x: "x = (p, fr')" by (cases x)
    note step = merge_step [OF "1.prems" Some [unfolded x]]
    have "pmm_wf (region_remove p (region_set f fr' rs))" using step(1) by (simp add: same_memory_def)
    from "1.IH" [OF Some x [symmetric] this step(2,3)] step(1)
    have "same_memory rs (merge_loop f fr' (region_remove p (region_set f fr' rs)))"
      by (rule same_memory_trans [rotated])
    then show ?thesis using Some x by (subst merge_loop.simps) simp
  qed
qed

lemma pmm_free_found:
  assumes wf: "pmm_wf rs" and x: "(f, r) \<in> set rs" "mr_type r \<noteq> MR_USABLE"
    and a: "a \<noteq> 0" "a - a mod 4096 = mr_base r"
  shows "pmm_wf (pmm_free a rs)" "usable (pmm_free a rs) = usable rs \<union> span r"
    "taken (pmm_free a rs) = filter (\<lambda>y. fst y \<noteq> f) (taken rs)"
proof -
  have addr: "(if a mod 4096 \<noteq> 0 then a - a mod 4096 else a) = mr_base r"
    using a by (cases "a mod 4096 = 0") simp_all
  have unique: "y = (f, r)" if "y \<in> set rs" "mr_base (snd y) = mr_base r" for y
  proof (rule ccontr)
    assume "y \<noteq> (f, r)"
    then have "fst y \<noteq> f"
      using that(1) x(1) pmm_wf_distinct [OF wf] by (metis eq_key_imp_eq_value prod.collapse)
    then have "below y (f, r) \<or> below (f, r) y" using pmm_wf_order [OF wf that(1) x(1)] by simp
    moreover have "0 < mr_size (snd y)" "0 < mr_size r"
      using wf that(1) x(1) by (auto simp: pmm_wf_def region_ok_def)
    ultimately show False using that(2) by (auto simp: below_def)
  qed
  have "find (\<lambda>(p, r'). mr_base r' = mr_base r) rs = Some (f, r)"
  proof (cases "find (\<lambda>(p, r'). mr_base r' = mr_base r) rs")
    case None
    with x(1) show ?thesis by (auto simp: find_None_iff)
  next
    case (Some y)
    then obtain i where "i < length rs" "y = rs ! i" "mr_base (snd y) = mr_base r"
      by (auto simp: find_Some_iff)
    then have "y \<in> set rs" "mr_base (snd y) = mr_base r" by simp_all
    with Some unique show ?thesis by simp
  qed
  moreover define fr where "fr = r\<lparr>mr_type := MR_USABLE\<rparr>"
  ultimately have eq: "pmm_free a rs = merge_loop f fr (region_set f fr rs)"
    using x(2) a(1) addr unfolding pmm_free_def Let_def by simp
  obtain xs ys where rs: "rs = xs @ (f, r) # ys" using x(1) by (auto dest: split_list)
  have d: "distinct (map fst rs)" by (rule pmm_wf_distinct [OF wf])
  have set: "region_set f fr rs = xs @ (f, fr) # ys"
    using region_set_at [of xs f r ys fr] d by (simp add: rs)
  have "pmm_wf (xs @ (f, fr) # ys)"
    using wf by (auto simp: rs fr_def pmm_wf_simps below_def region_ok_def)
  then have "same_memory (xs @ (f, fr) # ys) (pmm_free a rs)"
    unfolding eq set by (rule merge_loop_same) (simp_all add: fr_def)
  moreover have "span fr = span r" by (simp add: fr_def span_def)
  moreover have "filter (\<lambda>y. fst y \<noteq> f) (taken zs) = taken zs" if "f \<notin> fst ` set zs" for zs
    unfolding filter_id_conv using that by (auto simp: taken_def rev_image_eqI)
  ultimately show "pmm_wf (pmm_free a rs)" "usable (pmm_free a rs) = usable rs \<union> span r"
    "taken (pmm_free a rs) = filter (\<lambda>y. fst y \<noteq> f) (taken rs)"
    using x(2) d by (auto simp: same_memory_def rs fr_def)
qed

section \<open>What start-up reserves\<close>

text \<open>Everything the framebuffer loop leaves usable lies outside the framebuffer.\<close>

definition clear_of :: "nat \<Rightarrow> nat \<Rightarrow> nat \<times> MemoryRegion \<Rightarrow> bool" where
  "clear_of a b x \<longleftrightarrow> mr_type (snd x) = MR_USABLE \<longrightarrow>
     mr_base (snd x) + mr_size (snd x) \<le> a \<or> b \<le> mr_base (snd x)"

definition above_kernel :: "nat \<Rightarrow> nat \<times> MemoryRegion \<Rightarrow> bool" where
  "above_kernel k x \<longleftrightarrow> mr_type (snd x) = MR_USABLE \<longrightarrow> k \<le> mr_base (snd x)"

definition no_wrap :: "nat \<times> MemoryRegion \<Rightarrow> bool" where
  "no_wrap x \<longleftrightarrow> mr_base (snd x) + mr_size (snd x) < 2 ^ 64"

lemma no_wrap_end: "no_wrap (p, r) \<Longrightarrow> mr_end r = mr_base r + mr_size r"
  by (simp add: no_wrap_def mr_end_def add64_small)

declare reserve_kernel.simps [simp del] reserve_fb.simps [simp del]

lemma reserve_kernel_Nil [simp]: "reserve_kernel k env [] = Some (env, [])"
  by (simp add: reserve_kernel.simps)

lemma reserve_fb_Nil [simp]: "reserve_fb a e s env [] = Some (env, [])"
  by (simp add: reserve_fb.simps)

lemma reserve_kernel_reserves:
  "reserve_kernel k env rs = Some (env', rs') \<Longrightarrow>
     (\<forall>x \<in> set rs'. mr_base (snd x) < k \<longrightarrow> mr_type (snd x) = MR_RESERVED) \<and>
     ((\<forall>x \<in> set rs. no_wrap x) \<longrightarrow> (\<forall>x \<in> set rs'. no_wrap x))"
proof (induction k env rs arbitrary: env' rs' rule: reserve_kernel.induct)
  case (2 k env p r rs)
  show ?case
  proof (cases "mr_base r < k")
    case low: True
    show ?thesis
    proof (cases "mr_end r > k")
      case True
      obtain q node env1 where env: "env = (q, node) # env1" "q \<noteq> 0"
      proof (cases env)
        case Nil
        then show ?thesis
          using low True "2.prems" by (simp only: reserve_kernel.simps(2) if_True list.case) simp
      next
        case (Cons e env1)
        obtain q node where e: "e = (q, node)" by (cases e)
        have "q \<noteq> 0"
        proof
          assume "q = 0"
          with low True "2.prems" show False
            by (simp only: reserve_kernel.simps(2) Cons e if_True list.case prod.case) simp
        qed
        with Cons e that show ?thesis by blast
      qed
      define rs1 where "rs1 =
        (if node then (q, \<lparr>mr_base = k, mr_size = sub64 (mr_end r) k, mr_type = MR_USABLE\<rparr>) # rs else rs)"
      have "reserve_kernel k env ((p, r) # rs) = map_option
          (apsnd ((#) (p, r\<lparr>mr_size := k - mr_base r, mr_type := MR_RESERVED\<rparr>))) (reserve_kernel k env1 rs1)"
        using low True env by (simp add: reserve_kernel.simps(2) Let_def rs1_def)
      with "2.prems" obtain rs2 where rec: "reserve_kernel k env1 rs1 = Some (env', rs2)"
        and rs': "rs' = (p, r\<lparr>mr_size := k - mr_base r, mr_type := MR_RESERVED\<rparr>) # rs2" by auto
      have "no_wrap x" if "\<forall>x \<in> set ((p, r) # rs). no_wrap x" "x \<in> set rs1" for x
        using that True no_wrap_end [of p r] by (auto simp: rs1_def no_wrap_def sub64_le split: if_splits)
      moreover have "no_wrap (p, r\<lparr>mr_size := k - mr_base r, mr_type := MR_RESERVED\<rparr>)" if "no_wrap (p, r)"
        using that True low no_wrap_end [of p r] by (simp add: no_wrap_def)
      ultimately have head: "(\<forall>x \<in> set ((p, r) # rs). no_wrap x) \<longrightarrow> (\<forall>x \<in> set rs1. no_wrap x) \<and>
          no_wrap (p, r\<lparr>mr_size := k - mr_base r, mr_type := MR_RESERVED\<rparr>)"
        by (meson list.set_intros(1))
      have tail: "(\<forall>x \<in> set rs2. mr_base (snd x) < k \<longrightarrow> mr_type (snd x) = MR_RESERVED) \<and>
          ((\<forall>x \<in> set rs1. no_wrap x) \<longrightarrow> (\<forall>x \<in> set rs2. no_wrap x))"
        using "2.IH"(1) [OF low True env(1) refl env(2) refl refl rec [unfolded rs1_def]]
        unfolding rs1_def .
      show ?thesis
      proof (intro conjI impI ballI)
        fix x assume "x \<in> set rs'" "mr_base (snd x) < k"
        then show "mr_type (snd x) = MR_RESERVED" using tail by (auto simp: rs')
      next
        fix x assume all: "\<forall>x \<in> set ((p, r) # rs). no_wrap x" and x: "x \<in> set rs'"
        from head all have "\<forall>x \<in> set rs1. no_wrap x"
          and first: "no_wrap (p, r\<lparr>mr_size := k - mr_base r, mr_type := MR_RESERVED\<rparr>)" by blast+
        with tail have "\<forall>x \<in> set rs2. no_wrap x" by blast
        with first x show "no_wrap x" by (auto simp: rs')
      qed
    next
      case False
      with low "2.prems" obtain rs1 where "reserve_kernel k env rs = Some (env', rs1)"
        "rs' = (p, r\<lparr>mr_type := MR_RESERVED\<rparr>) # rs1" by (auto simp: reserve_kernel.simps(2))
      with "2.IH"(2) [OF low False] show ?thesis by (simp add: no_wrap_def)
    qed
  next
    case False
    with "2.prems" obtain rs1 where "reserve_kernel k env rs = Some (env', rs1)" "rs' = (p, r) # rs1"
      by (auto simp: reserve_kernel.simps(2))
    with "2.IH"(3) [OF False] False show ?thesis by simp
  qed
qed simp

lemma reserve_fb_reserves:
  assumes "reserve_fb a e s env rs = Some (env', rs')" and "\<forall>x \<in> set rs. no_wrap x \<and> above_kernel k x"
    and "e = a + s" and "e < 2 ^ 64"
  shows "\<forall>x \<in> set rs'. clear_of a e x \<and> above_kernel k x"
  using assms
proof (induction a e s env rs arbitrary: env' rs' rule: reserve_fb.induct)
  case (2 a e s env p r rs)
  have r: "mr_end r = mr_base r + mr_size r" "above_kernel k (p, r)"
    "mr_base r + mr_size r < 2 ^ 64"
    using "2.prems"(2) no_wrap_end [of p r] by (auto simp: no_wrap_def)
  have rest: "\<forall>x \<in> set rs. no_wrap x \<and> above_kernel k x" using "2.prems"(2) by simp
  have ae: "a \<le> e" using "2.prems"(3) by simp
  note goal_defs = clear_of_def above_kernel_def
  have simple: ?case
    if IH: "\<And>env' rs'. reserve_fb a e s env rs = Some (env', rs') \<Longrightarrow> \<forall>x \<in> set rs'. clear_of a e x \<and> above_kernel k x"
      and step: "reserve_fb a e s env ((p, r) # rs) = map_option (apsnd ((#) y)) (reserve_fb a e s env rs)"
      and y: "clear_of a e y" "above_kernel k y" for y
  proof -
    from "2.prems"(1) [unfolded step] obtain rs1 where
      "reserve_fb a e s env rs = Some (env', rs1)" "rs' = y # rs1" by auto
    with IH y show ?thesis by simp
  qed
  show ?case
  proof (cases "mr_base r < e \<and> a < mr_end r")
    case hit: True
    show ?thesis
    proof (cases "mr_base r < a \<and> e < mr_end r")
      case True
      obtain q1 n1 q2 n2 env1 where
        env: "env = (q1, n1) # (q2, n2) # env1" "\<not> (q1 = 0 \<or> q2 = 0)"
      proof -
        consider "env = []" | x where "env = [x]" | x y env1 where "env = x # y # env1"
          by (metis list.exhaust)
        then show ?thesis
        proof cases
          case 1
          then show ?thesis
            using hit True "2.prems"(1) by (simp only: reserve_fb.simps(2) if_True list.case) simp
        next
          case 2
          then show ?thesis
            using hit True "2.prems"(1)
            by (cases x) (simp only: reserve_fb.simps(2) if_True list.case prod.case, simp)
        next
          case (3 x y env1)
          obtain q1 n1 q2 n2 where xy: "x = (q1, n1)" "y = (q2, n2)" by (cases x, cases y)
          have "\<not> (q1 = 0 \<or> q2 = 0)"
          proof
            assume "q1 = 0 \<or> q2 = 0"
            with hit True "2.prems"(1) show False
              by (simp only: reserve_fb.simps(2) 3 xy if_True list.case prod.case) simp
          qed
          with 3 xy that show ?thesis by blast
        qed
      qed
      define rs1 where "rs1 = (if n1 then (q1, \<lparr>mr_base = e, mr_size = sub64 (mr_end r) e, mr_type = mr_type r\<rparr>) # rs else rs)"
      define rs2 where "rs2 = (if n2 then (q2, \<lparr>mr_base = a, mr_size = s, mr_type = MR_RESERVED\<rparr>) # rs1 else rs1)"
      note IH = "2.IH"(1) [OF hit True env(1) refl refl refl env(2) refl refl rs1_def rs2_def _ _ "2.prems"(3,4)]
      have "no_wrap x \<and> above_kernel k x" if "x \<in> set rs1" for x
        using that rest hit True r by (auto simp: rs1_def goal_defs no_wrap_def sub64_le split: if_splits)
      then have ok: "\<forall>x \<in> set rs2. no_wrap x \<and> above_kernel k x"
        using "2.prems"(3,4) by (auto simp: rs2_def goal_defs no_wrap_def)
      have step: "reserve_fb a e s env ((p, r) # rs) =
          map_option (apsnd ((#) (p, r\<lparr>mr_size := a - mr_base r\<rparr>))) (reserve_fb a e s env1 rs2)"
        using hit True env by (simp add: reserve_fb.simps(2) Let_def rs1_def rs2_def)
      from "2.prems"(1) [unfolded step] obtain rs3 where rec: "reserve_fb a e s env1 rs2 = Some (env', rs3)"
        and rs': "rs' = (p, r\<lparr>mr_size := a - mr_base r\<rparr>) # rs3"
        by auto
      from IH [OF rec ok] rs' r(2) True show ?thesis by (simp add: goal_defs)
    next
      case no_middle: False
      note IH = "2.IH"(2-4) [OF hit no_middle]
      show ?thesis
      proof (cases "mr_base r < a \<and> mr_end r \<le> e")
        case True
        show ?thesis
          using hit no_middle True r(2) IH(1) [OF True _ rest "2.prems"(3,4)]
          by (intro simple [of "(p, r\<lparr>mr_size := a - mr_base r\<rparr>)"]) (auto simp: goal_defs reserve_fb.simps(2))
      next
        case no_left: False
        show ?thesis
        proof (cases "a \<le> mr_base r \<and> e < mr_end r")
          case True
          show ?thesis
            using hit no_middle no_left True r IH(2) [OF no_left True _ rest "2.prems"(3,4)]
            by (intro simple [of "(p, r\<lparr>mr_base := e, mr_size := mr_end r - e\<rparr>)"]) (auto simp: goal_defs reserve_fb.simps(2))
        next
          case False
          show ?thesis
            using hit no_middle no_left False IH(3) [OF no_left False _ rest "2.prems"(3,4)]
            by (intro simple [of "(p, r\<lparr>mr_type := MR_RESERVED\<rparr>)"]) (auto simp: goal_defs reserve_fb.simps(2))
        qed
      qed
    qed
  next
    case False
    then show ?thesis
      using r ae "2.IH"(5) [OF False _ rest "2.prems"(3,4)]
      by (intro simple [of "(p, r)"]) (auto simp: goal_defs reserve_fb.simps(2))
  qed
qed simp

end
