(* ===== verification/Pmm_Correct.thy ===== *)
theory Pmm_Correct
  imports Pmm
begin

text \<open>
  What the page allocator guarantees: the properties of \<open>pmm_alloc\<close>, \<open>pmm_free\<close>,
  \<open>pmm_maintain\<close> and \<open>pmm_init\<close> over the memory that is usable before and after them.
\<close>

section \<open>The memory map\<close>

definition mmap_ok :: "mmap_tag option \<Rightarrow> bool" where
  "mmap_ok mb2_mmap \<longleftrightarrow>
     (case mb2_mmap of None \<Rightarrow> True
      | Some tag \<Rightarrow> \<forall>i. entry_addr (tag_entries tag i) + entry_len (tag_entries tag i) < 2 ^ 64)"

definition efi_map_ok :: "efi_descriptor list option \<Rightarrow> bool" where
  "efi_map_ok efi_map \<longleftrightarrow>
     (case efi_map of None \<Rightarrow> True
      | Some ds \<Rightarrow> \<forall>d \<in> set ds. physical_start d + number_of_pages d * 4096 < 2 ^ 64)"

lemma region_add_no_wrap:
  assumes "region_add r env rs = Some (env', rs')" and "\<forall>x \<in> set rs. no_wrap x"
    and "mr_base r + mr_size r < 2 ^ 64"
  shows "\<forall>x \<in> set rs'. no_wrap x"
proof -
  have "no_wrap (p, r)" for p using assms(3) by (simp add: no_wrap_def)
  with assms(1,2) show ?thesis by (auto simp: region_add_def split: list.splits if_splits)
qed

lemma bios_entries_no_wrap:
  assumes "bios_entries tag n i env rs = Some (env', rs')" and "\<forall>x \<in> set rs. no_wrap x"
    and "\<forall>i. entry_addr (tag_entries tag i) + entry_len (tag_entries tag i) < 2 ^ 64"
  shows "\<forall>x \<in> set rs'. no_wrap x"
  using assms
proof (induction n arbitrary: i env rs)
  case (Suc n)
  from Suc.prems(1) obtain env1 rs1 where
    add: "region_add \<lparr>mr_base = entry_addr (tag_entries tag i), mr_size = entry_len (tag_entries tag i),
       mr_type = mb2_mrType_to_mrType (entry_type (tag_entries tag i))\<rparr> env rs = Some (env1, rs1)"
    and rec: "bios_entries tag n (i + 1) env1 rs1 = Some (env', rs')"
    by (auto simp: Let_def bind_eq_Some_conv)
  have "\<forall>x \<in> set rs1. no_wrap x" using region_add_no_wrap [OF add Suc.prems(2)] Suc.prems(3) by simp
  with Suc.IH [OF rec] Suc.prems(3) show ?case by blast
qed simp

lemma efi_entries_no_wrap:
  assumes "efi_entries ds env rs = Some (env', rs')" and "\<forall>x \<in> set rs. no_wrap x"
    and "\<forall>d \<in> set ds. physical_start d + number_of_pages d * 4096 < 2 ^ 64"
  shows "\<forall>x \<in> set rs'. no_wrap x"
  using assms
proof (induction ds arbitrary: env rs)
  case (Cons d ds)
  from Cons.prems(1) obtain env1 rs1 where
    add: "region_add \<lparr>mr_base = physical_start d, mr_size = mul64 (number_of_pages d) 4096,
       mr_type = efiType_to_mrType (efi_type d)\<rparr> env rs = Some (env1, rs1)"
    and rec: "efi_entries ds env1 rs1 = Some (env', rs')"
    by (auto simp: Let_def bind_eq_Some_conv)
  have "\<forall>x \<in> set rs1. no_wrap x"
    using region_add_no_wrap [OF add Cons.prems(2)] Cons.prems(3) by (simp add: mul64_small)
  with Cons.IH [OF rec] Cons.prems(3) show ?case by simp
qed simp

lemma bios_mr_init_no_wrap:
  "bios_mr_init mb2_mmap env rs = Some (env', rs') \<Longrightarrow> mmap_ok mb2_mmap \<Longrightarrow> \<forall>x \<in> set rs'. no_wrap x"
  using bios_entries_no_wrap [of _ _ 0 env "[]" env' rs']
  by (auto simp: bios_mr_init_def mmap_ok_def split: option.splits if_splits)

lemma efi_mr_init_no_wrap:
  "efi_mr_init mb2_mmap efi_map env [] = Some (env', rs') \<Longrightarrow> mmap_ok mb2_mmap \<Longrightarrow> efi_map_ok efi_map \<Longrightarrow>
     \<forall>x \<in> set rs'. no_wrap x"
  using bios_mr_init_no_wrap [of mb2_mmap env "[]" env' rs'] efi_entries_no_wrap [of _ env "[]" env' rs']
  by (auto simp: efi_mr_init_def efi_map_ok_def split: option.splits if_splits)

section \<open>Properties\<close>


text \<open>Two regions with a hole between them, the first not page-aligned.\<close>

definition demo_regions :: regions where
  "demo_regions =
     [(1, \<lparr>mr_base = 0x1234, mr_size = 0x9000, mr_type = MR_USABLE\<rparr>),
      (2, \<lparr>mr_base = 0xB000, mr_size = 0x1000, mr_type = MR_RESERVED\<rparr>)]"

definition demo_env :: pmm_mallocs where
  "demo_env = \<lparr>alloc_mem = 10, alloc_node = True, suffix_mem = 11, suffix_node = True\<rparr>"

lemma demo_regions_wf: "pmm_wf demo_regions" "env_fresh demo_env demo_regions" "env_ok demo_env"
  by (simp_all add: demo_regions_def demo_env_def pmm_wf_def below_def region_ok_def env_fresh_def env_ok_def)

lemma demo_aligned: "align_up64 4660 4096 = 8192" "align_up64 4096 4096 = 4096"
  using align_up64_eq [of 12 4660] align_up64_eq [of 12 4096] by simp_all

lemma demo_alloc:
  "pmm_alloc demo_env 4 demo_regions =
     (0x2000, [(1, \<lparr>mr_base = 0x1234, mr_size = 0xDCC, mr_type = MR_USABLE\<rparr>),
               (10, \<lparr>mr_base = 0x2000, mr_size = 0x1000, mr_type = MR_RESERVED\<rparr>),
               (11, \<lparr>mr_base = 0x3000, mr_size = 0x7234, mr_type = MR_USABLE\<rparr>),
               (2, \<lparr>mr_base = 0xB000, mr_size = 0x1000, mr_type = MR_RESERVED\<rparr>)])"
  by (simp add: pmm_alloc_def pmm_alloc_size_def PAGE_def demo_aligned pmm_maintain_def demo_regions_def
      fits_def aligned_base_def add64_def sub64_def alloc_from_def mr_end_def Let_def demo_env_def
      region_insert_def insert_nth_def)


text \<open>C16. When its allocations succeed and some usable region (after merging neighbours) has room
  for the pages, \<open>pmm_alloc\<close> takes exactly those pages out of the usable memory and records
  them as a reserved region.\<close>

theorem pmm_alloc_exact:
  assumes "pmm_wf rs" and "env_fresh env rs" and "env_ok env" and "0 < k" and "k < 2 ^ 52"
    and "\<exists>x \<in> set (pmm_maintain rs). fits (pmm_alloc_size k) (snd x)"
    and "pmm_alloc env k rs = (r, rs')"
  shows "4096 dvd r \<and> 1024 * k \<le> pmm_alloc_size k \<and> {r..<r + pmm_alloc_size k} \<subseteq> usable rs \<and>
    usable rs' = usable rs - {r..<r + pmm_alloc_size k} \<and>
    (\<exists>q. (q, \<lparr>mr_base = r, mr_size = pmm_alloc_size k, mr_type = MR_RESERVED\<rparr>) \<in> set rs')"
proof -
  have k: "k \<le> (2 ^ 64 - 1) div 1024" using assms(5) by simp
  have "1024 * k + 2 ^ 12 \<le> 2 ^ 64" using assms(5) by simp
  with align_up64_bounds(2) [of 12 "k * 1024"] assms(4) have "pmm_alloc_size k \<noteq> 0"
    by (auto simp: pmm_alloc_size_def PAGE_def)
  from pmm_alloc_ok(4) [OF assms(1,2,7,3,4) k this assms(6)] show ?thesis by blast
qed

theorem pmm_alloc_exact_witness:
  "usable (snd (pmm_alloc demo_env 4 demo_regions)) = usable demo_regions - {0x2000..<0x2000 + pmm_alloc_size 4}"
proof -
  have "\<exists>x \<in> set (pmm_maintain demo_regions). fits (pmm_alloc_size 4) (snd x)"
    by (simp add: pmm_maintain_def demo_regions_def pmm_alloc_size_def PAGE_def fits_def aligned_base_def
        demo_aligned add64_def mr_end_def)
  from pmm_alloc_exact [OF demo_regions_wf _ _ this demo_alloc] show ?thesis
    by (simp add: demo_alloc)
qed

text \<open>C17. \<open>pmm_free\<close> of an address in the first page of a reserved region makes exactly that region
  usable again, joins it with its usable neighbours, and leaves every other reserved region and
  the form of the list as they are.\<close>

theorem pmm_free_correct:
  assumes "pmm_wf rs" and "(f, r) \<in> set rs" and "mr_type r \<noteq> MR_USABLE" and "a \<noteq> 0"
    and "a - a mod 4096 = mr_base r"
  shows "pmm_wf (pmm_free a rs) \<and> usable (pmm_free a rs) = usable rs \<union> span r \<and>
    taken (pmm_free a rs) = filter (\<lambda>y. fst y \<noteq> f) (taken rs)"
  using pmm_free_found [OF assms] by blast

theorem pmm_free_correct_witness:
  "usable (pmm_free 0xB010 demo_regions) =
     usable demo_regions \<union> span \<lparr>mr_base = 0xB000, mr_size = 0x1000, mr_type = MR_RESERVED\<rparr>"
  using pmm_free_correct [OF demo_regions_wf(1), of 2
      "\<lparr>mr_base = 0xB000, mr_size = 0x1000, mr_type = MR_RESERVED\<rparr>" "0xB010"]
  by (simp add: demo_regions_def)



text \<open>C19. After \<open>pmm_init\<close> no usable memory lies below the end of the kernel or in the screen's
  framebuffer, whatever the firmware's memory map says and whichever list nodes could be
  allocated.\<close>

theorem pmm_init_reserves:
  assumes init: "pmm_init efi_boot mb2_mmap efi_map kernel_end mode env = Some rs"
    and maps: "mmap_ok mb2_mmap" "efi_map_ok efi_map"
    and fb: "framebuffer mode + fb_reserved_size mode < 2 ^ 64"
  shows "usable rs \<inter> {0..<kernel_end} = {} \<and>
    (framebuffer mode \<noteq> 0 \<longrightarrow>
       usable rs \<inter> {framebuffer mode..<framebuffer mode + fb_reserved_size mode} = {})"
proof -
  let ?a = "framebuffer mode" and ?s = "fb_reserved_size mode"
  from init obtain env1 rs1 env2 rs2 where
    e1: "(if efi_boot then efi_mr_init mb2_mmap efi_map env [] else bios_mr_init mb2_mmap env []) = Some (env1, rs1)"
    and e2: "reserve_kernel kernel_end env1 rs1 = Some (env2, rs2)"
    and e3: "if ?a \<noteq> 0 then \<exists>env3. reserve_fb ?a (add64 ?a ?s) ?s env2 rs2 = Some (env3, rs) else rs = rs2"
    by (auto simp: pmm_init_def Let_def bind_eq_Some_conv split: if_splits)
  have "\<forall>x \<in> set rs1. no_wrap x"
    using e1 bios_mr_init_no_wrap efi_mr_init_no_wrap maps by (cases efi_boot) auto
  with reserve_kernel_reserves [OF e2] have nw: "\<forall>x \<in> set rs2. no_wrap x"
    and above: "\<forall>x \<in> set rs2. above_kernel kernel_end x"
    by (auto simp: above_kernel_def)
  have final: "\<forall>x \<in> set rs. above_kernel kernel_end x \<and> (?a \<noteq> 0 \<longrightarrow> clear_of ?a (?a + ?s) x)"
  proof (cases "?a = 0")
    case True
    with e3 above show ?thesis by simp
  next
    case False
    with e3 obtain env3 where "reserve_fb ?a (?a + ?s) ?s env2 rs2 = Some (env3, rs)"
      using add64_small [OF fb] by auto
    from reserve_fb_reserves [OF this, of kernel_end] nw above fb show ?thesis by blast
  qed
  then show ?thesis
    by (fastforce simp: usable_def span_def above_kernel_def clear_of_def split: if_splits)
qed

definition demo_tag :: mmap_tag where
  "demo_tag = \<lparr>tag_size = 40, tag_entry_size = 24,
     tag_entries = (\<lambda>i. \<lparr>entry_addr = 0, entry_len = 0x1000000, entry_type = 1\<rparr>)\<rparr>"

definition demo_mode :: screen_mode where
  "demo_mode = \<lparr>framebuffer = 0x800000, pitch = 1000, height = 10\<rparr>"

lemma demo_pmm_init:
  "pmm_init False (Some demo_tag) None 0x200000 demo_mode [(1, True), (2, True), (3, True), (4, True)] =
     Some [(1, \<lparr>mr_base = 0, mr_size = 0x200000, mr_type = MR_RESERVED\<rparr>),
           (2, \<lparr>mr_base = 0x200000, mr_size = 0x600000, mr_type = MR_USABLE\<rparr>),
           (4, \<lparr>mr_base = 0x800000, mr_size = 0x3000, mr_type = MR_RESERVED\<rparr>),
           (3, \<lparr>mr_base = 0x803000, mr_size = 0x7FD000, mr_type = MR_USABLE\<rparr>)]"
  by (simp add: pmm_init_def bios_mr_init_def demo_tag_def demo_mode_def sizeof_mmap_tag_def sub64_def
      region_add_def mb2_mrType_to_mrType_def reserve_kernel.simps reserve_fb.simps mr_end_def add64_def
      fb_reserved_size_def mul64_def Let_def)

theorem pmm_init_reserves_witness:
  "usable [(1, \<lparr>mr_base = 0, mr_size = 0x200000, mr_type = MR_RESERVED\<rparr>),
           (2, \<lparr>mr_base = 0x200000, mr_size = 0x600000, mr_type = MR_USABLE\<rparr>),
           (4, \<lparr>mr_base = 0x800000, mr_size = 0x3000, mr_type = MR_RESERVED\<rparr>),
           (3, \<lparr>mr_base = 0x803000, mr_size = 0x7FD000, mr_type = MR_USABLE\<rparr>)] \<inter> {0..<0x200000} = {}"
  using pmm_init_reserves [OF demo_pmm_init]
  by (simp add: mmap_ok_def efi_map_ok_def demo_tag_def demo_mode_def fb_reserved_size_def mul64_def)

text \<open>A region that starts below the end of the kernel and reaches beyond it is cut there, and
  the part beyond becomes usable whatever the type of the region was: reserved or ACPI memory
  of the firmware is handed out as free memory.\<close>

theorem reserve_kernel_frees_tail:
  assumes "mr_base r < kernel_end" and "kernel_end < mr_base r + mr_size r"
    and "mr_base r + mr_size r < 2 ^ 64" and "q \<noteq> 0"
  shows "\<exists>rs'. reserve_kernel kernel_end ((q, True) # env) [(p, r)] = Some (env, rs') \<and>
    usable rs' = {kernel_end..<mr_base r + mr_size r}"
proof -
  have "mr_end r = mr_base r + mr_size r" using assms by (simp add: mr_end_def add64_small)
  moreover have "sub64 (mr_base r + mr_size r) kernel_end = mr_base r + mr_size r - kernel_end"
    using assms by (simp add: sub64_le)
  ultimately show ?thesis
    using assms by (simp add: reserve_kernel.simps Let_def span_def)
qed

theorem reserve_kernel_frees_tail_witness:
  "\<exists>rs'. reserve_kernel 0x200000 [(7, True)]
     [(1, \<lparr>mr_base = 0x100000, mr_size = 0x300000, mr_type = MR_ACPI_NVS\<rparr>)] = Some ([], rs') \<and>
     usable rs' = {0x200000..<0x400000}"
  using reserve_kernel_frees_tail [of "\<lparr>mr_base = 0x100000, mr_size = 0x300000, mr_type = MR_ACPI_NVS\<rparr>"
      "0x200000" 7 "[]" 1] by simp

text \<open>On a list that is not in address order \<open>pmm_maintain\<close> joins a usable region with a usable
  region below it although they do not touch, and all memory between them becomes usable.\<close>

theorem pmm_maintain_swallows_gap:
  assumes "mr_type c = MR_USABLE" and "mr_type n = MR_USABLE" and "region_ok c" and "region_ok n"
    and "mr_base n + mr_size n \<le> mr_base c"
  shows "usable (pmm_maintain [(i, c), (j, n)]) = {mr_base n..<mr_base c + mr_size c}"
proof -
  have "mr_base c + mr_size c < 2 ^ 64" "mr_base n < mr_base c" "0 < mr_size c"
    using assms(3-5) by (auto simp: region_ok_def)
  then have "sub64 (mr_base c + mr_size c) (mr_base n) = mr_base c + mr_size c - mr_base n"
    by (simp add: sub64_le)
  with assms \<open>mr_base n < mr_base c\<close> \<open>0 < mr_size c\<close> show ?thesis
    by (auto simp: pmm_maintain_def Let_def span_def)
qed

theorem pmm_maintain_swallows_gap_witness:
  "usable (pmm_maintain [(1, \<lparr>mr_base = 0x9000, mr_size = 0x1000, mr_type = MR_USABLE\<rparr>),
                         (2, \<lparr>mr_base = 0x1000, mr_size = 0x1000, mr_type = MR_USABLE\<rparr>)]) = {0x1000..<0xA000}"
  by (subst pmm_maintain_swallows_gap) (simp_all add: region_ok_def)

text \<open>When there is no memory for the region object of the remainder, \<open>pmm_alloc\<close> returns null but
  has already taken the aligned region out of use: the whole region is lost.\<close>

theorem pmm_alloc_leaks:
  assumes "fits n r" and "region_ok r" and "n \<le> 2 ^ 64 - 4096" and "aligned_base r = mr_base r"
    and "n < mr_size r" and "suffix_mem env = 0"
  shows "fst (alloc_from env n [(p, r)] 0) = 0 \<and> usable [(p, r)] = span r \<and>
    usable (snd (alloc_from env n [(p, r)] 0)) = {}"
  using alloc_from_aligned [OF assms(1-4), of env "[]" p "[]"] assms
  by (simp add: taken_piece_def fits_def)

theorem pmm_alloc_leaks_witness:
  "usable (snd (alloc_from (demo_env\<lparr>suffix_mem := 0\<rparr>) 4096
     [(1, \<lparr>mr_base = 4096, mr_size = 0x9000, mr_type = MR_USABLE\<rparr>)] 0)) = {}"
  using pmm_alloc_leaks [of 4096 "\<lparr>mr_base = 4096, mr_size = 0x9000, mr_type = MR_USABLE\<rparr>"
      "demo_env\<lparr>suffix_mem := 0\<rparr>" 1]
  by (simp add: fits_def aligned_base_def PAGE_def demo_aligned add64_def region_ok_def)

end
