(* ===== verification/CString.thy ===== *)
theory CString
  imports Memory "HOL-Library.Sublist" "HOL-Library.List_Lexorder"
begin

text \<open>
  The string library, \<open>kernel/util/string.c\<close>, on the byte memory: every function with its
  loops as they are written. A loop that walks to a terminating zero byte is a partial
  function, \<open>None\<close> when there is none. A \<open>char\<close> is a byte; where the code compares or
  subtracts \<open>char\<close> values as signed numbers the conversion is written out. \<open>cstr m p s\<close>
  says that the bytes \<open>s\<close>, none of them zero, stand at \<open>p\<close> with a zero byte behind them.
\<close>

section \<open>Characters\<close>

definition to_lower :: "byte \<Rightarrow> byte" where
  "to_lower c = (if 65 \<le>s c \<and> c \<le>s 90 then c + 32 else c)"

definition to_upper :: "byte \<Rightarrow> byte" where
  "to_upper c = (if 97 \<le>s c \<and> c \<le>s 122 then c - 32 else c)"

definition is_alpha :: "byte \<Rightarrow> bool" where
  "is_alpha c \<longleftrightarrow> (97 \<le>s c \<and> c \<le>s 122) \<or> (65 \<le>s c \<and> c \<le>s 90)"

definition is_digit :: "byte \<Rightarrow> bool" where "is_digit c \<longleftrightarrow> 48 \<le>s c \<and> c \<le>s 57"

definition is_space :: "byte \<Rightarrow> bool" where
  "is_space c \<longleftrightarrow> c = 32 \<or> c = 9 \<or> c = 10 \<or> c = 13 \<or> c = 12 \<or> c = 11"

section \<open>Length and copying\<close>

partial_function (option) strlen_loop :: "mem \<Rightarrow> nat \<Rightarrow> nat \<Rightarrow> nat option" where
  "strlen_loop m str len = (if m (str + len) \<noteq> 0 then strlen_loop m str (len + 1) else Some len)"

definition strlen :: "mem \<Rightarrow> nat \<Rightarrow> nat option" where
  "strlen m str = (if str = 0 then Some 0 else strlen_loop m str 0)"

function strnlen_loop :: "mem \<Rightarrow> nat \<Rightarrow> nat \<Rightarrow> nat \<Rightarrow> nat" where
  "strnlen_loop m str maxlen len =
     (if len < maxlen \<and> m (str + len) \<noteq> 0 then strnlen_loop m str maxlen (len + 1) else len)"
  by pat_completeness auto
termination by (relation "measure (\<lambda>(m, str, maxlen, len). maxlen - len)") auto

definition strnlen :: "mem \<Rightarrow> nat \<Rightarrow> nat \<Rightarrow> nat" where
  "strnlen m str maxlen = (if str = 0 then 0 else strnlen_loop m str maxlen 0)"

text \<open>\<open>while ((*dest++ = *src++));\<close>\<close>

partial_function (option) copy_loop :: "mem \<Rightarrow> nat \<Rightarrow> nat \<Rightarrow> mem option" where
  "copy_loop m dest src =
     (let c = m src; m = m(dest := c)
      in if c \<noteq> 0 then copy_loop m (dest + 1) (src + 1) else Some m)"

definition strcpy :: "mem \<Rightarrow> nat \<Rightarrow> nat \<Rightarrow> (nat \<times> mem) option" where
  "strcpy m dest src =
     (if dest = 0 \<or> src = 0 then Some (dest, m)
      else do { m \<leftarrow> copy_loop m dest src; Some (dest, m) })"

text \<open>The two loops of \<open>strncpy\<close>: copying, then filling with zero bytes.\<close>

function strncpy_copy :: "mem \<Rightarrow> nat \<Rightarrow> nat \<Rightarrow> nat \<Rightarrow> nat \<Rightarrow> nat \<times> mem" where
  "strncpy_copy m dest src n i =
     (if i < n \<and> m (src + i) \<noteq> 0
      then strncpy_copy (m(dest + i := m (src + i))) dest src n (i + 1) else (i, m))"
  by pat_completeness auto
termination by (relation "measure (\<lambda>(m, dest, src, n, i). n - i)") auto

function strncpy_fill :: "mem \<Rightarrow> nat \<Rightarrow> nat \<Rightarrow> nat \<Rightarrow> mem" where
  "strncpy_fill m dest n i =
     (if i < n then strncpy_fill (m(dest + i := 0)) dest n (i + 1) else m)"
  by pat_completeness auto
termination by (relation "measure (\<lambda>(m, dest, n, i). n - i)") auto

definition strncpy :: "mem \<Rightarrow> nat \<Rightarrow> nat \<Rightarrow> nat \<Rightarrow> nat \<times> mem" where
  "strncpy m dest src n =
     (if dest = 0 \<or> src = 0 then (dest, m)
      else let (i, m) = strncpy_copy m dest src n 0 in (dest, strncpy_fill m dest n i))"

partial_function (option) seek_end :: "mem \<Rightarrow> nat \<Rightarrow> nat option" where
  "seek_end m dest = (if m dest \<noteq> 0 then seek_end m (dest + 1) else Some dest)"

definition strcat :: "mem \<Rightarrow> nat \<Rightarrow> nat \<Rightarrow> (nat \<times> mem) option" where
  "strcat m dest src =
     (if dest = 0 \<or> src = 0 then Some (dest, m)
      else do { e \<leftarrow> seek_end m dest; m \<leftarrow> copy_loop m e src; Some (dest, m) })"

definition strncat :: "mem \<Rightarrow> nat \<Rightarrow> nat \<Rightarrow> nat \<Rightarrow> (nat \<times> mem) option" where
  "strncat m dest src n =
     (if dest = 0 \<or> src = 0 then Some (dest, m)
      else do {
        e \<leftarrow> seek_end m dest;
        let (i, m) = strncpy_copy m e src n 0;
        Some (dest, m(e + i := 0))
      })"

section \<open>Comparison\<close>

text \<open>The answer when one of the pointers is null.\<close>

definition null_cmp :: "nat \<Rightarrow> nat \<Rightarrow> int" where
  "null_cmp str1 str2 = (if str1 = str2 then 0 else if str1 \<noteq> 0 then 1 else -1)"

partial_function (option) strcmp_loop :: "mem \<Rightarrow> nat \<Rightarrow> nat \<Rightarrow> int option" where
  "strcmp_loop m a b =
     (if m a \<noteq> 0 \<and> m a = m b then strcmp_loop m (a + 1) (b + 1)
      else Some (uint (m a) - uint (m b)))"

definition strcmp :: "mem \<Rightarrow> nat \<Rightarrow> nat \<Rightarrow> int option" where
  "strcmp m str1 str2 =
     (if str1 = 0 \<or> str2 = 0 then Some (null_cmp str1 str2) else strcmp_loop m str1 str2)"

function strncmp_loop :: "mem \<Rightarrow> nat \<Rightarrow> nat \<Rightarrow> nat \<Rightarrow> nat \<Rightarrow> int" where
  "strncmp_loop m a b n i =
     (if i < n \<and> m (a + i) \<noteq> 0 \<and> m (a + i) = m (b + i) then strncmp_loop m a b n (i + 1)
      else if i = n then 0 else uint (m (a + i)) - uint (m (b + i)))"
  by pat_completeness auto
termination by (relation "measure (\<lambda>(m, a, b, n, i). n - i)") auto

definition strncmp :: "mem \<Rightarrow> nat \<Rightarrow> nat \<Rightarrow> nat \<Rightarrow> int" where
  "strncmp m str1 str2 n =
     (if str1 = 0 \<or> str2 = 0 \<or> n = 0 then if n = 0 then 0 else null_cmp str1 str2
      else strncmp_loop m str1 str2 n 0)"

partial_function (option) strcasecmp_loop :: "mem \<Rightarrow> nat \<Rightarrow> nat \<Rightarrow> int option" where
  "strcasecmp_loop m a b =
     (if m a \<noteq> 0 \<and> to_lower (m a) = to_lower (m b) then strcasecmp_loop m (a + 1) (b + 1)
      else Some (sint (to_lower (m a)) - sint (to_lower (m b))))"

definition strcasecmp :: "mem \<Rightarrow> nat \<Rightarrow> nat \<Rightarrow> int option" where
  "strcasecmp m str1 str2 =
     (if str1 = 0 \<or> str2 = 0 then Some (null_cmp str1 str2) else strcasecmp_loop m str1 str2)"

function strncasecmp_loop :: "mem \<Rightarrow> nat \<Rightarrow> nat \<Rightarrow> nat \<Rightarrow> nat \<Rightarrow> int" where
  "strncasecmp_loop m a b n i =
     (if i < n \<and> m (a + i) \<noteq> 0 \<and> to_lower (m (a + i)) = to_lower (m (b + i))
      then strncasecmp_loop m a b n (i + 1)
      else if i = n then 0 else sint (to_lower (m (a + i))) - sint (to_lower (m (b + i))))"
  by pat_completeness auto
termination by (relation "measure (\<lambda>(m, a, b, n, i). n - i)") auto

definition strncasecmp :: "mem \<Rightarrow> nat \<Rightarrow> nat \<Rightarrow> nat \<Rightarrow> int" where
  "strncasecmp m str1 str2 n =
     (if str1 = 0 \<or> str2 = 0 \<or> n = 0 then if n = 0 then 0 else null_cmp str1 str2
      else strncasecmp_loop m str1 str2 n 0)"

section \<open>Searching\<close>

text \<open>A result of 0 is the null pointer.\<close>

partial_function (option) strchr_loop :: "mem \<Rightarrow> nat \<Rightarrow> int \<Rightarrow> nat option" where
  "strchr_loop m str c =
     (if m str \<noteq> 0 then if m str = word_of_int c then Some str else strchr_loop m (str + 1) c
      else if c = 0 then Some str else Some 0)"

definition strchr :: "mem \<Rightarrow> nat \<Rightarrow> int \<Rightarrow> nat option" where
  "strchr m str c = (if str = 0 then Some 0 else strchr_loop m str c)"

partial_function (option) strrchr_loop :: "mem \<Rightarrow> nat \<Rightarrow> int \<Rightarrow> nat \<Rightarrow> nat option" where
  "strrchr_loop m str c last_hit =
     (let last_hit = (if m str = word_of_int c then str else last_hit)
      in if m str \<noteq> 0 then strrchr_loop m (str + 1) c last_hit else Some last_hit)"

definition strrchr :: "mem \<Rightarrow> nat \<Rightarrow> int \<Rightarrow> nat option" where
  "strrchr m str c = (if str = 0 then Some 0 else strrchr_loop m str c 0)"

text \<open>The inner loop of \<open>strstr\<close>; the answer is whether it ran to the end of the needle.\<close>

partial_function (option) match_loop :: "mem \<Rightarrow> nat \<Rightarrow> nat \<Rightarrow> bool option" where
  "match_loop m h n =
     (if m h \<noteq> 0 \<and> m n \<noteq> 0 \<and> m h = m n then match_loop m (h + 1) (n + 1) else Some (m n = 0))"

partial_function (option) strstr_loop :: "mem \<Rightarrow> nat \<Rightarrow> nat \<Rightarrow> nat option" where
  "strstr_loop m haystack needle =
     (if m haystack \<noteq> 0 then do {
        hit \<leftarrow> match_loop m haystack needle;
        if hit then Some haystack else strstr_loop m (haystack + 1) needle
      } else Some 0)"

definition strstr :: "mem \<Rightarrow> nat \<Rightarrow> nat \<Rightarrow> nat option" where
  "strstr m haystack needle =
     (if haystack = 0 \<or> needle = 0 then Some 0
      else if m needle = 0 then Some haystack
      else strstr_loop m haystack needle)"

function strnstr_loop :: "mem \<Rightarrow> nat \<Rightarrow> nat \<Rightarrow> nat \<Rightarrow> nat \<Rightarrow> nat \<Rightarrow> nat" where
  "strnstr_loop m haystack needle needle_len last_hit i =
     (if i \<le> last_hit then
        if strncmp m (haystack + i) needle needle_len = 0 then haystack + i
        else strnstr_loop m haystack needle needle_len last_hit (i + 1)
      else 0)"
  by pat_completeness auto
termination by (relation "measure (\<lambda>(m, h, n, nl, last_hit, i). Suc last_hit - i)") auto

definition strnstr :: "mem \<Rightarrow> nat \<Rightarrow> nat \<Rightarrow> nat \<Rightarrow> nat option" where
  "strnstr m haystack needle len =
     (if haystack = 0 \<or> needle = 0 then Some 0
      else if m needle = 0 then Some haystack
      else do {
        needle_len \<leftarrow> strlen m needle;
        if needle_len > len then Some 0
        else Some (strnstr_loop m haystack needle needle_len (len - needle_len) 0)
      })"

text \<open>\<open>new_buffer\<close> is what \<open>malloc\<close> returned, which the code does not check.\<close>

definition strdup :: "bool \<Rightarrow> mem \<Rightarrow> nat \<Rightarrow> nat \<Rightarrow> (nat \<times> mem) option" where
  "strdup erms m str new_buffer = do {
     len \<leftarrow> strlen m str;
     if new_buffer = 0 \<or> str = 0 then None
     else Some (new_buffer, memcpy erms new_buffer str (len + 1) m)
   }"

partial_function (option) strspn_loop :: "mem \<Rightarrow> nat \<Rightarrow> nat \<Rightarrow> nat \<Rightarrow> nat option" where
  "strspn_loop m str1 str2 count =
     (if m (str1 + count) \<noteq> 0 then do {
        p \<leftarrow> strchr m str2 (sint (m (str1 + count)));
        if p \<noteq> 0 then strspn_loop m str1 str2 (count + 1) else Some count
      } else Some count)"

definition strspn :: "mem \<Rightarrow> nat \<Rightarrow> nat \<Rightarrow> nat option" where
  "strspn m str1 str2 = (if str1 = 0 \<or> str2 = 0 then Some 0 else strspn_loop m str1 str2 0)"

partial_function (option) strcspn_loop :: "mem \<Rightarrow> nat \<Rightarrow> nat \<Rightarrow> nat \<Rightarrow> nat option" where
  "strcspn_loop m str1 str2 count =
     (if m (str1 + count) \<noteq> 0 then do {
        p \<leftarrow> strchr m str2 (sint (m (str1 + count)));
        if p = 0 then strcspn_loop m str1 str2 (count + 1) else Some count
      } else Some count)"

definition strcspn :: "mem \<Rightarrow> nat \<Rightarrow> nat \<Rightarrow> nat option" where
  "strcspn m str1 str2 = (if str1 = 0 \<or> str2 = 0 then strlen m str1 else strcspn_loop m str1 str2 0)"

partial_function (option) strpbrk_loop :: "mem \<Rightarrow> nat \<Rightarrow> nat \<Rightarrow> nat option" where
  "strpbrk_loop m str1 str2 =
     (if m str1 \<noteq> 0 then do {
        p \<leftarrow> strchr m str2 (sint (m str1));
        if p \<noteq> 0 then Some str1 else strpbrk_loop m (str1 + 1) str2
      } else Some 0)"

definition strpbrk :: "mem \<Rightarrow> nat \<Rightarrow> nat \<Rightarrow> nat option" where
  "strpbrk m str1 str2 = (if str1 = 0 \<or> str2 = 0 then Some 0 else strpbrk_loop m str1 str2)"

text \<open>\<open>strtok\<close> keeps its position in \<open>saved_str\<close> between calls; the two scanning loops differ in the
  sign of the test.\<close>

partial_function (option) tok_scan :: "bool \<Rightarrow> mem \<Rightarrow> nat \<Rightarrow> nat \<Rightarrow> nat option" where
  "tok_scan in_delim m delim saved =
     (if m saved \<noteq> 0 then do {
        p \<leftarrow> strchr m delim (sint (m saved));
        if (p \<noteq> 0) = in_delim then tok_scan in_delim m delim (saved + 1) else Some saved
      } else Some saved)"

definition strtok :: "mem \<Rightarrow> nat \<Rightarrow> nat \<Rightarrow> nat \<Rightarrow> (nat \<times> nat \<times> mem) option" where
  "strtok m str delim saved_str =
     (if str = 0 \<and> saved_str = 0 then Some (0, 0, m)
      else do {
        let saved = (if str \<noteq> 0 then str else saved_str);
        saved \<leftarrow> tok_scan True m delim saved;
        if m saved = 0 then Some (0, 0, m)
        else do {
          let token_start = saved;
          saved \<leftarrow> tok_scan False m delim saved;
          if m saved \<noteq> 0 then Some (token_start, saved + 1, m(saved := 0))
          else Some (token_start, 0, m)
        }
      })"

section \<open>Strings in memory\<close>

primrec cstr :: "mem \<Rightarrow> nat \<Rightarrow> byte list \<Rightarrow> bool" where
  "cstr m p [] \<longleftrightarrow> m p = 0"
| "cstr m p (c # cs) \<longleftrightarrow> c \<noteq> 0 \<and> m p = c \<and> cstr m (p + 1) cs"

text \<open>Byte-wise difference of two strings, the end counting as a zero byte.\<close>

fun str_diff :: "byte list \<Rightarrow> byte list \<Rightarrow> int" where
  "str_diff [] [] = 0"
| "str_diff [] (y # ys) = - uint y"
| "str_diff (x # xs) [] = uint x"
| "str_diff (x # xs) (y # ys) = (if x = y then str_diff xs ys else uint x - uint y)"

lemma cstr_cong: "(\<And>a. p \<le> a \<Longrightarrow> a \<le> p + length s \<Longrightarrow> m a = m' a) \<Longrightarrow> cstr m p s = cstr m' p s"
  by (induction s arbitrary: p) auto

lemma cstr_nth: "cstr m p s \<longleftrightarrow> (\<forall>i < length s. m (p + i) = s ! i \<and> s ! i \<noteq> 0) \<and> m (p + length s) = 0"
proof (induction s arbitrary: p)
  case (Cons c s)
  show ?case by (auto simp: Cons All_less_Suc2)
qed simp

lemma cstr_append: "cstr m p (s @ t) \<longleftrightarrow> (\<forall>i < length s. m (p + i) = s ! i \<and> s ! i \<noteq> 0) \<and> cstr m (p + length s) t"
  by (induction s arbitrary: p) (auto simp: All_less_Suc2 add.assoc)

lemma strlen_loop_cstr: "cstr m (p + k) s \<Longrightarrow> strlen_loop m p k = Some (k + length s)"
proof (induction s arbitrary: k)
  case Nil
  then show ?case by (subst strlen_loop.simps) simp
next
  case (Cons c s)
  then have "strlen_loop m p (k + 1) = Some (k + 1 + length s)" by (intro Cons.IH) simp
  with Cons.prems show ?case by (subst strlen_loop.simps) simp
qed

lemma strlen_cstr: "p \<noteq> 0 \<Longrightarrow> cstr m p s \<Longrightarrow> strlen m p = Some (length s)"
  using strlen_loop_cstr [of m p 0 s] by (simp add: strlen_def)

lemma seek_end_cstr: "cstr m p s \<Longrightarrow> seek_end m p = Some (p + length s)"
proof (induction s arbitrary: p)
  case Nil
  then show ?case by (subst seek_end.simps) simp
next
  case (Cons c s)
  then have "seek_end m (p + 1) = Some (p + 1 + length s)" by (intro Cons.IH) simp
  with Cons.prems show ?case by (subst seek_end.simps) simp
qed

lemma copy_loop_cstr:
  assumes "cstr m s x" and "d \<le> s \<or> s + length x < d"
  shows "copy_loop m d s = Some (copied d s (length x + 1) m)"
  using assms
proof (induction x arbitrary: m d s)
  case Nil
  then show ?case using copied_1 [of m d s] by (subst copy_loop.simps) simp
next
  case (Cons c x)
  have "cstr (m(d := m s)) (s + 1) x"
    using Cons.prems by (subst cstr_cong [of _ _ _ m]) auto
  then have "copy_loop (m(d := m s)) (d + 1) (s + 1) = Some (copied (d + 1) (s + 1) (length x + 1) (m(d := m s)))"
    by (rule Cons.IH) (use Cons.prems(2) in auto)
  also have "copied (d + 1) (s + 1) (length x + 1) (m(d := m s)) = copied d s (length (c # x) + 1) m"
    using copied_compose [of d s 1 "length x + 1" m] Cons.prems(2) by (auto simp: copied_1)
  finally have rec: "copy_loop (m(d := m s)) (d + 1) (s + 1) = Some (copied d s (length (c # x) + 1) m)" .
  have "m s \<noteq> 0" using Cons.prems(1) by auto
  then show ?case
    by (subst copy_loop.simps) (simp only: Let_def rec if_True not_False_eq_True)
qed

lemma cstr_copied: "cstr m s x \<Longrightarrow> cstr (copied d s (length x + 1) m) d x"
  by (simp add: cstr_nth copied_def)

lemma strcmp_loop_cstr: "cstr m a s \<Longrightarrow> cstr m b t \<Longrightarrow> strcmp_loop m a b = Some (str_diff s t)"
proof (induction s t arbitrary: a b rule: str_diff.induct)
  case (4 x xs y ys)
  show ?case
  proof (cases "x = y")
    case True
    with 4 have "strcmp_loop m (a + 1) (b + 1) = Some (str_diff xs ys)" by simp
    with 4 True show ?thesis by (subst strcmp_loop.simps) simp
  next
    case False
    with 4 show ?thesis by (subst strcmp_loop.simps) auto
  qed
qed (subst strcmp_loop.simps, simp)+

lemma str_diff_order:
  "0 \<notin> set s \<Longrightarrow> 0 \<notin> set t \<Longrightarrow> (str_diff s t = 0 \<longleftrightarrow> s = t) \<and> (str_diff s t < 0 \<longleftrightarrow> s < t)"
proof (induction s t rule: str_diff.induct)
  case (2 y ys)
  then have "0 < uint y" using uint_ge_0 [of y] uint_0_iff [of y] by (auto simp: less_le)
  then show ?case by simp
next
  case (3 x xs)
  then have "0 < uint x" using uint_ge_0 [of x] uint_0_iff [of x] by (auto simp: less_le)
  then show ?case by simp
next
  case (4 x xs y ys)
  then show ?case by (auto simp: word_less_def word_uint_eq_iff)
qed simp

lemma cstr_no_zero: "cstr m p s \<Longrightarrow> 0 \<notin> set s"
  by (induction s arbitrary: p) auto

lemma match_loop_cstr: "cstr m h s \<Longrightarrow> cstr m n t \<Longrightarrow> match_loop m h n = Some (prefix t s)"
proof (induction s t arbitrary: h n rule: str_diff.induct)
  case (4 x xs y ys)
  show ?case
  proof (cases "x = y")
    case True
    with 4 have "match_loop m (h + 1) (n + 1) = Some (prefix ys xs)" by simp
    with 4 True show ?thesis by (subst match_loop.simps) simp
  next
    case False
    with 4 show ?thesis by (subst match_loop.simps) auto
  qed
qed (subst match_loop.simps, simp)+

lemma strstr_loop_cstr:
  assumes "cstr m h s" and "cstr m n t" and "t \<noteq> []"
  shows "\<exists>r. strstr_loop m h n = Some r \<and>
    (if sublist t s then \<exists>i. r = h + i \<and> prefix t (drop i s) \<and> (\<forall>j < i. \<not> prefix t (drop j s)) else r = 0)"
  using assms
proof (induction s arbitrary: h)
  case Nil
  then show ?case by (subst strstr_loop.simps) simp
next
  case (Cons c s)
  have hit: "match_loop m h n = Some (prefix t (c # s))" by (rule match_loop_cstr [OF Cons.prems(1,2)])
  show ?case
  proof (cases "prefix t (c # s)")
    case True
    then have "strstr_loop m h n = Some h"
      using Cons.prems(1) hit by (subst strstr_loop.simps) simp
    with True show ?thesis by (auto intro!: exI [of _ 0] simp: prefix_imp_sublist)
  next
    case False
    then have step: "strstr_loop m h n = strstr_loop m (h + 1) n"
      using Cons.prems(1) hit by (subst strstr_loop.simps) simp
    have sub: "sublist t (c # s) \<longleftrightarrow> sublist t s" using False by (simp add: sublist_Cons_right)
    from Cons.prems(1) have "cstr m (h + 1) s" by simp
    from Cons.IH [OF this Cons.prems(2,3)] obtain r where r: "strstr_loop m (h + 1) n = Some r"
      "if sublist t s then \<exists>i. r = h + 1 + i \<and> prefix t (drop i s) \<and> (\<forall>j < i. \<not> prefix t (drop j s)) else r = 0"
      by blast
    show ?thesis
    proof (cases "sublist t s")
      case True
      with r(2) obtain i where "r = h + Suc i" "prefix t (drop (Suc i) (c # s))" "\<forall>j < i. \<not> prefix t (drop j s)"
        by auto
      moreover from this(3) False have "\<forall>j < Suc i. \<not> prefix t (drop j (c # s))"
        by (simp add: All_less_Suc2)
      ultimately show ?thesis using step r(1) True sub by auto
    qed (use step r sub in auto)
  qed
qed

lemma strchr_loop_cstr:
  assumes "cstr m p s" and "c \<noteq> 0" and "0 < p"
  shows "\<exists>r. strchr_loop m p (sint c) = Some r \<and> (r \<noteq> 0 \<longleftrightarrow> c \<in> set s)"
  using assms
proof (induction s arbitrary: p)
  case Nil
  have "sint c \<noteq> 0"
  proof
    assume "sint c = 0"
    then have "sint c = sint (0 :: byte)" by simp
    then have "c = 0" by (rule signed_word_eqI)
    with \<open>c \<noteq> 0\<close> show False by simp
  qed
  with Nil show ?case by (subst strchr_loop.simps) simp
next
  case (Cons a s)
  then have "\<exists>r. strchr_loop m (p + 1) (sint c) = Some r \<and> (r \<noteq> 0 \<longleftrightarrow> c \<in> set s)" by simp
  with Cons.prems show ?case by (subst strchr_loop.simps) auto
qed

lemma strcat_cstr:
  assumes "cstr m d x" and "cstr m s y" and "d \<noteq> 0" and "s \<noteq> 0"
    and sep: "d + length x + length y < s \<or> s + length y < d"
  shows "\<exists>m'. strcat m d s = Some (d, m') \<and> cstr m' d (x @ y) \<and> cstr m' s y \<and>
    (\<forall>a. a < d + length x \<or> d + length x + length y < a \<longrightarrow> m' a = m a)"
proof -
  define m' where "m' = copied (d + length x) s (length y + 1) m"
  have "copy_loop m (d + length x) s = Some m'"
    using copy_loop_cstr [OF assms(2), of "d + length x"] sep by (auto simp: m'_def)
  then have "strcat m d s = Some (d, m')"
    using assms(3,4) seek_end_cstr [OF assms(1)] by (simp add: strcat_def)
  moreover have frame: "m' a = m a" if "a < d + length x \<or> d + length x + length y < a" for a
    using that by (auto simp: m'_def copied_def)
  moreover have "cstr m' (d + length x) y" unfolding m'_def by (rule cstr_copied [OF assms(2)])
  then have "cstr m' d (x @ y)"
    using assms(1) frame by (simp add: cstr_append) (simp add: cstr_nth)
  moreover have "cstr m' s y"
    using assms(2) sep frame by (subst cstr_cong [of _ _ _ m]) auto
  ultimately show ?thesis by blast
qed

text \<open>The scanning loops of \<open>strtok\<close> and what they stop at.\<close>

lemma strchr_delim:
  "cstr m d D \<Longrightarrow> d \<noteq> 0 \<Longrightarrow> c \<noteq> 0 \<Longrightarrow> \<exists>r. strchr m d (sint c) = Some r \<and> (r \<noteq> 0 \<longleftrightarrow> c \<in> set D)"
  using strchr_loop_cstr [of m d D c] by (simp add: strchr_def)

lemma tok_scan_cstr:
  assumes "cstr m s x" and "cstr m d D" and "d \<noteq> 0"
  shows "tok_scan b m d s = Some (s + length (takeWhile (\<lambda>c. (c \<in> set D) = b) x))"
  using assms(1)
proof (induction x arbitrary: s)
  case Nil
  then show ?case by (subst tok_scan.simps) simp
next
  case (Cons c x)
  then have c: "c \<noteq> 0" "m s = c" "cstr m (s + 1) x" by auto
  from strchr_delim [OF assms(2,3) c(1)] obtain r where
    r: "strchr m d (sint c) = Some r" "r \<noteq> 0 \<longleftrightarrow> c \<in> set D" by blast
  from Cons.IH [OF c(3)] show ?case
    using c r by (subst tok_scan.simps) simp
qed

lemma cstr_drop: "cstr m p (x @ y) \<Longrightarrow> cstr m (p + length x) y"
  by (simp add: cstr_append)

lemma strtok_cstr:
  assumes str: "cstr m s x" and delim: "cstr m d D" "d \<noteq> 0" and "str = s \<and> s \<noteq> 0 \<or> str = 0 \<and> saved = s \<and> s \<noteq> 0"
  defines "lead \<equiv> takeWhile (\<lambda>c. c \<in> set D) x" and "rest \<equiv> dropWhile (\<lambda>c. c \<in> set D) x"
  defines "token \<equiv> takeWhile (\<lambda>c. c \<notin> set D) rest" and "after \<equiv> dropWhile (\<lambda>c. c \<notin> set D) rest"
  shows "strtok m str d saved =
    (if rest = [] then Some (0, 0, m)
     else if after = [] then Some (s + length lead, 0, m)
     else Some (s + length lead, s + length lead + length token + 1, m(s + length lead + length token := 0)))"
proof -
  let ?t = "s + length lead"
  have x: "x = lead @ rest" "rest = token @ after" by (simp_all add: lead_def rest_def token_def after_def)
  have t: "cstr m ?t rest" using str cstr_drop [of m s lead rest] x(1) by simp
  have e: "cstr m (?t + length token) after" using t cstr_drop [of m ?t token after] x(2) by simp
  have s1: "tok_scan True m d s = Some ?t" using tok_scan_cstr [OF str delim, of True] by (simp add: lead_def)
  have s2: "tok_scan False m d ?t = Some (?t + length token)"
    using tok_scan_cstr [OF t delim, of False] by (simp add: token_def)
  have z1: "m ?t = 0 \<longleftrightarrow> rest = []" using t by (cases rest) auto
  have z2: "m (?t + length token) = 0 \<longleftrightarrow> after = []" using e by (cases after) auto
  have sv: "(if str \<noteq> 0 then str else saved) = s" "\<not> (str = 0 \<and> saved = 0)" using assms(4) by auto
  show ?thesis
    unfolding strtok_def sv(1) using sv(2) s1 s2 z1 z2 by (auto simp: Let_def)
qed

section \<open>Properties\<close>

text \<open>C20. \<open>strcat\<close> of two strings that do not overlap, with room behind the first, leaves their
  concatenation at the destination, the source intact, and changes nothing else.\<close>

theorem strcat_correct:
  assumes "cstr m d x" and "cstr m s y" and "d \<noteq> 0" and "s \<noteq> 0"
    and "d + length x + length y < s \<or> s + length y < d"
  shows "\<exists>m'. strcat m d s = Some (d, m') \<and> cstr m' d (x @ y) \<and> cstr m' s y \<and>
    (\<forall>a. a < d + length x \<or> d + length x + length y < a \<longrightarrow> m' a = m a)"
  using assms by (rule strcat_cstr)

definition demo_text :: mem where
  "demo_text = put_bytes (\<lambda>_. 0) 1 [97, 98, 0, 0, 0, 0, 0, 99, 100, 0, 44, 0]"

theorem strcat_correct_witness:
  "\<exists>m'. strcat demo_text 1 8 = Some (1, m') \<and> cstr m' 1 [97, 98, 99, 100]"
  using strcat_correct [of demo_text 1 "[97, 98]" 8 "[99, 100]"]
  by (force simp: demo_text_def put_bytes_def)

text \<open>C21. \<open>strcmp\<close> of two strings is zero exactly when they are equal and negative exactly when the
  first is before the second in the lexicographic order of unsigned bytes.\<close>

theorem strcmp_correct:
  assumes "cstr m a s" and "cstr m b t" and "a \<noteq> 0" and "b \<noteq> 0"
  shows "\<exists>r. strcmp m a b = Some r \<and> (r = 0 \<longleftrightarrow> s = t) \<and> (r < 0 \<longleftrightarrow> s < t)"
  using strcmp_loop_cstr [OF assms(1,2)] str_diff_order [OF cstr_no_zero [OF assms(1)] cstr_no_zero [OF assms(2)]]
    assms(3,4)
  by (simp add: strcmp_def)

theorem strcmp_correct_witness: "\<exists>r. strcmp demo_text 1 8 = Some r \<and> r < 0"
proof -
  have "cstr demo_text 1 [97, 98]" "cstr demo_text 8 [99, 100]"
    by (simp_all add: demo_text_def put_bytes_def)
  from strcmp_correct [OF this] show ?thesis by auto
qed

text \<open>C22. \<open>strstr\<close> with a non-empty needle returns the address of its first occurrence in the
  haystack, or null when there is none.\<close>

theorem strstr_correct:
  assumes "cstr m h s" and "cstr m n t" and "h \<noteq> 0" and "n \<noteq> 0" and "t \<noteq> []"
  shows "\<exists>r. strstr m h n = Some r \<and>
    (if sublist t s then \<exists>i. r = h + i \<and> prefix t (drop i s) \<and> (\<forall>j < i. \<not> prefix t (drop j s)) else r = 0)"
proof -
  have "m n \<noteq> 0" using assms(2,5) by (cases t) auto
  with strstr_loop_cstr [OF assms(1,2,5)] assms(3,4) show ?thesis by (simp add: strstr_def)
qed

theorem strstr_correct_witness: "strstr demo_text 1 8 = Some 0"
proof -
  have "cstr demo_text 1 [97, 98]" "cstr demo_text 8 [99, 100]"
    by (simp_all add: demo_text_def put_bytes_def)
  from strstr_correct [OF this] show ?thesis by (simp add: sublist_Cons_right)
qed

text \<open>C23. \<open>strtok\<close> skips leading delimiters, cuts off the next token by a zero byte and resumes
  behind it; it returns null when only delimiters are left.\<close>

theorem strtok_correct:
  assumes "cstr m s x" and "cstr m d D" and "d \<noteq> 0" and "s \<noteq> 0"
    and "d + length D < s \<or> s + length x < d"
  defines "lead \<equiv> takeWhile (\<lambda>c. c \<in> set D) x" and "rest \<equiv> dropWhile (\<lambda>c. c \<in> set D) x"
  defines "token \<equiv> takeWhile (\<lambda>c. c \<notin> set D) rest" and "after \<equiv> dropWhile (\<lambda>c. c \<notin> set D) rest"
  shows "\<exists>tok saved m'. strtok m s d 0 = Some (tok, saved, m') \<and> strtok m 0 d s = Some (tok, saved, m') \<and>
    (if rest = [] then tok = 0 \<and> saved = 0 \<and> m' = m
     else tok = s + length lead \<and> cstr m' tok token \<and> cstr m' d D \<and>
       (if after = [] then saved = 0 else cstr m' saved (tl after)))"
proof -
  let ?t = "s + length lead" and ?m = "m(s + length lead + length token := 0)"
  have x: "x = lead @ rest" "rest = token @ after" by (simp_all add: lead_def rest_def token_def after_def)
  note eq = strtok_cstr [OF assms(1-3), folded lead_def rest_def, folded token_def after_def]
  have t: "cstr m ?t rest" using assms(1) cstr_drop [of m s lead rest] x(1) by simp
  have e: "cstr m (?t + length token) after" using t cstr_drop [of m ?t token after] x(2) by simp
  have cut: "cstr ?m ?t token" "cstr ?m d D" "cstr ?m (?t + length token + 1) (tl after)" if "after \<noteq> []"
  proof -
    show "cstr ?m ?t token" using t x(2) by (simp add: cstr_append) (simp add: cstr_nth)
    have "length lead + length token \<le> length x" using x by simp
    then show "cstr ?m d D" using assms(2,5) by (subst cstr_cong [of _ _ _ m]) auto
    have "cstr m (?t + length token + 1) (tl after)" using e that by (cases after) auto
    then show "cstr ?m (?t + length token + 1) (tl after)" by (subst cstr_cong [of _ _ _ m]) auto
  qed
  have "cstr m ?t token" if "after = []" using t x(2) that by simp
  with cut show ?thesis
    using eq [of s 0] eq [of 0 s] assms(2,4) by (cases "rest = []"; cases "after = []") simp_all
qed

theorem strtok_correct_witness:
  "\<exists>tok saved m'. strtok demo_text 1 11 0 = Some (tok, saved, m') \<and> cstr m' tok [97, 98]"
proof -
  have "cstr demo_text 1 [97, 98]" "cstr demo_text 11 [44]"
    by (simp_all add: demo_text_def put_bytes_def)
  from strtok_correct [OF this] show ?thesis by auto
qed

end
