(* ===== verification/Convert.thy ===== *)
theory Convert
  imports CString
begin

text \<open>
  Integer to text conversion, \<open>kernel/util/convert.c\<close>: the bit-serial division
  \<open>udivmod_u64\<close>, the digit loop and the reversal of \<open>utoa_impl\<close>, and the unsigned and
  signed entry points. Values are kept at their machine width. \<open>None\<close> stands for a read
  behind the digit table, for a loop that does not end (bases 0 and 1) and for the undefined
  negation of the smallest signed value. \<open>dtoa\<close> works on floating-point numbers and is left out.
\<close>

section \<open>Model\<close>

definition validate_base :: "32 word \<Rightarrow> bool" where
  "validate_base base \<longleftrightarrow> 2 \<le>s base \<and> base \<le>s 36"

text \<open>The loop of \<open>udivmod_u64\<close> with \<open>Suc i\<close> rounds to go, the next one for bit \<open>i\<close>.\<close>

primrec udivmod_loop :: "nat \<Rightarrow> 64 word \<Rightarrow> 32 word \<Rightarrow> 64 word \<Rightarrow> 64 word \<Rightarrow> 64 word \<times> 64 word" where
  "udivmod_loop 0 val base q r = (q, r)"
| "udivmod_loop (Suc i) val base q r =
     (let r = push_bit 1 r OR (drop_bit i val AND 1)
      in if ucast base \<le> r then udivmod_loop i val base (q OR push_bit i 1) (r - ucast base)
         else udivmod_loop i val base q r)"

definition udivmod_u64 :: "64 word \<Rightarrow> 32 word \<Rightarrow> 64 word \<times> 32 word" where
  "udivmod_u64 val base = (let (q, r) = udivmod_loop 64 val base 0 0 in (q, ucast r))"

text \<open>The digit tables are 36 characters and a zero byte.\<close>

definition digit_at :: "bool \<Rightarrow> 32 word \<Rightarrow> byte option" where
  "digit_at uppercase rem =
     (if rem < 10 then Some (48 + ucast rem)
      else if rem < 36 then Some ((if uppercase then 65 else 97) + ucast (rem - 10))
      else if rem = 36 then Some 0 else None)"

partial_function (option) digits_loop ::
  "mem \<Rightarrow> nat \<Rightarrow> 32 word \<Rightarrow> bool \<Rightarrow> 64 word \<Rightarrow> nat \<Rightarrow> (nat \<times> mem) option" where
  "digits_loop m buffer base uppercase val i =
     (if val = 0 then Some (i, m)
      else (let (val, rem) = udivmod_u64 val base
            in do { c \<leftarrow> digit_at uppercase rem;
                    digits_loop (m(buffer + i := c)) buffer base uppercase val (i + 1) }))"

text \<open>\<open>k\<close> rounds of the reversal, the next one for index \<open>j\<close>.\<close>

primrec reverse_loop :: "nat \<Rightarrow> nat \<Rightarrow> nat \<Rightarrow> nat \<Rightarrow> mem \<Rightarrow> mem" where
  "reverse_loop 0 j buffer i m = m"
| "reverse_loop (Suc k) j buffer i m =
     (let tmp = m (buffer + j); m = m(buffer + j := m (buffer + (i - 1 - j)))
      in reverse_loop k (j + 1) buffer i (m(buffer + (i - 1 - j) := tmp)))"

definition utoa_impl :: "mem \<Rightarrow> 64 word \<Rightarrow> nat \<Rightarrow> 32 word \<Rightarrow> bool \<Rightarrow> (nat \<times> mem) option" where
  "utoa_impl m val buffer base uppercase =
     (if val = 0 then Some (buffer, m(buffer := 48, buffer + 1 := 0))
      else do { (i, m) \<leftarrow> digits_loop m buffer base uppercase val 0;
                Some (buffer, (reverse_loop (i div 2) 0 buffer i m)(buffer + i := 0)) })"

text \<open>\<open>s_int_buffer\<close> is the address of the static buffer.\<close>

definition ulltoa :: "nat \<Rightarrow> mem \<Rightarrow> 64 word \<Rightarrow> nat \<Rightarrow> 32 word \<Rightarrow> (nat \<times> mem) option" where
  "ulltoa s_int_buffer m val buffer base =
     (if \<not> validate_base base then Some (0, m)
      else utoa_impl m val (if buffer = 0 then s_int_buffer else buffer) base False)"

definition ultoa :: "nat \<Rightarrow> mem \<Rightarrow> 64 word \<Rightarrow> nat \<Rightarrow> 32 word \<Rightarrow> (nat \<times> mem) option" where
  "ultoa s_int_buffer m val buffer base = ulltoa s_int_buffer m val buffer base"

definition utoa :: "nat \<Rightarrow> mem \<Rightarrow> 32 word \<Rightarrow> nat \<Rightarrow> 32 word \<Rightarrow> (nat \<times> mem) option" where
  "utoa s_int_buffer m val buffer base = ulltoa s_int_buffer m (ucast val) buffer base"

definition sign_wrap :: "nat \<Rightarrow> mem \<Rightarrow> 64 word \<Rightarrow> nat \<Rightarrow> 32 word \<Rightarrow> (nat \<times> mem) option" where
  "sign_wrap s_int_buffer m v buffer base =
     (let buffer = (if buffer = 0 then s_int_buffer else buffer)
      in if \<not> validate_base base then Some (0, m)
         else if v <s 0 then
           (if sint v = - (2 ^ 63) then None
            else do { (_, m) \<leftarrow> utoa_impl (m(buffer := 45)) (- v) (buffer + 1) base False;
                      Some (buffer, m) })
         else do { (_, m) \<leftarrow> utoa_impl m v buffer base False; Some (buffer, m) })"

definition lltoa :: "nat \<Rightarrow> mem \<Rightarrow> 64 word \<Rightarrow> nat \<Rightarrow> 32 word \<Rightarrow> (nat \<times> mem) option" where
  "lltoa s_int_buffer m val buffer base = sign_wrap s_int_buffer m val buffer base"

definition ltoa :: "nat \<Rightarrow> mem \<Rightarrow> 64 word \<Rightarrow> nat \<Rightarrow> 32 word \<Rightarrow> (nat \<times> mem) option" where
  "ltoa s_int_buffer m val buffer base = sign_wrap s_int_buffer m val buffer base"

definition itoa :: "nat \<Rightarrow> mem \<Rightarrow> 32 word \<Rightarrow> nat \<Rightarrow> 32 word \<Rightarrow> (nat \<times> mem) option" where
  "itoa s_int_buffer m val buffer base = sign_wrap s_int_buffer m (scast val) buffer base"

declare digits_loop.simps [code]

section \<open>Division\<close>

lemma unat_shift_in:
  fixes r :: "64 word"
  assumes "unat r < 2 ^ 63"
  shows "unat (push_bit 1 r OR (w AND 1)) = 2 * unat r + unat w mod 2"
proof -
  have "push_bit 1 r OR (w AND 1) = push_bit 1 r + (w AND 1)"
    by (rule disjunctive_add [symmetric]) (auto simp: bit_simps bit_0 intro!: Nat.gr0I)
  moreover have "unat (push_bit 1 r) = 2 * unat r"
    using assms by (simp add: push_bit_eq_mult unat_word_ariths)
  moreover have "unat (w AND 1) = unat w mod 2"
    by (simp add: and_one_eq unat_mod)
  ultimately show ?thesis
    using assms by (simp add: unat_word_ariths)
qed

lemma or_bit_nat:
  fixes q :: "64 word"
  assumes "2 ^ Suc i dvd unat q" and "i < 64"
  shows "unat (q OR push_bit i 1) = unat q + 2 ^ i"
proof -
  from assms(1) obtain k where k: "unat q = 2 ^ Suc i * k" by (auto simp: dvd_def)
  have "\<not> bit (unat q) i" by (simp add: bit_iff_odd k)
  then have "\<not> bit q i" using assms(2) by (simp add: bit_unsigned_iff)
  then have "q OR push_bit i 1 = q + push_bit i 1"
    by (intro disjunctive_add [symmetric]) (auto simp: bit_simps)
  moreover have p: "unat (push_bit i 1 :: 64 word) = 2 ^ i"
    using assms(2) power_strict_increasing [of i 64 "2 :: nat"]
    by (subst unsigned_push_bit_eq) (simp add: take_bit_eq_mod)
  moreover have "unat q + 2 ^ i < 2 ^ 64"
  proof -
    have "2 ^ 64 = 2 ^ Suc i * (2 ^ (63 - i) :: nat)" using assms(2) by (simp flip: power_add)
    moreover have "unat q < 2 ^ 64" using unsigned_less [of q] by simp
    ultimately have "k < 2 ^ (63 - i)" using k by (metis nat_mult_less_cancel_disj)
    then have "2 ^ Suc i * Suc k \<le> (2 ^ 64 :: nat)"
      using \<open>2 ^ 64 = 2 ^ Suc i * (2 ^ (63 - i) :: nat)\<close> by (metis Suc_leI mult_le_mono2)
    then have "2 ^ Suc i + 2 ^ Suc i * k \<le> (2 ^ 64 :: nat)" by (simp only: mult_Suc_right)
    then show ?thesis unfolding k by (rule less_le_trans [rotated]) simp
  qed
  ultimately show ?thesis by (simp add: unat_word_ariths)
qed

lemma udivmod_loop_spec:
  assumes "i \<le> 64" and "unat r < unat base" and "2 ^ i dvd unat q"
    and "unat val div 2 ^ i = (unat q div 2 ^ i) * unat base + unat r"
  shows "\<exists>q' r'. udivmod_loop i val base q r = (q', r') \<and> unat r' < unat base \<and>
    unat val = unat q' * unat base + unat r'"
  using assms
proof (induction i arbitrary: q r)
  case 0
  then show ?case by simp
next
  case (Suc i)
  let ?r = "push_bit 1 r OR (drop_bit i val AND 1)" and ?b = "unat base"
  from Suc.prems(3) obtain k where k: "unat q = 2 ^ Suc i * k" by (auto simp: dvd_def)
  have b: "?b < 2 ^ 32" using unsigned_less [of base] by simp
  have ub: "unat (ucast base :: 64 word) = ?b" using b by (simp add: unsigned_ucast_eq take_bit_eq_mod)
  have r: "unat ?r = 2 * unat r + unat val div 2 ^ i mod 2"
    using Suc.prems(2) b by (subst unat_shift_in) (simp_all add: unat_drop_bit_eq drop_bit_eq_div [of i "unat val"])
  have step: "unat val div 2 ^ i = 2 * k * ?b + unat ?r"
  proof -
    have "unat val div 2 ^ i = 2 * (unat val div 2 ^ Suc i) + unat val div 2 ^ i mod 2"
      by (simp add: power_Suc2 div_mult2_eq del: power_Suc)
    then show ?thesis using Suc.prems(4) r by (simp add: k algebra_simps)
  qed
  have q0: "2 ^ i dvd unat q" "unat q div 2 ^ i = 2 * k" by (simp_all add: k)
  show ?case
  proof (cases "ucast base \<le> ?r")
    case True
    then have le: "?b \<le> unat ?r" by (simp add: word_le_nat_alt ub)
    have r': "unat (?r - ucast base) = unat ?r - ?b" using True by (simp add: unat_sub ub)
    have q': "unat (q OR push_bit i 1) = unat q + 2 ^ i" using Suc.prems(1,3) by (intro or_bit_nat) auto
    have "unat (?r - ucast base) < ?b" using r r' Suc.prems(2) le by linarith
    moreover have "2 ^ i dvd unat (q OR push_bit i 1)" using q' q0 by simp
    moreover have "unat val div 2 ^ i = unat (q OR push_bit i 1) div 2 ^ i * ?b + unat (?r - ucast base)"
    proof -
      have dq: "unat (q OR push_bit i 1) div 2 ^ i = 2 * k + 1" unfolding q' using q0 by simp
      show ?thesis unfolding dq r' using step le by (simp add: algebra_simps)
    qed
    ultimately show ?thesis using Suc.IH [of "?r - ucast base" "q OR push_bit i 1"] Suc.prems(1) True
      by (simp add: Let_def)
  next
    case False
    then have "unat ?r < ?b" by (simp add: word_le_nat_alt ub)
    then show ?thesis using Suc.IH [of ?r q] Suc.prems(1) False q0 step by (simp add: Let_def)
  qed
qed

lemma udivmod_u64_spec:
  assumes "base \<noteq> 0"
  shows "udivmod_u64 val base = (q, r) \<longleftrightarrow>
    unat q = unat val div unat base \<and> unat r = unat val mod unat base"
proof -
  have b: "0 < unat base" using assms by (simp add: unat_gt_0)
  have "unat val < 2 ^ 64" using unsigned_less [of val] by simp
  then obtain q' r' where l: "udivmod_loop 64 val base 0 0 = (q', r')" "unat r' < unat base"
      "unat val = unat q' * unat base + unat r'"
    using udivmod_loop_spec [of 64 0 base 0 val] b by auto
  have "unat base < 2 ^ 32" using unsigned_less [of base] by simp
  then have "unat (ucast r' :: 32 word) = unat r'" using l(2) by (simp add: unsigned_ucast_eq take_bit_eq_mod)
  then have "unat q' = unat val div unat base \<and> unat (ucast r' :: 32 word) = unat val mod unat base"
    using l(2,3) by simp
  then show ?thesis by (auto simp: udivmod_u64_def l(1) word_unat_eq_iff)
qed

section \<open>Digits\<close>

text \<open>The digits of a number, least significant first, and the number a list of characters denotes.\<close>

function lsd :: "nat \<Rightarrow> nat \<Rightarrow> nat list" where
  "lsd b n = (if n = 0 \<or> b < 2 then [] else n mod b # lsd b (n div b))"
  by pat_completeness auto
termination by (relation "measure snd") auto

declare lsd.simps [simp del]

definition digit_char :: "nat \<Rightarrow> byte" where
  "digit_char d = (if d < 10 then 48 + of_nat d else 87 + of_nat d)"

definition digit_val :: "byte \<Rightarrow> nat" where
  "digit_val c = (if c \<le> 57 then unat c - 48 else unat c - 87)"

definition number_val :: "nat \<Rightarrow> byte list \<Rightarrow> nat" where
  "number_val b s = foldl (\<lambda>n c. n * b + digit_val c) 0 s"

lemma digit_val_char [simp]: "d < 36 \<Longrightarrow> digit_val (digit_char d) = d"
  by (simp add: digit_val_def digit_char_def word_le_nat_alt unat_word_ariths unat_of_nat)

lemma digit_char_nonzero [simp]: "d < 36 \<Longrightarrow> digit_char d \<noteq> 0"
  by (simp add: digit_char_def word_unat_eq_iff unat_word_ariths unat_of_nat)

lemma digit_char_is_zero [simp]: "d < 36 \<Longrightarrow> digit_char d = 48 \<longleftrightarrow> d = 0"
  by (simp add: digit_char_def word_unat_eq_iff unat_word_ariths unat_of_nat)

lemma digit_at_char: "unat r < 36 \<Longrightarrow> digit_at False r = Some (digit_char (unat r))"
  by (simp add: digit_at_def digit_char_def word_less_nat_alt word_unat_eq_iff unat_word_ariths
      unat_of_nat unat_sub unsigned_ucast_eq take_bit_eq_mod word_le_nat_alt)

lemma lsd_less: "2 \<le> b \<Longrightarrow> d \<in> set (lsd b n) \<Longrightarrow> d < b"
  by (induction b n rule: lsd.induct) (subst (asm) (2) lsd.simps, auto split: if_splits)

lemma lsd_value: "2 \<le> b \<Longrightarrow> foldr (\<lambda>d n. n * b + d) (lsd b n) 0 = n"
  by (induction b n rule: lsd.induct) (subst lsd.simps, auto)

lemma lsd_last: "2 \<le> b \<Longrightarrow> n \<noteq> 0 \<Longrightarrow> lsd b n \<noteq> [] \<and> last (lsd b n) \<noteq> 0"
proof (induction b n rule: lsd.induct)
  case (1 b n)
  then show ?case
    by (cases "n div b = 0") (subst (1 2) lsd.simps, simp add: lsd.simps [of b 0] div_eq_0_iff)+
qed

lemma lsd_length: "2 \<le> b \<Longrightarrow> n < 2 ^ k \<Longrightarrow> length (lsd b n) \<le> k"
proof (induction k arbitrary: n)
  case 0
  then show ?case by (simp add: lsd.simps)
next
  case (Suc k)
  have "n div b \<le> n div 2" using Suc.prems(1) by (simp add: div_le_mono2)
  then have "n div b < 2 ^ k" using Suc.prems(2) by simp
  with Suc show ?case by (subst lsd.simps) simp
qed

lemma number_val_lsd:
  assumes "2 \<le> b" and "b \<le> 36"
  shows "number_val b (rev (map digit_char (lsd b n))) = n"
proof -
  have "foldr (\<lambda>c n. n * b + digit_val c) (map digit_char ds) 0 = foldr (\<lambda>d n. n * b + d) ds 0"
    if "\<forall>d \<in> set ds. d < 36" for ds
    using that by (induction ds) auto
  moreover have "\<forall>d \<in> set (lsd b n). d < 36" using lsd_less [OF assms(1)] assms by fastforce
  ultimately show ?thesis using lsd_value [OF assms(1), of n] by (simp add: number_val_def foldl_conv_foldr)
qed

section \<open>Writing digits\<close>

lemma uint_of_sint:
  fixes w :: "'a::len word"
  shows "uint w = (if sint w < 0 then sint w + 2 ^ LENGTH('a) else sint w)"
proof -
  have u: "uint w = sint w mod 2 ^ LENGTH('a)"
    by (simp add: take_bit_eq_mod [symmetric] uint_sint [symmetric])
  have lo: "- (2 ^ (LENGTH('a) - 1)) \<le> sint w" and hi: "sint w < 2 ^ (LENGTH('a) - 1)"
    by (rule sint_ge, rule sint_lt)
  have le: "2 ^ (LENGTH('a) - 1) \<le> (2 ^ LENGTH('a) :: int)" by simp
  show ?thesis
  proof (cases "sint w < 0")
    case True
    have "sint w mod 2 ^ LENGTH('a) = (sint w + 2 ^ LENGTH('a)) mod 2 ^ LENGTH('a)" by simp
    also have "\<dots> = sint w + 2 ^ LENGTH('a)" using True lo le by (intro mod_pos_pos_trivial) linarith+
    finally show ?thesis using True u by simp
  next
    case False
    then show ?thesis using u hi le by simp
  qed
qed

lemma validate_base_bounds: "validate_base base \<longleftrightarrow> 2 \<le> unat base \<and> unat base \<le> 36"
proof -
  have "- (2 ^ 31) \<le> sint base" using sint_ge [of base] by simp
  moreover have "sint base < 0 \<Longrightarrow> uint base = sint base + 2 ^ 32" "\<not> sint base < 0 \<Longrightarrow> uint base = sint base"
    using uint_of_sint [of base] by simp_all
  ultimately have "2 \<le> sint base \<and> sint base \<le> 36 \<longleftrightarrow> 2 \<le> uint base \<and> uint base \<le> 36"
    by (cases "sint base < 0") auto
  moreover have "validate_base base \<longleftrightarrow> 2 \<le> sint base \<and> sint base \<le> 36"
    by (simp add: validate_base_def word_sle_eq)
  moreover have "2 \<le> uint base \<longleftrightarrow> 2 \<le> unat base" "uint base \<le> 36 \<longleftrightarrow> unat base \<le> 36"
    unfolding unat_eq_nat_uint by linarith+
  ultimately show ?thesis by simp
qed

lemma put_bytes_Nil [simp]: "put_bytes m a [] = m"
  by (auto simp: put_bytes_def fun_eq_iff)

lemma put_bytes_Cons: "put_bytes (m(a := c)) (Suc a) bs = put_bytes m a (c # bs)"
  by (auto simp: put_bytes_def fun_eq_iff nth_Cons')

lemma digits_loop_lsd:
  assumes b: "2 \<le> unat base" "unat base \<le> 36"
  shows "digits_loop m buffer base False val i =
    Some (i + length (lsd (unat base) (unat val)),
          put_bytes m (buffer + i) (map digit_char (lsd (unat base) (unat val))))"
proof (induction "unat val" arbitrary: val m i rule: less_induct)
  case less
  show ?case
  proof (cases "val = 0")
    case True
    then show ?thesis by (subst digits_loop.simps) (simp add: lsd.simps)
  next
    case False
    then have v: "unat val \<noteq> 0" by (simp add: unat_gt_0)
    obtain q r where d: "udivmod_u64 val base = (q, r)" by fastforce
    have "base \<noteq> 0" using b by auto
    with d have qr: "unat q = unat val div unat base" "unat r = unat val mod unat base"
      by (simp_all add: udivmod_u64_spec)
    have "unat q < unat val" using v b qr by simp
    moreover have "unat r < 36" using qr b by (simp add: less_le_trans [OF mod_less_divisor])
    ultimately show ?thesis
      using False less.hyps [of q "m(buffer + i := digit_char (unat r))" "i + 1"] v b
      by (subst digits_loop.simps, subst (1 2) lsd.simps) (simp add: d digit_at_char qr put_bytes_Cons)
  qed
qed

lemma reverse_loop_eq:
  assumes "j + k \<le> i div 2"
  shows "reverse_loop k j buffer i m = (\<lambda>a.
    if buffer + j \<le> a \<and> a < buffer + i - j \<and> (a < buffer + (j + k) \<or> buffer + i \<le> a + (j + k))
    then m (buffer + (i - 1 - (a - buffer))) else m a)"
  using assms
proof (induction k arbitrary: j m)
  case 0
  then show ?case by (auto simp: fun_eq_iff)
next
  case (Suc k)
  have "2 * (j + Suc k) \<le> i" using Suc.prems by presburger
  then show ?case
    using Suc.prems Suc.IH [of "Suc j"] by (auto simp: fun_eq_iff Let_def)
qed

lemma reverse_loop_put_bytes:
  "reverse_loop (length bs div 2) 0 buffer (length bs) (put_bytes m buffer bs) = put_bytes m buffer (rev bs)"
proof (rule ext)
  fix a
  define i where "i = length bs"
  let ?m = "put_bytes m buffer bs" and ?k = "i div 2"
  have eq: "reverse_loop ?k 0 buffer i ?m a =
      (if buffer \<le> a \<and> a < buffer + i \<and> (a < buffer + ?k \<or> buffer + i \<le> a + ?k)
       then ?m (buffer + (i - 1 - (a - buffer))) else ?m a)"
    by (subst reverse_loop_eq) simp_all
  have mid: "buffer + (i - 1 - (a - buffer)) = a"
    if "buffer \<le> a" "a < buffer + i" "\<not> (a < buffer + ?k \<or> buffer + i \<le> a + ?k)"
    using that by presburger
  have "put_bytes m buffer (rev bs) a =
      (if buffer \<le> a \<and> a < buffer + i then ?m (buffer + (i - 1 - (a - buffer))) else ?m a)"
    by (auto simp: put_bytes_def rev_nth i_def)
  then show "reverse_loop (length bs div 2) 0 buffer (length bs) ?m a = put_bytes m buffer (rev bs) a"
    unfolding i_def [symmetric] eq using mid by (simp del: diff_diff_left)
qed

lemma cstr_put_bytes: "0 \<notin> set bs \<Longrightarrow> cstr ((put_bytes m p bs)(p + length bs := 0)) p bs"
  by (auto simp: cstr_nth put_bytes_def in_set_conv_nth)

text \<open>The text \<open>utoa_impl\<close> writes, for the bases the callers admit.\<close>

definition numeral_text :: "nat \<Rightarrow> nat \<Rightarrow> byte list" where
  "numeral_text b n = (if n = 0 then [48] else rev (map digit_char (lsd b n)))"

lemma numeral_text_facts:
  assumes "2 \<le> b" and "b \<le> 36"
  shows "number_val b (numeral_text b n) = n" and "0 \<notin> set (numeral_text b n)"
    and "n \<noteq> 0 \<Longrightarrow> hd (numeral_text b n) \<noteq> 48" and "n < 2 ^ 64 \<Longrightarrow> length (numeral_text b n) \<le> 64"
proof -
  have small: "d < 36" if "d \<in> set (lsd b n)" for d using lsd_less [OF assms(1) that] assms by simp
  show "number_val b (numeral_text b n) = n"
    using number_val_lsd [OF assms] by (simp add: numeral_text_def number_val_def digit_val_def)
  show "0 \<notin> set (numeral_text b n)"
  proof
    assume "0 \<in> set (numeral_text b n)"
    then obtain d where "d \<in> set (lsd b n)" "digit_char d = 0"
      by (auto simp: numeral_text_def split: if_splits)
    then show False using small by simp
  qed
  show "hd (numeral_text b n) \<noteq> 48" if "n \<noteq> 0"
    using lsd_last [OF assms(1) that] that small [of "last (lsd b n)"]
    by (simp add: numeral_text_def hd_rev last_map)
  show "length (numeral_text b n) \<le> 64" if "n < 2 ^ 64"
    using lsd_length [OF assms(1) that] by (simp add: numeral_text_def)
qed

lemma utoa_impl_text:
  assumes "2 \<le> unat base" and "unat base \<le> 36"
  shows "utoa_impl m val buffer base False =
    Some (buffer, put_bytes m buffer (numeral_text (unat base) (unat val) @ [0]))"
proof -
  have snoc: "(put_bytes m buffer bs)(buffer + length bs := 0) = put_bytes m buffer (bs @ [0])" for bs
    by (auto simp: put_bytes_def fun_eq_iff nth_append less_Suc_eq)
  show ?thesis
  proof (cases "val = 0")
    case True
    then show ?thesis
      by (auto simp: utoa_impl_def numeral_text_def put_bytes_def fun_eq_iff nth_Cons' less_Suc_eq)
  next
    case False
    let ?ds = "map digit_char (lsd (unat base) (unat val))"
    have "reverse_loop (length ?ds div 2) 0 buffer (length ?ds) (put_bytes m buffer ?ds) =
        put_bytes m buffer (rev ?ds)" by (rule reverse_loop_put_bytes)
    moreover have "unat val \<noteq> 0" using False by (simp add: unat_gt_0)
    ultimately show ?thesis
      using False digits_loop_lsd [OF assms, of m buffer val 0] snoc [of "rev ?ds"]
      by (simp add: utoa_impl_def numeral_text_def)
  qed
qed

lemma cstr_text: "0 \<notin> set bs \<Longrightarrow> cstr (put_bytes m p (bs @ [0])) p bs"
  by (auto simp: cstr_nth put_bytes_def nth_append in_set_conv_nth)

section \<open>Properties\<close>

text \<open>C24. For every base from 2 to 36 \<open>ulltoa\<close> returns, having written at most 65 bytes: a string
  without a leading zero that denotes the value in that base.\<close>

theorem ulltoa_roundtrip:
  assumes "validate_base base" and "buffer \<noteq> 0"
  shows "\<exists>s m'. ulltoa sb m val buffer base = Some (buffer, m') \<and> cstr m' buffer s \<and>
    number_val (unat base) s = unat val \<and> (unat val \<noteq> 0 \<longrightarrow> hd s \<noteq> 48) \<and> length s \<le> 64 \<and>
    (\<forall>a. a < buffer \<or> buffer + 64 < a \<longrightarrow> m' a = m a)"
proof -
  let ?s = "numeral_text (unat base) (unat val)"
  from assms(1) have b: "2 \<le> unat base" "unat base \<le> 36" by (simp_all add: validate_base_bounds)
  note facts = numeral_text_facts [OF b]
  have len: "length ?s \<le> 64" using unsigned_less [of val] by (intro facts(4)) simp
  have "ulltoa sb m val buffer base = Some (buffer, put_bytes m buffer (?s @ [0]))"
    using assms b by (simp add: ulltoa_def utoa_impl_text)
  moreover have "put_bytes m buffer (?s @ [0]) a = m a" if "a < buffer \<or> buffer + 64 < a" for a
    using that len by (auto simp: put_bytes_def)
  ultimately show ?thesis
    using facts(1-3) [of "unat val"] len cstr_text [OF facts(2)] by blast
qed

theorem ulltoa_roundtrip_witness:
  "\<exists>s m'. ulltoa 1000 (\<lambda>_. 0) 255 1 16 = Some (1, m') \<and> cstr m' 1 s \<and> number_val 16 s = 255"
proof -
  have "validate_base 16" by (simp add: validate_base_bounds)
  from ulltoa_roundtrip [OF this, of 1 1000 "\<lambda>_. 0" 255] show ?thesis by auto
qed

text \<open>C25. \<open>lltoa\<close> writes the numeral of a signed value with a minus sign in front
  of it when the value is negative, for every value but the smallest, whose negation overflows.\<close>

theorem lltoa_roundtrip:
  assumes "validate_base base" and "buffer \<noteq> 0"
  shows "if sint v = - (2 ^ 63) then lltoa sb m v buffer base = None
    else \<exists>s m'. lltoa sb m v buffer base = Some (buffer, m') \<and>
      cstr m' buffer ((if sint v < 0 then [45] else []) @ s) \<and> int (number_val (unat base) s) = \<bar>sint v\<bar>"
proof (cases "sint v = - (2 ^ 63)")
  case True
  then show ?thesis using assms by (simp add: lltoa_def sign_wrap_def word_sless_alt)
next
  case False
  from assms(1) have b: "2 \<le> unat base" "unat base \<le> 36" by (simp_all add: validate_base_bounds)
  note facts = numeral_text_facts [OF b]
  show ?thesis
  proof (cases "sint v < 0")
    case True
    let ?s = "numeral_text (unat base) (unat (- v))"
    have n: "int (unat (- v)) = - sint v"
    proof -
      have "uint v = sint v + 2 ^ 64" using uint_of_sint [of v] True by simp
      moreover have "- (2 ^ 63) \<le> sint v" using sint_ge [of v] by simp
      moreover have "uint (- v) = (- uint v + 2 ^ 64) mod 2 ^ 64" by (simp add: uint_word_ariths)
      ultimately show ?thesis using True by simp
    qed
    let ?m = "put_bytes (m(buffer := 45)) (buffer + 1) (?s @ [0])"
    have eq: "lltoa sb m v buffer base = Some (buffer, ?m)"
      using assms b True False by (simp add: lltoa_def sign_wrap_def word_sless_alt utoa_impl_text)
    have "cstr ?m (buffer + 1) ?s" by (rule cstr_text [OF facts(2)])
    then have "cstr ?m buffer (45 # ?s)" by (simp add: put_bytes_def)
    then show ?thesis using eq False True facts(1) [of "unat (- v)"] n by auto
  next
    case nonneg: False
    let ?s = "numeral_text (unat base) (unat v)"
    have "int (unat v) = sint v" using uint_of_sint [of v] nonneg by simp
    moreover have "lltoa sb m v buffer base = Some (buffer, put_bytes m buffer (?s @ [0]))"
      using assms b nonneg by (simp add: lltoa_def sign_wrap_def word_sless_alt utoa_impl_text)
    moreover have "cstr (put_bytes m buffer (?s @ [0])) buffer ?s" by (rule cstr_text [OF facts(2)])
    moreover have "int (number_val (unat base) ?s) = int (unat v)" by (simp only: facts(1))
    ultimately show ?thesis using False nonneg by (simp only: if_False) (intro exI [of _ ?s], simp)
  qed
qed

theorem lltoa_roundtrip_witness:
  "\<exists>s m'. lltoa 1000 (\<lambda>_. 0) (- 12) 1 10 = Some (1, m') \<and> cstr m' 1 (45 # s) \<and> number_val 10 s = 12"
proof -
  have "validate_base 10" by (simp add: validate_base_bounds)
  from lltoa_roundtrip [OF this, of 1 "- 12" 1000 "\<lambda>_. 0"] show ?thesis by simp
qed

end
