(* ===== verification/Vfs_Types.thy ===== *)
theory Vfs_Types
  imports Memory
begin

text \<open>
  The types of \<open>kernel_include/filesystem/VFS.h\<close>: nodes, handles, mounts and the tables of
  driver operations. Nodes live in a store indexed by their address. An address stands for one
  allocation: \<open>kmalloc\<close> never returns the address of a freed object again, so following a
  dangling pointer is an invalid access, and an operation that makes one has the value
  \<open>None\<close>. Which allocations fail is given by a schedule, the outcomes of the coming calls;
  a call beyond the end of the schedule succeeds. A C string that the code only reads is the
  list of its characters, and a \<open>List\<close> is the list of its elements, which is what the theories
  on strings and linked lists show of the two libraries.
\<close>

section \<open>Enumerations\<close>

datatype VFSNodeType = VFS_NODE_UNKNOWN | VFS_NODE_DIRECTORY | VFS_NODE_REGULAR | VFS_NODE_SYMLINK
  | VFS_NODE_CHAR_DEVICE | VFS_NODE_BLOCK_DEVICE | VFS_NODE_PIPE | VFS_NODE_SOCKET

datatype VFSResult = VFS_RES_OK | VFS_RES_ERROR | VFS_RES_NOT_FOUND | VFS_RES_INVALID
  | VFS_RES_UNSUPPORTED | VFS_RES_NO_MEMORY | VFS_RES_EXISTS | VFS_RES_BUSY | VFS_RES_NO_SPACE
  | VFS_RES_ACCESS

definition VFS_NODE_FLAG_MOUNTPOINT :: u32 where "VFS_NODE_FLAG_MOUNTPOINT = 2"

definition VFS_OPEN_READ :: u32 where "VFS_OPEN_READ = 1"
definition VFS_OPEN_WRITE :: u32 where "VFS_OPEN_WRITE = 2"

datatype VFSSeekWhence = VFS_SEEK_SET | VFS_SEEK_CUR | VFS_SEEK_END | VFS_SEEK_other

definition VFS_NAME_MAX :: nat where "VFS_NAME_MAX = 255"
definition VFS_PATH_MAX :: nat where "VFS_PATH_MAX = 1024"

section \<open>Objects\<close>

text \<open>A null \<open>char*\<close> is \<open>None\<close>.\<close>

record VFSNode =
  n_name :: "string option"
  n_type :: VFSNodeType
  n_flags :: u32
  n_parent :: ptr
  n_mount :: ptr
  n_ops :: ptr
  n_data :: ptr

record VFSDirEntry =
  de_name :: string
  de_type :: VFSNodeType

record VFSNodeInfo =
  i_type :: VFSNodeType
  i_flags :: u32
  i_size :: nat
  i_inode :: nat
  i_atime :: nat
  i_mtime :: nat
  i_ctime :: nat

text \<open>The driver parameters of a mount; the device and volume pointers are only compared to null
  at this level.\<close>

record VFSMountParams =
  p_source :: "string option"
  p_block_device :: ptr
  p_volume :: ptr
  p_context :: ptr
  p_flags :: u32

record VFSHandle =
  h_node :: ptr
  h_driver_handle :: ptr
  h_mode :: u32
  h_offset :: nat

text \<open>What drivers work on: the allocator with the last address it returned, the nodes, and the
  drivers' own data.\<close>

record 'd kernel =
  k_mallocs :: "bool list"
  k_last :: ptr
  k_nodes :: "ptr \<Rightarrow> VFSNode option"
  k_drv :: 'd

section \<open>Driver operations\<close>

text \<open>A null function pointer is \<open>None\<close>. A \<open>read\<close> returns its result and the bytes it put into the
  buffer.\<close>

record 's VFSNodeOps =
  op_open :: "('s \<Rightarrow> ptr \<Rightarrow> u32 \<Rightarrow> ((VFSResult \<times> ptr) \<times> 's) option) option"
  op_close :: "('s \<Rightarrow> ptr \<Rightarrow> ptr \<Rightarrow> (VFSResult \<times> 's) option) option"
  op_read :: "('s \<Rightarrow> ptr \<Rightarrow> ptr \<Rightarrow> nat \<Rightarrow> nat \<Rightarrow> ((int \<times> byte list) \<times> 's) option) option"
  op_write :: "('s \<Rightarrow> ptr \<Rightarrow> ptr \<Rightarrow> nat \<Rightarrow> byte list \<Rightarrow> (int \<times> 's) option) option"
  op_truncate :: "('s \<Rightarrow> ptr \<Rightarrow> ptr \<Rightarrow> nat \<Rightarrow> (VFSResult \<times> 's) option) option"
  op_readdir :: "('s \<Rightarrow> ptr \<Rightarrow> ptr \<Rightarrow> nat \<Rightarrow> ((VFSResult \<times> VFSDirEntry option) \<times> 's) option) option"
  op_lookup :: "('s \<Rightarrow> ptr \<Rightarrow> string \<Rightarrow> ((VFSResult \<times> ptr) \<times> 's) option) option"
  op_create :: "('s \<Rightarrow> ptr \<Rightarrow> string \<Rightarrow> VFSNodeType \<Rightarrow> ((VFSResult \<times> ptr) \<times> 's) option) option"
  op_remove :: "('s \<Rightarrow> ptr \<Rightarrow> string \<Rightarrow> (VFSResult \<times> 's) option) option"
  op_stat :: "('s \<Rightarrow> ptr \<Rightarrow> ((VFSResult \<times> VFSNodeInfo option) \<times> 's) option) option"

record 's VFSFileSystemOps =
  op_probe :: "('s \<Rightarrow> VFSMountParams option \<Rightarrow> (bool \<times> 's) option) option"
  op_mount :: "('s \<Rightarrow> VFSMountParams option \<Rightarrow> ((VFSResult \<times> ptr) \<times> 's) option) option"
  op_unmount :: "('s \<Rightarrow> ptr \<Rightarrow> (VFSResult \<times> 's) option) option"

record 's VFSFileSystem =
  fs_name :: "string option"
  fs_flags :: u32
  fs_ops :: "'s VFSFileSystemOps option"
  fs_context :: ptr

record 's VFSMount =
  m_self :: ptr
  m_path :: string
  m_fs :: "'s VFSFileSystem"
  m_root :: ptr
  m_flags :: u32

section \<open>Allocation\<close>

fun kmalloc :: "'d kernel \<Rightarrow> ptr \<times> 'd kernel" where
  "kmalloc k =
     (case k_mallocs k of
        [] \<Rightarrow> (k_last k + 1, k\<lparr>k_last := k_last k + 1\<rparr>)
      | ok # oks \<Rightarrow> (if ok then (k_last k + 1, k\<lparr>k_last := k_last k + 1, k_mallocs := oks\<rparr>)
                   else (NULL, k\<lparr>k_mallocs := oks\<rparr>)))"

declare kmalloc.simps [simp del]

text \<open>\<open>strdup\<close> writes through the result of \<open>malloc\<close> without looking at it.\<close>

definition kstrdup :: "'d kernel \<Rightarrow> 'd kernel option" where
  "kstrdup k = (let (p, k) = kmalloc k in if p = NULL then None else Some k)"

text \<open>\<open>List_Add\<close> and \<open>List_InsertAt\<close> leave the list as it is when there is no memory for a node.\<close>

definition list_add :: "'d kernel \<Rightarrow> 'a \<Rightarrow> 'a list \<Rightarrow> 'a list \<times> 'd kernel" where
  "list_add k x xs = (let (p, k) = kmalloc k in (if p = NULL then xs else xs @ [x], k))"

definition list_push :: "'d kernel \<Rightarrow> 'a \<Rightarrow> 'a list \<Rightarrow> 'a list \<times> 'd kernel" where
  "list_push k x xs = (let (p, k) = kmalloc k in (if p = NULL then xs else x # xs, k))"

definition kfree_node :: "'d kernel \<Rightarrow> ptr \<Rightarrow> 'd kernel" where
  "kfree_node k p = k\<lparr>k_nodes := (k_nodes k)(p := None)\<rparr>"

definition set_node :: "'d kernel \<Rightarrow> ptr \<Rightarrow> VFSNode \<Rightarrow> 'd kernel" where
  "set_node k p nd = k\<lparr>k_nodes := (k_nodes k)(p := Some nd)\<rparr>"

text \<open>The value of an unsigned 64-bit result converted to \<open>int64_t\<close>.\<close>

definition int64 :: "nat \<Rightarrow> int" where "int64 n = sint (word_of_nat n :: 64 word)"

section \<open>Allocation never hands out a live object\<close>

text \<open>Addresses above \<open>k_last\<close> are unused, and null is no object.\<close>

definition fresh_above :: "'d kernel \<Rightarrow> bool" where
  "fresh_above k \<longleftrightarrow> k_nodes k 0 = None \<and> (\<forall>p > k_last k. k_nodes k p = None)"

lemma kmalloc_cases:
  obtains (fail) k' where "kmalloc k = (NULL, k')" "k_nodes k' = k_nodes k" "k_drv k' = k_drv k"
      "k_last k' = k_last k" "k_mallocs k = False # k_mallocs k'"
    | (ok) k' where "kmalloc k = (k_last k + 1, k')" "k_nodes k' = k_nodes k" "k_drv k' = k_drv k"
      "k_last k' = k_last k + 1" "k_mallocs k' = tl (k_mallocs k)"
proof (cases "k_mallocs k")
  case Nil
  then show thesis by (intro ok [of "k\<lparr>k_last := k_last k + 1\<rparr>"]) (simp_all add: kmalloc.simps)
next
  case (Cons b oks)
  show thesis
  proof (cases b)
    case True
    with Cons show thesis
      by (intro ok [of "k\<lparr>k_last := k_last k + 1, k_mallocs := oks\<rparr>"]) (simp_all add: kmalloc.simps)
  next
    case False
    with Cons show thesis
      by (intro fail [of "k\<lparr>k_mallocs := oks\<rparr>"]) (simp_all add: kmalloc.simps)
  qed
qed

lemma kmalloc_no_failure:
  "k_mallocs k = [] \<Longrightarrow> kmalloc k = (k_last k + 1, k\<lparr>k_last := k_last k + 1\<rparr>)"
  by (simp add: kmalloc.simps)

lemma int64_small: "n < 2 ^ 63 \<Longrightarrow> int64 n = int n"
  by (simp add: int64_def signed_of_nat signed_take_bit_int_eq_self)

end
