(* ===== verification/Vfs_Path.thy ===== *)
theory Vfs_Path
  imports Vfs_Types "HOL-Library.Sublist"
begin

text \<open>
  Paths of the virtual file system: \<open>vfs_normalize_path\<close>, the prefix test of the cache and the
  choice of a mount, from \<open>kernel/filesystem/VFS.c\<close>. A path is the list of its characters. The
  specification reads a path as its list of segments. Normalisation is shown to return a path in
  normal form, to keep the segments of a path without \<open>..\<close>, and to be idempotent; on \<open>..\<close> it
  does not do what it is meant to.
\<close>

section \<open>Model\<close>

text \<open>\<open>out\<close> holds the first \<open>len\<close> characters of \<open>out_path\<close> and \<open>offsets\<close> the first \<open>depth\<close> entries of
  the array. An entry is never above \<open>len\<close> (lemma \<open>stack_inv_pop\<close>), so going back to one shortens \<open>out\<close>.
  \<open>p\<close> is the rest of the path.\<close>

definition VFS_MAX_SEGMENTS :: nat where "VFS_MAX_SEGMENTS = VFS_PATH_MAX div 2"

abbreviation skip_slashes :: "string \<Rightarrow> string" where
  "skip_slashes \<equiv> dropWhile (\<lambda>c. c = CHR ''/'')"

abbreviation first_segment :: "string \<Rightarrow> string" where
  "first_segment \<equiv> takeWhile (\<lambda>c. c \<noteq> CHR ''/'')"

abbreviation after_segment :: "string \<Rightarrow> string" where
  "after_segment \<equiv> dropWhile (\<lambda>c. c \<noteq> CHR ''/'')"

lemma length_after_segment: "p \<noteq> [] \<Longrightarrow> length (skip_slashes (after_segment p)) < length p"
proof (induction p)
  case (Cons c p)
  have le: "length (skip_slashes q) \<le> length q" for q by (rule length_dropWhile_le)
  show ?case
  proof (cases "c = CHR ''/''")
    case True
    then show ?thesis using le [of p] by (simp add: le_imp_less_Suc)
  next
    case False
    then show ?thesis using le [of "after_segment p"] length_dropWhile_le [of "\<lambda>c. c \<noteq> CHR ''/''" p]
      by (simp add: le_imp_less_Suc le_trans [OF le])
  qed
qed simp

function norm_loop :: "nat \<Rightarrow> string \<Rightarrow> string \<Rightarrow> nat list \<Rightarrow> VFSResult + string" where
  "norm_loop out_size p out offsets =
     (if p = [] then Inr out
      else let seg = first_segment p; seg_len = length seg; rest = skip_slashes (after_segment p)
      in if seg_len = 0 then norm_loop out_size rest out offsets
      else if VFS_NAME_MAX < seg_len then Inl VFS_RES_INVALID
      else if seg = ''.'' then norm_loop out_size rest out offsets
      else if seg = ''..'' then
        (if offsets \<noteq> []
         then norm_loop out_size rest (take (last offsets) out) (butlast offsets)
         else norm_loop out_size rest out offsets)
      else if 1 < length out \<and> out_size \<le> length out + 1 then Inl VFS_RES_NO_SPACE
      else let out = (if 1 < length out then out @ ''/'' else out)
      in if out_size \<le> length out + seg_len then Inl VFS_RES_NO_SPACE
      else let out = out @ seg;
               offsets = (if length offsets < VFS_MAX_SEGMENTS then offsets @ [length out] else offsets)
      in norm_loop out_size rest out offsets)"
  by pat_completeness auto
termination
  by (relation "measure (\<lambda>(out_size, p, out, offsets). length p)")
    (simp_all only: wf_measure in_measure prod.case, (erule length_after_segment)+)

declare norm_loop.simps [simp del]

definition vfs_normalize_path :: "string \<Rightarrow> nat \<Rightarrow> VFSResult + string" where
  "vfs_normalize_path path out_size =
     (if out_size = 0 then Inl VFS_RES_INVALID
      else if path = [] then (if out_size < 2 then Inl VFS_RES_NO_SPACE else Inr ''/'')
      else if hd path \<noteq> CHR ''/'' then Inl VFS_RES_INVALID
      else norm_loop out_size (skip_slashes path) ''/'' [])"

text \<open>\<open>strncmp(path, prefix, prefix_len) == 0\<close> with \<open>prefix_len\<close> the length of \<open>prefix\<close>.\<close>

definition vfs_cache_path_is_under :: "string \<Rightarrow> string \<Rightarrow> bool" where
  "vfs_cache_path_is_under path pre =
     (let prefix_len = length pre
      in if prefix_len = 0 then False
      else if take prefix_len path \<noteq> pre then False
      else if length path = prefix_len then True
      else if pre ! (prefix_len - 1) = CHR ''/'' then True
      else path ! prefix_len = CHR ''/'')"

fun select_loop :: "string \<Rightarrow> 's VFSMount list \<Rightarrow> 's VFSMount option \<Rightarrow> nat \<Rightarrow> 's VFSMount option" where
  "select_loop path [] best best_len = best"
| "select_loop path (mount # ms) best best_len =
     (let mount_len = length (m_path mount)
      in if length path < mount_len then select_loop path ms best best_len
      else if take mount_len path \<noteq> m_path mount then select_loop path ms best best_len
      else if mount_len \<noteq> 1 \<and> length path \<noteq> mount_len \<and> path ! mount_len \<noteq> CHR ''/''
        then select_loop path ms best best_len
      else if best = None \<or> best_len < mount_len then select_loop path ms (Some mount) mount_len
      else select_loop path ms best best_len)"

definition vfs_select_mount :: "'s VFSMount list option \<Rightarrow> string \<Rightarrow> 's VFSMount option" where
  "vfs_select_mount mounts path =
     (case mounts of None \<Rightarrow> None | Some ms \<Rightarrow> select_loop path ms None 0)"

section \<open>Segments\<close>

function segs :: "string \<Rightarrow> string list" where
  "segs p =
     (if p = [] then []
      else (if first_segment p = [] then [] else [first_segment p]) @ segs (skip_slashes (after_segment p)))"
  by pat_completeness auto
termination by (relation "measure length") (simp_all only: wf_measure in_measure, erule length_after_segment)

declare segs.simps [simp del]

definition path_of :: "string list \<Rightarrow> string" where
  "path_of ss = (if ss = [] then ''/'' else concat (map (\<lambda>s. CHR ''/'' # s) ss))"

text \<open>Segments as normalisation leaves them.\<close>

definition plain_segment :: "string \<Rightarrow> bool" where
  "plain_segment s \<longleftrightarrow> s \<noteq> [] \<and> CHR ''/'' \<notin> set s \<and> s \<noteq> ''.'' \<and> s \<noteq> ''..'' \<and> length s \<le> VFS_NAME_MAX"

definition normal_path :: "string \<Rightarrow> bool" where
  "normal_path p \<longleftrightarrow> (\<exists>ss. list_all plain_segment ss \<and> p = path_of ss)"

lemma path_of_Nil [simp]: "path_of [] = ''/''" by (simp add: path_of_def)

lemma path_of_hd: "path_of ss \<noteq> []" "hd (path_of ss) = CHR ''/''"
  by (cases ss; simp add: path_of_def)+

lemma path_of_snoc:
  "path_of (ss @ [s]) = (if 1 < length (path_of ss) then path_of ss @ ''/'' else path_of ss) @ s"
  if "list_all plain_segment ss"
proof (cases "ss = []")
  case False
  then obtain t ts where "ss = t # ts" by (cases ss) auto
  moreover have "t \<noteq> []" using that calculation by (auto simp: plain_segment_def)
  ultimately show ?thesis by (simp add: path_of_def)
qed (simp add: path_of_def)

lemma length_path_of_take:
  "length (path_of (take n ss)) \<le> length (path_of ss)" if "list_all plain_segment ss"
proof (cases "take n ss = []")
  case True
  moreover have "1 \<le> length (path_of ss)" by (cases ss) (auto simp: path_of_def)
  ultimately show ?thesis unfolding True by simp
next
  case False
  then have "ss \<noteq> []" by auto
  have "concat (map f ss) = concat (map f (take n ss)) @ concat (map f (drop n ss))" for f :: "string \<Rightarrow> string"
    by (metis append_take_drop_id concat_append map_append)
  with False \<open>ss \<noteq> []\<close> show ?thesis by (simp add: path_of_def)
qed

lemma take_path_of:
  assumes "0 < n"
  shows "take (length (path_of (take n ss))) (path_of ss) = path_of (take n ss)"
proof (cases "ss = []")
  case False
  have "concat (map f ss) = concat (map f (take n ss)) @ concat (map f (drop n ss))" for f :: "string \<Rightarrow> string"
    by (metis append_take_drop_id concat_append map_append)
  with False assms show ?thesis by (simp add: path_of_def)
qed simp

lemma segs_Nil [simp]: "segs [] = []" by (simp add: segs.simps)

lemma segs_skip [simp]: "segs (skip_slashes p) = segs p"
proof (cases "p = [] \<or> hd p \<noteq> CHR ''/''")
  case True
  then have "skip_slashes p = p" by (cases p) auto
  then show ?thesis by simp
next
  case False
  then have "first_segment p = []" "after_segment p = p" "p \<noteq> []" by (cases p; auto)+
  then show ?thesis by (subst (2) segs.simps) simp
qed

definition proper_segment :: "string \<Rightarrow> bool" where
  "proper_segment s \<longleftrightarrow> s \<noteq> [] \<and> CHR ''/'' \<notin> set s"

lemma plain_is_proper: "plain_segment s \<Longrightarrow> proper_segment s"
  by (simp add: plain_segment_def proper_segment_def)

abbreviation slashed :: "string list \<Rightarrow> string" where
  "slashed ss \<equiv> concat (map (\<lambda>s. CHR ''/'' # s) ss)"

lemma segs_slashed_append:
  assumes "list_all proper_segment ss" and "r = [] \<or> hd r = CHR ''/''"
  shows "segs (slashed ss @ r) = ss @ segs r"
  using assms(1)
proof (induction ss)
  case (Cons s ss)
  let ?r = "slashed ss @ r"
  have s: "s \<noteq> []" "CHR ''/'' \<notin> set s" using Cons.prems by (auto simp: proper_segment_def)
  have r: "?r = [] \<or> hd ?r = CHR ''/''" using assms(2) by (cases ss) auto
  have "\<forall>c \<in> set s. c \<noteq> CHR ''/''" using s(2) by auto
  moreover have "first_segment ?r = []" "after_segment ?r = ?r" using r by (cases ?r; auto)+
  ultimately have f: "first_segment (s @ ?r) = s" "after_segment (s @ ?r) = ?r"
    by (simp_all add: takeWhile_append2 dropWhile_append2)
  have "skip_slashes (CHR ''/'' # s @ ?r) = s @ ?r" using s by (cases s) auto
  then have "segs (CHR ''/'' # s @ ?r) = segs (s @ ?r)" using segs_skip [of "CHR ''/'' # s @ ?r"] by simp
  also have "\<dots> = s # segs ?r" using s(1) by (subst segs.simps) (simp add: f)
  finally show ?case using Cons by simp
qed simp

lemma segs_path_of [simp]: "list_all proper_segment ss \<Longrightarrow> segs (path_of ss) = ss"
  using segs_slashed_append [of ss "[]"] segs_skip [of "''/''"] by (simp add: path_of_def)

lemma segs_proper: "s \<in> set (segs p) \<Longrightarrow> proper_segment s"
proof (induction p rule: segs.induct)
  case (1 p)
  have "CHR ''/'' \<notin> set (first_segment p)" by (metis (mono_tags, lifting) set_takeWhileD)
  with 1 show ?case
    by (cases "p = []") (subst (asm) (2) segs.simps, auto simp: proper_segment_def split: if_splits)+
qed

section \<open>Normalisation on segments\<close>

text \<open>What the loop does, on segments: the stack holds lengths of the segment list as it was
  after a segment was added, so \<open>..\<close> goes back to the state after the last segment instead of the
  one before it.\<close>

fun norm_segs :: "nat \<Rightarrow> string list \<Rightarrow> string list \<Rightarrow> nat list \<Rightarrow> VFSResult + string list" where
  "norm_segs out_size [] cur ns = Inr cur"
| "norm_segs out_size (s # ss) cur ns =
     (if VFS_NAME_MAX < length s then Inl VFS_RES_INVALID
      else if s = ''.'' then norm_segs out_size ss cur ns
      else if s = ''..'' then
        (if ns \<noteq> [] then norm_segs out_size ss (take (last ns) cur) (butlast ns)
         else norm_segs out_size ss cur ns)
      else if out_size \<le> length (path_of (cur @ [s])) then Inl VFS_RES_NO_SPACE
      else norm_segs out_size ss (cur @ [s])
        (if length ns < VFS_MAX_SEGMENTS then ns @ [length cur + 1] else ns))"

definition stack_inv :: "string list \<Rightarrow> nat list \<Rightarrow> bool" where
  "stack_inv cur ns \<longleftrightarrow> list_all plain_segment cur \<and> sorted ns \<and> (\<forall>n \<in> set ns. 0 < n \<and> n \<le> length cur)"

definition offsets_of :: "string list \<Rightarrow> nat list \<Rightarrow> nat list" where
  "offsets_of cur ns = map (\<lambda>n. length (path_of (take n cur))) ns"

lemma stack_inv_pop:
  assumes "stack_inv cur ns" and "ns \<noteq> []"
  shows "stack_inv (take (last ns) cur) (butlast ns)"
    and "offsets_of (take (last ns) cur) (butlast ns) = butlast (offsets_of cur ns)"
    and "take (last (offsets_of cur ns)) (path_of cur) = path_of (take (last ns) cur)"
proof -
  have le: "n \<le> last ns" if "n \<in> set (butlast ns)" for n
    using assms that by (metis append_butlast_last_id list.set_intros(1) sorted_append stack_inv_def)
  have l: "0 < last ns" "last ns \<le> length cur" using assms by (auto simp: stack_inv_def)
  show "stack_inv (take (last ns) cur) (butlast ns)"
    using assms le l
    by (auto simp: stack_inv_def sorted_butlast list_all_iff dest: in_set_butlastD in_set_takeD)
  show "offsets_of (take (last ns) cur) (butlast ns) = butlast (offsets_of cur ns)"
    using le by (simp add: offsets_of_def map_butlast [symmetric] min_def)
  show "take (last (offsets_of cur ns)) (path_of cur) = path_of (take (last ns) cur)"
    using assms(2) take_path_of [OF l(1)] by (simp add: offsets_of_def last_map)
qed

lemma stack_inv_push:
  assumes "stack_inv cur ns" and "plain_segment s"
  shows "stack_inv (cur @ [s]) (ns @ [length cur + 1])" and "stack_inv (cur @ [s]) ns"
    and "offsets_of (cur @ [s]) (ns @ [length cur + 1]) = offsets_of cur ns @ [length (path_of (cur @ [s]))]"
    and "offsets_of (cur @ [s]) ns = offsets_of cur ns"
proof -
  have le: "n \<le> length cur" if "n \<in> set ns" for n using assms that by (auto simp: stack_inv_def)
  show "stack_inv (cur @ [s]) (ns @ [length cur + 1])" "stack_inv (cur @ [s]) ns"
    using assms le by (auto simp: stack_inv_def sorted_append le_SucI)
  show "offsets_of (cur @ [s]) ns = offsets_of cur ns" using le by (simp add: offsets_of_def)
  then show "offsets_of (cur @ [s]) (ns @ [length cur + 1]) = offsets_of cur ns @ [length (path_of (cur @ [s]))]"
    by (simp add: offsets_of_def)
qed

lemma first_segment_no_slash: "CHR ''/'' \<notin> set (first_segment p)"
  by (metis (mono_tags, lifting) set_takeWhileD)

lemma norm_loop_segs:
  assumes "stack_inv cur ns"
  shows "norm_loop out_size p (path_of cur) (offsets_of cur ns) =
    map_sum id path_of (norm_segs out_size (segs p) cur ns)"
  using assms
proof (induction p arbitrary: cur ns rule: segs.induct)
  case (1 p)
  let ?s = "first_segment p" and ?r = "skip_slashes (after_segment p)"
  show ?case
  proof (cases "p = []")
    case True
    then show ?thesis by (simp add: norm_loop.simps)
  next
    case False
    note unf = norm_loop.simps [of out_size p] segs.simps [of p] and IH = "1.IH" [OF False]
    show ?thesis
    proof (cases "?s = []")
      case True
      then show ?thesis using False IH [OF "1.prems"] by (simp add: unf Let_def)
    next
      case seg: False
      consider (long) "VFS_NAME_MAX < length ?s" | (dot) "\<not> VFS_NAME_MAX < length ?s" "?s = ''.''"
        | (dots) "\<not> VFS_NAME_MAX < length ?s" "?s = ''..''"
        | (plain) "\<not> VFS_NAME_MAX < length ?s" "?s \<noteq> ''.''" "?s \<noteq> ''..''" by blast
      then show ?thesis
      proof cases
        case long
        then show ?thesis using False seg by (simp add: unf Let_def)
      next
        case dot
        then show ?thesis using False seg IH [OF "1.prems"] by (simp add: unf Let_def)
      next
        case dots
        show ?thesis
        proof (cases "ns = []")
          case True
          then show ?thesis using dots False seg IH [OF "1.prems"] by (simp add: unf Let_def offsets_of_def)
        next
          case ne: False
          note pop = stack_inv_pop [OF "1.prems" ne]
          have "offsets_of cur ns \<noteq> []" using ne by (simp add: offsets_of_def)
          then show ?thesis using dots False seg ne IH [OF pop(1)] pop(2,3) by (simp add: unf Let_def)
        qed
      next
        case plain
        then have ps: "plain_segment ?s"
          using seg first_segment_no_slash [of p] by (simp add: plain_segment_def)
        note push = stack_inv_push [OF "1.prems" ps]
        define base where "base = (if 1 < length (path_of cur) then path_of cur @ ''/'' else path_of cur)"
        have out: "path_of (cur @ [?s]) = base @ ?s"
          unfolding base_def using "1.prems" by (intro path_of_snoc) (simp add: stack_inv_def)
        have full: "1 < length (path_of cur) \<and> out_size \<le> length (path_of cur) + 1 \<Longrightarrow> out_size \<le> length base + length ?s"
          by (simp add: base_def)
        have lo: "length (offsets_of cur ns) = length ns" by (simp add: offsets_of_def)
        show ?thesis
        proof (cases "out_size \<le> length (path_of (cur @ [?s]))")
          case True
          then show ?thesis using plain False seg by (cases "1 < length (path_of cur)") (simp_all add: unf Let_def out base_def)
        next
          case fits: False
          then have fits': "\<not> out_size \<le> length base + length ?s" using out by simp
          with full have "\<not> (1 < length (path_of cur) \<and> out_size \<le> length (path_of cur) + 1)" by blast
          then have "norm_loop out_size p (path_of cur) (offsets_of cur ns) =
              norm_loop out_size ?r (path_of (cur @ [?s])) (if length ns < VFS_MAX_SEGMENTS
                then offsets_of cur ns @ [length (path_of (cur @ [?s]))] else offsets_of cur ns)"
            using plain False seg fits'
            by (cases "1 < length (path_of cur)") (simp_all add: norm_loop.simps [of out_size p] Let_def lo out base_def)
          then show ?thesis
            using plain False seg fits IH [OF push(1)] IH [OF push(2)] push(3,4) by (simp add: segs.simps [of p])
        qed
      qed
    qed
  qed
qed

lemma norm_segs_result:
  assumes "norm_segs out_size ss cur ns = Inr r" and "stack_inv cur ns" and "\<forall>s \<in> set ss. proper_segment s"
    and "length (path_of cur) < out_size"
  shows "list_all plain_segment r \<and> length (path_of r) < out_size"
  using assms
proof (induction ss arbitrary: cur ns)
  case Nil
  then show ?case by (simp add: stack_inv_def)
next
  case (Cons s ss)
  have ps: "plain_segment s" if "\<not> VFS_NAME_MAX < length s" "s \<noteq> ''.''" "s \<noteq> ''..''"
    using Cons.prems(3) that by (simp add: plain_segment_def proper_segment_def)
  have pop: "stack_inv (take (last ns) cur) (butlast ns)"
      "length (path_of (take (last ns) cur)) < out_size" if "ns \<noteq> []"
    using stack_inv_pop(1) [OF Cons.prems(2) that] length_path_of_take [of cur "last ns"] Cons.prems(2,4)
    by (auto simp: stack_inv_def)
  show ?case
    using Cons.prems Cons.IH [of "take (last ns) cur" "butlast ns"] pop Cons.IH [of cur ns]
      stack_inv_push(1,2) [OF Cons.prems(2) ps] Cons.IH [of "cur @ [s]"]
    by (auto split: if_splits)
qed

lemma stack_inv_Nil [simp]: "stack_inv [] []" by (simp add: stack_inv_def)

lemma normalize_segs:
  assumes "path \<noteq> []" and "hd path = CHR ''/''" and "0 < out_size"
  shows "vfs_normalize_path path out_size = map_sum id path_of (norm_segs out_size (segs path) [] [])"
  using assms norm_loop_segs [of "[]" "[]" out_size "skip_slashes path"]
  by (simp add: vfs_normalize_path_def offsets_of_def)

lemma normalize_result:
  assumes "vfs_normalize_path path out_size = Inr out"
  shows "normal_path out \<and> length out < out_size \<or> out_size = 1"
proof (cases "path = []")
  case True
  then have "out = ''/''" "2 \<le> out_size" using assms by (simp_all add: vfs_normalize_path_def split: if_splits)
  then show ?thesis by (auto simp: normal_path_def intro!: exI [of _ "[]"])
next
  case False
  then have "hd path = CHR ''/''" "0 < out_size"
    using assms by (auto simp: vfs_normalize_path_def split: if_splits)
  with normalize_segs [OF False] assms obtain r where
    r: "norm_segs out_size (segs path) [] [] = Inr r" "out = path_of r"
    by (cases "norm_segs out_size (segs path) [] []") auto
  then show ?thesis
    using norm_segs_result [OF r(1)] segs_proper \<open>0 < out_size\<close> by (auto simp: normal_path_def)
qed

text \<open>Paths without \<open>..\<close>.\<close>

lemma norm_segs_plain:
  assumes "\<forall>s \<in> set ss. s \<noteq> ''..'' \<and> length s \<le> VFS_NAME_MAX \<and> proper_segment s"
    and "list_all plain_segment cur"
    and "length (path_of (cur @ filter (\<lambda>s. s \<noteq> ''.'') ss)) < out_size"
  shows "norm_segs out_size ss cur ns = Inr (cur @ filter (\<lambda>s. s \<noteq> ''.'') ss)"
  using assms
proof (induction ss arbitrary: cur ns)
  case (Cons s ss)
  show ?case
  proof (cases "s = ''.''")
    case True
    then show ?thesis using Cons by simp
  next
    case False
    let ?all = "cur @ filter (\<lambda>s. s \<noteq> ''.'') (s # ss)"
    have ps: "plain_segment s" using Cons.prems(1) False by (simp add: plain_segment_def proper_segment_def)
    have pl: "list_all plain_segment ?all"
      using Cons.prems(1,2) ps by (auto simp: list_all_iff plain_segment_def proper_segment_def)
    have "cur @ [s] = take (length cur + 1) ?all" using False by simp
    then have "length (path_of (cur @ [s])) \<le> length (path_of ?all)"
      using length_path_of_take [OF pl, of "length cur + 1"] by (simp only:)
    then have "\<not> out_size \<le> length (path_of (cur @ [s]))" using Cons.prems(3) by linarith
    then show ?thesis using Cons False ps by auto
  qed
qed simp

text \<open>Adding segments, with the stack of the loop.\<close>

lemma norm_segs_add:
  assumes "list_all plain_segment (cur @ xs)" and "length (path_of (cur @ xs)) < out_size"
    and "length ns + length xs \<le> VFS_MAX_SEGMENTS" and "xs \<noteq> []"
  shows "\<exists>ns'. norm_segs out_size (xs @ zs) cur ns = norm_segs out_size zs (cur @ xs) ns' \<and>
    ns' \<noteq> [] \<and> last ns' = length (cur @ xs)"
  using assms
proof (induction xs arbitrary: cur ns)
  case (Cons x xs)
  have x: "x \<noteq> ''.''" "x \<noteq> ''..''" "\<not> VFS_NAME_MAX < length x"
    using Cons.prems(1) by (auto simp: plain_segment_def)
  have "cur @ [x] = take (length cur + 1) (cur @ x # xs)" by simp
  then have "length (path_of (cur @ [x])) \<le> length (path_of (cur @ x # xs))"
    using length_path_of_take [OF Cons.prems(1), of "length cur + 1"] by (simp only:)
  then have fits: "\<not> out_size \<le> length (path_of (cur @ [x]))" using Cons.prems(2) by linarith
  show ?case
  proof (cases "xs = []")
    case True
    then show ?thesis using x fits Cons.prems(3) by auto
  next
    case False
    then show ?thesis
      using x fits Cons.prems Cons.IH [of "cur @ [x]" "ns @ [length cur + 1]"] by simp
  qed
qed simp

section \<open>Prefixes\<close>

lemma prefix_slashed:
  assumes "list_all proper_segment ps" and "list_all proper_segment ms"
  shows "prefix (slashed ms) (slashed ps) \<and>
      (length (slashed ps) = length (slashed ms) \<or> slashed ps ! length (slashed ms) = CHR ''/'') \<longleftrightarrow> prefix ms ps"
proof
  assume "prefix ms ps"
  then obtain rs where ps: "ps = ms @ rs" by (auto simp: prefix_def)
  then show "prefix (slashed ms) (slashed ps) \<and>
      (length (slashed ps) = length (slashed ms) \<or> slashed ps ! length (slashed ms) = CHR ''/'')"
    by (cases rs) (simp_all add: nth_append)
next
  assume l: "prefix (slashed ms) (slashed ps) \<and>
      (length (slashed ps) = length (slashed ms) \<or> slashed ps ! length (slashed ms) = CHR ''/'')"
  then obtain r where r: "slashed ps = slashed ms @ r" by (auto simp: prefix_def)
  with l have "r = [] \<or> hd r = CHR ''/''" by (cases r) (auto simp: nth_append)
  then have "segs (slashed ps) = ms @ segs r" using segs_slashed_append [OF assms(2)] r by simp
  moreover have "segs (slashed ps) = ps" using segs_slashed_append [OF assms(1), of "[]"] by simp
  ultimately show "prefix ms ps" by (simp add: prefix_def)
qed

lemma take_eq_prefix: "take (length xs) ys = xs \<longleftrightarrow> prefix xs ys"
  by (metis append_eq_conv_conj prefix_def)

lemma path_of_slashed: "ss \<noteq> [] \<Longrightarrow> path_of ss = slashed ss" by (simp add: path_of_def)

lemma plain_proper_list: "list_all plain_segment ss \<Longrightarrow> list_all proper_segment ss"
  by (auto simp: list_all_iff plain_is_proper)

lemma length_path_of: "length (path_of ss) = 1 \<longleftrightarrow> ss = []" if "list_all plain_segment ss"
  using that by (cases ss) (auto simp: path_of_def plain_segment_def)

lemma under_prefix:
  assumes "list_all plain_segment ps" and "list_all plain_segment ms"
  shows "vfs_cache_path_is_under (path_of ps) (path_of ms) \<longleftrightarrow> prefix ms ps"
proof (cases "ms = []")
  case True
  have "take (Suc 0) (path_of ps) = ''/''" by (cases ps) (simp_all add: path_of_def)
  then show ?thesis using True by (simp add: vfs_cache_path_is_under_def Let_def)
next
  case False
  note pr = prefix_slashed [OF plain_proper_list [OF assms(1)] plain_proper_list [OF assms(2)]]
  obtain ms' m where ms: "ms = ms' @ [m]" using False by (cases ms rule: rev_cases) auto
  have m: "m \<noteq> []" "CHR ''/'' \<notin> set m" using assms(2) by (auto simp: ms plain_segment_def)
  then have "last (slashed ms) \<noteq> CHR ''/''" by (simp add: ms) (metis last_in_set)
  then have nl: "slashed ms ! (length (slashed ms) - 1) \<noteq> CHR ''/''"
    using False by (simp add: last_conv_nth)
  have ne: "slashed ms \<noteq> []" using False by simp
  show ?thesis
  proof (cases "ps = []")
    case True
    have "2 \<le> length (slashed ms)" using m by (cases m) (simp_all add: ms)
    then have "take (length (slashed ms)) ''/'' \<noteq> slashed ms" by (auto dest: arg_cong [of _ _ length])
    then show ?thesis
      using False True ne by (simp add: vfs_cache_path_is_under_def Let_def path_of_slashed)
  next
    case ps: False
    then show ?thesis
      using pr False nl ne
      by (simp add: vfs_cache_path_is_under_def Let_def path_of_slashed take_eq_prefix) blast
  qed
qed

definition mount_matches :: "string \<Rightarrow> string \<Rightarrow> bool" where
  "mount_matches path m \<longleftrightarrow> \<not> length path < length m \<and> take (length m) path = m \<and>
     \<not> (length m \<noteq> 1 \<and> length path \<noteq> length m \<and> path ! length m \<noteq> CHR ''/'')"

lemma mount_matches_prefix:
  assumes "list_all plain_segment ps" and "list_all plain_segment ms"
  shows "mount_matches (path_of ps) (path_of ms) \<longleftrightarrow> prefix ms ps"
proof (cases "ms = []")
  case True
  have "take (Suc 0) (path_of ps) = ''/''" "path_of ps \<noteq> []" by (cases ps; simp add: path_of_def)+
  then show ?thesis using True by (simp add: mount_matches_def)
next
  case False
  note pr = prefix_slashed [OF plain_proper_list [OF assms(1)] plain_proper_list [OF assms(2)]]
  have l: "length (slashed ms) \<noteq> 1" using length_path_of [OF assms(2)] False by (simp add: path_of_slashed)
  show ?thesis
  proof (cases "ps = []")
    case True
    have "slashed ms \<noteq> []" using False by simp
    with l have "1 < length (slashed ms)" by (cases "slashed ms") auto
    then show ?thesis using False True by (simp add: mount_matches_def path_of_slashed)
  next
    case ps: False
    have "length (slashed ms) \<le> length (slashed ps)" if "prefix (slashed ms) (slashed ps)"
      using that by (rule prefix_length_le)
    then show ?thesis
      using pr False ps l by (auto simp: mount_matches_def path_of_slashed take_eq_prefix)
  qed
qed

lemma select_loop_longest:
  assumes "case best of None \<Rightarrow> True | Some b \<Rightarrow> best_len = length (m_path b)"
  shows "case select_loop path ms best best_len of
      None \<Rightarrow> best = None \<and> (\<forall>m \<in> set ms. \<not> mount_matches path (m_path m))
    | Some r \<Rightarrow> (best = Some r \<or> r \<in> set ms \<and> mount_matches path (m_path r)) \<and>
        (\<forall>m \<in> set ms. mount_matches path (m_path m) \<longrightarrow> length (m_path m) \<le> length (m_path r)) \<and>
        (\<forall>b. best = Some b \<longrightarrow> length (m_path b) \<le> length (m_path r))"
  using assms
proof (induction ms arbitrary: best best_len)
  case Nil
  then show ?case by (auto split: option.splits)
next
  case (Cons m ms)
  show ?case
  proof (cases "mount_matches path (m_path m)")
    case False
    then have "select_loop path (m # ms) best best_len = select_loop path ms best best_len"
      by (auto simp: mount_matches_def Let_def)
    then show ?thesis using Cons.IH [OF Cons.prems] False by (auto split: option.splits)
  next
    case True
    show ?thesis
    proof (cases "best = None \<or> best_len < length (m_path m)")
      case take: True
      then have "select_loop path (m # ms) best best_len = select_loop path ms (Some m) (length (m_path m))"
        using True by (auto simp: mount_matches_def Let_def)
      then show ?thesis using Cons.IH [of "length (m_path m)" "Some m"] Cons.prems take True
        by (fastforce split: option.splits)
    next
      case keep: False
      then have "select_loop path (m # ms) best best_len = select_loop path ms best best_len"
        using True by (auto simp: mount_matches_def Let_def)
      then show ?thesis using Cons.IH [OF Cons.prems] Cons.prems keep True
        by (fastforce split: option.splits)
    qed
  qed
qed

section \<open>Properties\<close>

lemma normalize_path_of:
  assumes "list_all plain_segment ss" and "length (path_of ss) < VFS_PATH_MAX"
  shows "vfs_normalize_path (path_of ss) VFS_PATH_MAX = Inr (path_of ss)"
proof -
  have "filter (\<lambda>s. s \<noteq> ''.'') ss = ss" using assms(1) by (auto simp: list_all_iff plain_segment_def filter_id_conv)
  then have n: "norm_segs VFS_PATH_MAX ss [] [] = Inr ss"
    using norm_segs_plain [of ss "[]" VFS_PATH_MAX "[]"] assms
    by (simp add: list_all_iff plain_segment_def proper_segment_def)
  then show ?thesis
    using assms plain_proper_list [OF assms(1)] path_of_hd [of ss] by (simp add: normalize_segs VFS_PATH_MAX_def)
qed

text \<open>C32. Normalising a path with the buffer size the callers use gives, when it succeeds, a path in normal
  form: a slash before every segment, no empty, \<open>.\<close> or \<open>..\<close> segment, none longer than 255
  characters, and room for the terminating zero byte; normalising the result changes nothing.\<close>

theorem vfs_normalize_normal:
  assumes "vfs_normalize_path path VFS_PATH_MAX = Inr out"
  shows "\<exists>ss. list_all plain_segment ss \<and> out = path_of ss \<and> length out < VFS_PATH_MAX \<and>
    vfs_normalize_path out VFS_PATH_MAX = Inr out"
proof -
  from normalize_result [OF assms] obtain ss where
    ss: "list_all plain_segment ss" "out = path_of ss" "length out < VFS_PATH_MAX"
    by (auto simp: normal_path_def VFS_PATH_MAX_def)
  with normalize_path_of [of ss] show ?thesis by blast
qed

theorem vfs_normalize_normal_witness:
  "\<exists>ss. list_all plain_segment ss \<and> ''/a/b'' = path_of ss \<and> vfs_normalize_path ''/a/b'' VFS_PATH_MAX = Inr ''/a/b''"
proof -
  have "vfs_normalize_path ''//a/./b/'' VFS_PATH_MAX = Inr ''/a/b''" by code_simp
  from vfs_normalize_normal [OF this] show ?thesis by auto
qed

text \<open>A path without \<open>..\<close> is normalised to its own segments, without the empty and the \<open>.\<close> ones,
  when no segment is too long and the result fits.\<close>

theorem vfs_normalize_keeps_segments:
  assumes "path \<noteq> []" and "hd path = CHR ''/''" and "\<forall>s \<in> set (segs path). s \<noteq> ''..'' \<and> length s \<le> VFS_NAME_MAX"
    and "length (path_of (filter (\<lambda>s. s \<noteq> ''.'') (segs path))) < out_size"
  shows "vfs_normalize_path path out_size = Inr (path_of (filter (\<lambda>s. s \<noteq> ''.'') (segs path)))"
  using assms normalize_segs [OF assms(1,2)] segs_proper norm_segs_plain [of "segs path" "[]" out_size "[]"]
  by simp

theorem vfs_normalize_keeps_segments_witness:
  "vfs_normalize_path ''//usr/./lib'' 1024 = Inr (path_of (filter (\<lambda>s. s \<noteq> ''.'') (segs ''//usr/./lib'')))"
proof -
  have s: "segs ''//usr/./lib'' = [''usr'', ''.'', ''lib'']" by code_simp
  show ?thesis
    by (rule vfs_normalize_keeps_segments) (simp_all add: s VFS_NAME_MAX_def path_of_def)
qed

text \<open>A single \<open>..\<close> after plain segments is dropped without removing the segment before it: the
  offset the loop goes back to is the one recorded after that segment was written.\<close>

theorem vfs_normalize_dotdot_ignored:
  assumes "list_all plain_segment (xs @ ys)" and "xs \<noteq> []" and "length xs \<le> VFS_MAX_SEGMENTS"
    and "length (path_of (xs @ ys)) < out_size"
  shows "vfs_normalize_path (path_of (xs @ ''..'' # ys)) out_size = Inr (path_of (xs @ ys))"
proof -
  have proper: "list_all proper_segment (xs @ ''..'' # ys)"
    using assms(1) by (auto simp: list_all_iff plain_segment_def proper_segment_def)
  have "xs = take (length xs) (xs @ ys)" by simp
  then have "length (path_of xs) < out_size"
    using length_path_of_take [OF assms(1), of "length xs"] assms(4) by simp
  then obtain ns where ns: "norm_segs out_size (xs @ ''..'' # ys) [] [] = norm_segs out_size (''..'' # ys) xs ns"
      "ns \<noteq> []" "last ns = length xs"
    using norm_segs_add [of "[]" xs out_size "[]" "''..'' # ys"] assms by auto
  have "filter (\<lambda>s. s \<noteq> ''.'') ys = ys" using assms(1) by (auto simp: list_all_iff plain_segment_def filter_id_conv)
  then have "norm_segs out_size (''..'' # ys) xs ns = Inr (xs @ ys)"
    using ns(2,3) norm_segs_plain [of ys xs out_size "butlast ns"] assms(1,4)
    by (simp add: VFS_NAME_MAX_def list_all_iff plain_segment_def proper_segment_def)
  moreover have "vfs_normalize_path (path_of (xs @ ''..'' # ys)) out_size =
      map_sum id path_of (norm_segs out_size (segs (path_of (xs @ ''..'' # ys))) [] [])"
    using path_of_hd assms(4) by (intro normalize_segs) auto
  ultimately show ?thesis using ns(1) segs_path_of [OF proper] by simp
qed

theorem vfs_normalize_dotdot_ignored_witness:
  "vfs_normalize_path (path_of ([''a'', ''b''] @ ''..'' # [''c''])) 1024 = Inr (path_of ([''a'', ''b''] @ [''c'']))"
  by (rule vfs_normalize_dotdot_ignored)
    (simp_all add: plain_segment_def VFS_NAME_MAX_def VFS_MAX_SEGMENTS_def VFS_PATH_MAX_def path_of_def)

text \<open>For a normalised path the mount that is chosen is one whose segments are a prefix of the path's,
  and no other such mount has a longer path; none is chosen only when no mount is a prefix.\<close>

theorem vfs_select_mount_longest:
  assumes "list_all plain_segment ps" and "\<forall>m \<in> set ms. \<exists>ss. list_all plain_segment ss \<and> m_path m = path_of ss"
  shows "case vfs_select_mount (Some ms) (path_of ps) of
      None \<Rightarrow> \<forall>m \<in> set ms. \<not> prefix (segs (m_path m)) ps
    | Some r \<Rightarrow> r \<in> set ms \<and> prefix (segs (m_path r)) ps \<and>
        (\<forall>m \<in> set ms. prefix (segs (m_path m)) ps \<longrightarrow> length (m_path m) \<le> length (m_path r))"
proof -
  have "mount_matches (path_of ps) (m_path m) \<longleftrightarrow> prefix (segs (m_path m)) ps" if "m \<in> set ms" for m
    using assms that mount_matches_prefix plain_proper_list by fastforce
  then show ?thesis
    using select_loop_longest [where best = None and best_len = 0 and path = "path_of ps" and ms = ms] by (auto simp: vfs_select_mount_def split: option.splits)
qed

definition demo_mount :: "string \<Rightarrow> ptr \<Rightarrow> unit VFSMount" where
  "demo_mount path root = \<lparr>m_self = root + 100, m_path = path,
     m_fs = \<lparr>fs_name = None, fs_flags = 0, fs_ops = None, fs_context = NULL\<rparr>, m_root = root, m_flags = 0\<rparr>"

theorem vfs_select_mount_longest_witness:
  "vfs_select_mount (Some [demo_mount ''/'' 1, demo_mount ''/mnt'' 2]) ''/mnt/x'' = Some (demo_mount ''/mnt'' 2)"
proof -
  have s: "segs ''/'' = []" "segs ''/mnt'' = [''mnt'']" "path_of [''mnt'', ''x''] = ''/mnt/x''" by code_simp+
  have "\<exists>ss. list_all plain_segment ss \<and> ''/'' = path_of ss" "\<exists>ss. list_all plain_segment ss \<and> ''/mnt'' = path_of ss"
    by (rule exI [of _ "[]"], simp, rule exI [of _ "[''mnt'']"],
        simp add: plain_segment_def VFS_NAME_MAX_def path_of_def)
  then have "case vfs_select_mount (Some [demo_mount ''/'' 1, demo_mount ''/mnt'' 2]) (path_of [''mnt'', ''x'']) of
      None \<Rightarrow> \<forall>m \<in> set [demo_mount ''/'' 1, demo_mount ''/mnt'' 2]. \<not> prefix (segs (m_path m)) [''mnt'', ''x'']
    | Some r \<Rightarrow> r \<in> set [demo_mount ''/'' 1, demo_mount ''/mnt'' 2] \<and> prefix (segs (m_path r)) [''mnt'', ''x''] \<and>
        (\<forall>m \<in> set [demo_mount ''/'' 1, demo_mount ''/mnt'' 2].
          prefix (segs (m_path m)) [''mnt'', ''x''] \<longrightarrow> length (m_path m) \<le> length (m_path r))"
    by (intro vfs_select_mount_longest) (simp_all add: demo_mount_def plain_segment_def VFS_NAME_MAX_def)
  then show ?thesis by (auto simp: s demo_mount_def split: option.splits)
qed

end
