(* ===== verification/Vfs_Cache.thy ===== *)
theory Vfs_Cache
  imports Vfs_Path
begin

text \<open>
  The lookup cache of \<open>kernel/filesystem/VFS.c\<close>: a list of path and node pairs, most recently used
  first, with a capacity and hit counters. The entries of the list are never null and always have
  a path, since \<open>vfs_cache_insert\<close> is the only function that adds one, so the null checks of the
  loops fall away. The lemmas reduce every operation to list functions and show what a cache must
  keep: the capacity, one entry per path, the least recently used entry evicted.
\<close>

section \<open>Model\<close>

record VFSCacheEntry =
  e_path :: string
  e_node :: ptr

record cache =
  s_cache_entries :: "VFSCacheEntry list option"
  s_cache_capacity :: nat
  s_cache_hits :: nat
  s_cache_misses :: nat

record VFSCacheStats =
  st_hits :: nat
  st_misses :: nat
  st_entries :: nat
  st_capacity :: nat

definition VFS_DEFAULT_CACHE_CAPACITY :: nat where "VFS_DEFAULT_CACHE_CAPACITY = 128"

definition vfs_cache_enabled :: "cache \<Rightarrow> bool" where
  "vfs_cache_enabled c \<longleftrightarrow> s_cache_entries c \<noteq> None \<and> 0 < s_cache_capacity c"

definition vfs_cache_init :: "'d kernel \<Rightarrow> cache \<Rightarrow> bool \<times> cache \<times> 'd kernel" where
  "vfs_cache_init k c =
     (if s_cache_entries c \<noteq> None then (True, c, k)
      else let (p, k) = kmalloc k
      in if p = NULL then (False, c, k) else (True, c\<lparr>s_cache_entries := Some []\<rparr>, k))"

text \<open>\<open>while (!List_IsEmpty(l)) List_RemoveAt(l, 0)\<close>\<close>

fun cache_clear_loop :: "VFSCacheEntry list \<Rightarrow> VFSCacheEntry list" where
  "cache_clear_loop [] = []"
| "cache_clear_loop (e # es) = cache_clear_loop (remove_nth 0 (e # es))"

definition vfs_cache_clear :: "cache \<Rightarrow> cache" where
  "vfs_cache_clear c = c\<lparr>s_cache_entries := map_option cache_clear_loop (s_cache_entries c)\<rparr>"

function trim_loop :: "nat \<Rightarrow> VFSCacheEntry list \<Rightarrow> VFSCacheEntry list" where
  "trim_loop capacity es =
     (if capacity < length es then trim_loop capacity (remove_nth (length es - 1) es) else es)"
  by pat_completeness auto
termination by (relation "measure (length \<circ> snd)") auto

definition vfs_cache_trim_to_capacity :: "cache \<Rightarrow> cache" where
  "vfs_cache_trim_to_capacity c =
     (case s_cache_entries c of
        None \<Rightarrow> c
      | Some es \<Rightarrow> (if s_cache_capacity c = 0 then vfs_cache_clear c
                  else c\<lparr>s_cache_entries := Some (trim_loop (s_cache_capacity c) es)\<rparr>))"

function remove_prefix_loop :: "string \<Rightarrow> nat \<Rightarrow> VFSCacheEntry list \<Rightarrow> VFSCacheEntry list" where
  "remove_prefix_loop pre index es =
     (if index < length es then
        (if vfs_cache_path_is_under (e_path (es ! index)) pre
         then remove_prefix_loop pre index (remove_nth index es)
         else remove_prefix_loop pre (index + 1) es)
      else es)"
  by pat_completeness auto
termination by (relation "measure (\<lambda>(pre, index, es). length es - index)") auto

definition vfs_cache_remove_prefix :: "string \<Rightarrow> cache \<Rightarrow> cache" where
  "vfs_cache_remove_prefix pre c =
     (case s_cache_entries c of
        None \<Rightarrow> c
      | Some es \<Rightarrow> c\<lparr>s_cache_entries := Some (remove_prefix_loop pre 0 es)\<rparr>)"

text \<open>The loops over the list that stop at the first entry with the path.\<close>

definition find_entry :: "string \<Rightarrow> VFSCacheEntry list \<Rightarrow> nat option" where
  "find_entry path es = first_index (\<lambda>e. e_path e = path) es"

definition vfs_cache_remove_exact :: "string \<Rightarrow> cache \<Rightarrow> cache" where
  "vfs_cache_remove_exact path c =
     (case s_cache_entries c of
        None \<Rightarrow> c
      | Some es \<Rightarrow> (case find_entry path es of
          None \<Rightarrow> c
        | Some index \<Rightarrow> c\<lparr>s_cache_entries := Some (remove_nth index es)\<rparr>))"

text \<open>A hit is moved to the front, unless there is no memory for the list node: then the entry is lost.\<close>

definition vfs_cache_lookup :: "'d kernel \<Rightarrow> string \<Rightarrow> cache \<Rightarrow> ptr \<times> cache \<times> 'd kernel" where
  "vfs_cache_lookup k path c =
     (if \<not> vfs_cache_enabled c then (NULL, c, k)
      else let es = the (s_cache_entries c)
      in case find_entry path es of
           None \<Rightarrow> (NULL, c\<lparr>s_cache_misses := add64 (s_cache_misses c) 1\<rparr>, k)
         | Some index \<Rightarrow>
             (let entry = es ! index;
                  (es, k) = (if index \<noteq> 0 then list_push k entry (remove_nth index es) else (es, k))
              in (e_node entry, c\<lparr>s_cache_entries := Some es, s_cache_hits := add64 (s_cache_hits c) 1\<rparr>, k)))"

definition vfs_cache_insert :: "'d kernel \<Rightarrow> string \<Rightarrow> ptr \<Rightarrow> cache \<Rightarrow> (cache \<times> 'd kernel) option" where
  "vfs_cache_insert k path node c =
     (if node = NULL then Some (c, k)
      else if \<not> vfs_cache_enabled c then Some (c, k)
      else let
        es = the (s_cache_entries c);
        es = (case find_entry path es of None \<Rightarrow> es | Some index \<Rightarrow> remove_nth index es);
        es = (if s_cache_capacity c \<le> length es then remove_nth (length es - 1) es else es);
        (entry, k) = kmalloc k
      in if entry = NULL then Some (c\<lparr>s_cache_entries := Some es\<rparr>, k)
      else do {
        k \<leftarrow> kstrdup k;
        (let (es, k) = list_push k \<lparr>e_path = path, e_node = node\<rparr> es
         in Some (c\<lparr>s_cache_entries := Some es\<rparr>, k)) })"

definition VFS_CacheFlush :: "cache \<Rightarrow> cache" where
  "VFS_CacheFlush c = (if s_cache_entries c = None then c else vfs_cache_clear c)"

definition VFS_CacheSetCapacity :: "nat \<Rightarrow> cache \<Rightarrow> cache" where
  "VFS_CacheSetCapacity capacity c =
     (let c = c\<lparr>s_cache_capacity := capacity\<rparr>
      in if s_cache_entries c = None then c
      else if s_cache_capacity c = 0 then vfs_cache_clear c
      else vfs_cache_trim_to_capacity c)"

definition VFS_CacheResetStats :: "cache \<Rightarrow> cache" where
  "VFS_CacheResetStats c = c\<lparr>s_cache_hits := 0, s_cache_misses := 0\<rparr>"

definition VFS_CacheGetStats :: "cache \<Rightarrow> VFSCacheStats" where
  "VFS_CacheGetStats c =
     \<lparr>st_hits = s_cache_hits c, st_misses = s_cache_misses c,
      st_entries = (case s_cache_entries c of None \<Rightarrow> 0 | Some es \<Rightarrow> length es),
      st_capacity = s_cache_capacity c\<rparr>"

section \<open>The operations as list functions\<close>

lemma cache_clear_loop_eq [simp]: "cache_clear_loop es = []"
  by (induction es rule: cache_clear_loop.induct) simp_all

declare trim_loop.simps [simp del] remove_prefix_loop.simps [simp del]

lemma remove_nth_last: "es \<noteq> [] \<Longrightarrow> remove_nth (length es - Suc 0) es = butlast es"
  by (simp add: remove_nth_def butlast_conv_take)

lemma trim_loop_eq: "trim_loop n es = take n es"
proof (induction n es rule: trim_loop.induct)
  case (1 n es)
  show ?case
  proof (cases "n < length es")
    case True
    then have "es \<noteq> []" by auto
    then show ?thesis
      using True 1 by (subst trim_loop.simps) (simp add: remove_nth_last butlast_conv_take min_def)
  qed (simp add: trim_loop.simps)
qed

lemma remove_prefix_loop_eq:
  "remove_prefix_loop pre i es = take i es @ filter (\<lambda>e. \<not> vfs_cache_path_is_under (e_path e) pre) (drop i es)"
proof (induction pre i es rule: remove_prefix_loop.induct)
  case (1 pre i es)
  show ?case
  proof (cases "i < length es")
    case True
    then have d: "drop i es = es ! i # drop (Suc i) es" by (simp add: Cons_nth_drop_Suc)
    show ?thesis
      using 1 True by (subst remove_prefix_loop.simps) (auto simp: d remove_nth_def take_Suc_conv_app_nth min_def)
  qed (simp add: remove_prefix_loop.simps)
qed

section \<open>Invariant\<close>

text \<open>One entry per path, non-null nodes, and no more entries than the capacity.\<close>

definition entries_ok :: "nat \<Rightarrow> VFSCacheEntry list \<Rightarrow> bool" where
  "entries_ok capacity es \<longleftrightarrow> distinct (map e_path es) \<and> (\<forall>e \<in> set es. e_node e \<noteq> NULL) \<and> length es \<le> capacity"

definition cache_ok :: "cache \<Rightarrow> bool" where
  "cache_ok c \<longleftrightarrow> (\<forall>es. s_cache_entries c = Some es \<longrightarrow> entries_ok (s_cache_capacity c) es)"

lemma find_entry_Some:
  assumes "find_entry path es = Some i"
  shows "i < length es" and "e_path (es ! i) = path" and "\<forall>j < i. e_path (es ! j) \<noteq> path"
  using assms by (auto simp: find_entry_def dest: first_index_SomeD)

lemma find_entry_None: "find_entry path es = None \<longleftrightarrow> path \<notin> e_path ` set es"
  by (auto simp: find_entry_def find_index_from_None)

lemma remove_nth_filter:
  assumes "distinct (map e_path es)" and "find_entry path es = Some i"
  shows "remove_nth i es = filter (\<lambda>e. e_path e \<noteq> path) es"
proof -
  note f = find_entry_Some [OF assms(2)]
  have ne: "e_path (es ! j) \<noteq> path" if "j < length es" "j \<noteq> i" for j
    using assms(1) f(1,2) that by (auto simp: distinct_conv_nth)
  have "filter (\<lambda>e. e_path e \<noteq> path) (take i es) = take i es"
    using ne f(1) by (intro filter_True) (metis (no_types) in_set_conv_nth length_take less_imp_neq
      min_less_iff_conj nth_take)
  moreover have "filter (\<lambda>e. e_path e \<noteq> path) (drop (Suc i) es) = drop (Suc i) es"
  proof (rule filter_True, rule ballI)
    fix e assume "e \<in> set (drop (Suc i) es)"
    then obtain j where "j < length es - Suc i" "e = es ! (Suc i + j)" by (auto simp: in_set_conv_nth)
    then show "e_path e \<noteq> path" using ne [of "Suc i + j"] by simp
  qed
  moreover have "es = take i es @ es ! i # drop (Suc i) es" using f(1) by (rule id_take_nth_drop)
  ultimately show ?thesis
    using f(2) by (metis (mono_tags, lifting) filter.simps(2) filter_append remove_nth_def)
qed

definition without :: "string \<Rightarrow> VFSCacheEntry list \<Rightarrow> VFSCacheEntry list" where
  "without path es = filter (\<lambda>e. e_path e \<noteq> path) es"

lemma without_absent [simp]: "path \<notin> e_path ` set es \<Longrightarrow> without path es = es"
  by (auto simp: without_def filter_id_conv)

lemma entries_ok_filter: "entries_ok n es \<Longrightarrow> entries_ok n (filter P es)"
  by (auto simp: entries_ok_def distinct_map_filter le_trans [OF length_filter_le])

lemma entries_ok_take: "entries_ok n es \<Longrightarrow> entries_ok n' (take n' es)"
  by (auto simp: entries_ok_def distinct_take take_map [symmetric] dest: in_set_takeD)

lemma vfs_cache_lookup_cases:
  assumes "vfs_cache_enabled c" and "s_cache_entries c = Some es" and "distinct (map e_path es)"
  obtains (miss) "path \<notin> e_path ` set es"
      "vfs_cache_lookup k path c = (NULL, c\<lparr>s_cache_misses := add64 (s_cache_misses c) 1\<rparr>, k)"
    | (hit) e k' es' where "e \<in> set es" "e_path e = path"
      "vfs_cache_lookup k path c =
         (e_node e, c\<lparr>s_cache_entries := Some es', s_cache_hits := add64 (s_cache_hits c) 1\<rparr>, k')"
      "es' = e # without path es \<or> es' = without path es \<and> k_mallocs k \<noteq> []"
      "k_nodes k' = k_nodes k" "k_drv k' = k_drv k" "k_mallocs k = [] \<Longrightarrow> k_mallocs k' = []"
      "k_last k \<le> k_last k'"
proof (cases "find_entry path es")
  case None
  then show thesis using assms iffD1 [OF find_entry_None None] by (intro miss) (simp_all add: vfs_cache_lookup_def)
next
  case (Some i)
  note f = find_entry_Some [OF Some] and r = remove_nth_filter [OF assms(3) Some, folded without_def]
  let ?e = "es ! i"
  have e: "?e \<in> set es" "e_path ?e = path" using f by auto
  show thesis
  proof (cases "i = 0")
    case True
    have "es = ?e # remove_nth i es" using f(1) True by (cases es) (simp_all add: remove_nth_def)
    then have es: "es = ?e # without path es" using r by simp
    show thesis
      by (rule hit [OF e, of es k]) (use assms Some True es in \<open>simp_all add: vfs_cache_lookup_def\<close>)
  next
    case False
    show thesis
    proof (cases k rule: kmalloc_cases)
      case (fail k')
      show thesis
        by (rule hit [OF e, of "without path es" k'])
          (use assms Some False fail r in \<open>simp_all add: vfs_cache_lookup_def list_push_def Let_def\<close>)
    next
      case (ok k')
      show thesis
        by (rule hit [OF e, of "?e # without path es" k'])
          (use assms Some False ok r in \<open>simp_all add: vfs_cache_lookup_def list_push_def Let_def\<close>)
    qed
  qed
qed

lemma vfs_cache_insert_cases:
  assumes "vfs_cache_enabled c" and "s_cache_entries c = Some es" and ok: "entries_ok (s_cache_capacity c) es"
    and "node \<noteq> NULL" and ins: "vfs_cache_insert k path node c = Some (c', k')"
  defines "kept \<equiv> take (s_cache_capacity c - 1) (without path es)"
  shows "\<exists>es'. c' = c\<lparr>s_cache_entries := Some es'\<rparr> \<and>
      (es' = \<lparr>e_path = path, e_node = node\<rparr> # kept \<or> es' = kept \<and> k_mallocs k \<noteq> []) \<and>
      k_nodes k' = k_nodes k \<and> k_drv k' = k_drv k \<and> (k_mallocs k = [] \<longrightarrow> k_mallocs k' = []) \<and> k_last k \<le> k_last k'"
proof -
  let ?cap = "s_cache_capacity c"
  define es1 where "es1 = (case find_entry path es of None \<Rightarrow> es | Some index \<Rightarrow> remove_nth index es)"
  define es2 where "es2 = (if ?cap \<le> length es1 then remove_nth (length es1 - 1) es1 else es1)"
  have cap: "0 < ?cap" using assms(1) by (simp add: vfs_cache_enabled_def)
  have es1: "es1 = without path es"
  proof (cases "find_entry path es")
    case None
    then show ?thesis using iffD1 [OF find_entry_None None] by (simp add: es1_def)
  next
    case (Some i)
    then show ?thesis using remove_nth_filter [OF _ Some] ok by (simp add: es1_def without_def entries_ok_def)
  qed
  have len: "length (without path es) \<le> ?cap"
    using ok by (simp add: entries_ok_def without_def le_trans [OF length_filter_le])
  have es2: "es2 = kept"
  proof (cases "?cap \<le> length es1")
    case True
    then have "length es1 = ?cap" "es1 \<noteq> []" using len es1 cap by auto
    moreover have "es2 = butlast es1" using True \<open>es1 \<noteq> []\<close> by (simp add: es2_def remove_nth_last)
    ultimately show ?thesis by (simp add: kept_def butlast_conv_take flip: es1)
  next
    case False
    then have "length (without path es) \<le> ?cap - 1" using es1 by simp
    then show ?thesis using False by (simp add: es2_def kept_def es1)
  qed
  have eq: "vfs_cache_insert k path node c =
      (let (entry, k) = kmalloc k
       in if entry = NULL then Some (c\<lparr>s_cache_entries := Some kept\<rparr>, k)
       else do { k \<leftarrow> kstrdup k;
                 (let (es, k) = list_push k \<lparr>e_path = path, e_node = node\<rparr> kept
                  in Some (c\<lparr>s_cache_entries := Some es\<rparr>, k)) })"
    using assms(1,2,4) unfolding vfs_cache_insert_def
    by (simp only: Let_def option.sel if_False if_True simp_thms es1_def [symmetric] es2_def [symmetric] es2)
  show ?thesis
  proof (cases k rule: kmalloc_cases)
    case (fail k1)
    then show ?thesis using ins eq by auto
  next
    case (ok k1)
    show ?thesis
    proof (cases k1 rule: kmalloc_cases)
      case (fail k2)
      then show ?thesis using ins eq ok by (simp add: kstrdup_def)
    next
      case (ok k2)
      note k1 = \<open>kmalloc k = _\<close> \<open>k_nodes k1 = _\<close> \<open>k_drv k1 = _\<close> \<open>k_last k1 = _\<close> \<open>k_mallocs k1 = _\<close>
      show ?thesis
      proof (cases k2 rule: kmalloc_cases)
        case (fail k3)
        then show ?thesis using ins eq k1 ok by (auto simp: kstrdup_def list_push_def)
      next
        case ok3: (ok k3)
        then show ?thesis using ins eq k1 ok by (auto simp: kstrdup_def list_push_def)
      qed
    qed
  qed
qed

end
