(* ===== verification/Vfs.thy ===== *)
theory Vfs
  imports Vfs_Cache
begin

text \<open>
  The virtual file system, \<open>kernel/filesystem/VFS.c\<close>: registration, mounting, path resolution
  through the cache, and the operations on nodes and handles, each with every early return of
  the code. \<open>tbl\<close> gives the operation table at an address. A null \<open>buffer\<close> of a read is the
  argument \<open>False\<close>; a buffer to write is \<open>None\<close> or its bytes. Log output is left out.
\<close>

section \<open>State\<close>

record 'd vfs =
  s_vfs_initialized :: bool
  s_filesystems :: "'d kernel VFSFileSystem list option"
  s_mounts :: "'d kernel VFSMount list option"
  s_root_mount :: "'d kernel VFSMount option"
  v_cache :: cache
  v_handles :: "ptr \<Rightarrow> VFSHandle option"
  v_kernel :: "'d kernel"

type_synonym 'd ops_table = "ptr \<Rightarrow> 'd kernel VFSNodeOps"

text \<open>\<open>node->ops\<close>, and a function of it: \<open>None\<close> when either pointer is null.\<close>

definition node_op :: "'d ops_table \<Rightarrow> ('d kernel VFSNodeOps \<Rightarrow> 'f option) \<Rightarrow> VFSNode \<Rightarrow> 'f option" where
  "node_op tbl f nd = (if n_ops nd = NULL then None else f (tbl (n_ops nd)))"

definition fs_op :: "('d kernel VFSFileSystemOps \<Rightarrow> 'f option) \<Rightarrow> 'd kernel VFSFileSystem \<Rightarrow> 'f option" where
  "fs_op f fs = (case fs_ops fs of None \<Rightarrow> None | Some ops \<Rightarrow> f ops)"

definition elems :: "'a list option \<Rightarrow> 'a list" where
  "elems xs = (case xs of None \<Rightarrow> [] | Some l \<Rightarrow> l)"

section \<open>Initialisation and registration\<close>

definition VFS_Init :: "'d vfs \<Rightarrow> 'd vfs" where
  "VFS_Init v =
     (if s_vfs_initialized v then v
      else let (fss, k) = kmalloc (v_kernel v); (ms, k) = kmalloc k;
               v = v\<lparr>v_kernel := k\<rparr>
      in if fss = NULL \<or> ms = NULL then v\<lparr>s_filesystems := None, s_mounts := None\<rparr>
      else let (ok, c, k) = vfs_cache_init k (v_cache v);
               v = v\<lparr>v_cache := c, v_kernel := k\<rparr>
      in if \<not> ok then v\<lparr>s_filesystems := None, s_mounts := None\<rparr>
      else v\<lparr>s_filesystems := Some [], s_mounts := Some [], s_vfs_initialized := True\<rparr>)"

definition VFS_IsInitialized :: "'d vfs \<Rightarrow> bool" where
  "VFS_IsInitialized v = s_vfs_initialized v"

definition VFS_RegisterFileSystem :: "'d vfs \<Rightarrow> 'd kernel VFSFileSystem option \<Rightarrow> VFSResult \<times> 'd vfs" where
  "VFS_RegisterFileSystem v fs =
     (case fs of
        None \<Rightarrow> (VFS_RES_INVALID, v)
      | Some fs \<Rightarrow>
          (if \<not> s_vfs_initialized v \<or> fs_name fs = None \<or> fs_op op_mount fs = None \<or> fs_op op_probe fs = None
           then (VFS_RES_INVALID, v)
           else case s_filesystems v of
             None \<Rightarrow> (VFS_RES_ERROR, v)
           | Some fss \<Rightarrow>
               (if list_ex (\<lambda>existing. fs_name existing = fs_name fs) fss then (VFS_RES_EXISTS, v)
                else let (fss, k) = list_add (v_kernel v) fs fss
                in (VFS_RES_OK, v\<lparr>s_filesystems := Some fss, v_kernel := k\<rparr>))))"

definition VFS_GetFileSystem :: "'d vfs \<Rightarrow> string \<Rightarrow> 'd kernel VFSFileSystem option" where
  "VFS_GetFileSystem v nm =
     (if \<not> s_vfs_initialized v then None
      else List.find (\<lambda>fs. fs_name fs = Some nm) (elems (s_filesystems v)))"

section \<open>Mounting\<close>

definition vfs_attach_mount_to_tree :: "'d kernel \<Rightarrow> 'd kernel VFSMount \<Rightarrow> 'd kernel option" where
  "vfs_attach_mount_to_tree k mount =
     (if m_root mount = NULL then Some k
      else do {
        nd \<leftarrow> k_nodes k (m_root mount);
        Some (set_node k (m_root mount)
          (nd\<lparr>n_mount := m_self mount, n_flags := n_flags nd OR VFS_NODE_FLAG_MOUNTPOINT, n_parent := NULL\<rparr>)) })"

definition run_unmount :: "'d kernel VFSFileSystem \<Rightarrow> ptr \<Rightarrow> 'd kernel \<Rightarrow> 'd kernel option" where
  "run_unmount fs root k =
     (case fs_op op_unmount fs of None \<Rightarrow> Some k | Some f \<Rightarrow> do { (_, k) \<leftarrow> f k root; Some k })"

definition VFS_Mount ::
  "'d vfs \<Rightarrow> string \<Rightarrow> 'd kernel VFSFileSystem option \<Rightarrow> VFSMountParams option \<Rightarrow> ('d kernel VFSMount option \<times> 'd vfs) option" where
  "VFS_Mount v target fs params =
     (case fs of
        None \<Rightarrow> Some (None, v)
      | Some fs \<Rightarrow>
      (if \<not> s_vfs_initialized v then Some (None, v)
       else case fs_op op_mount fs of
         None \<Rightarrow> Some (None, v)
       | Some mount_handler \<Rightarrow>
      (case vfs_normalize_path target VFS_PATH_MAX of
         Inl _ \<Rightarrow> Some (None, v)
       | Inr normalized \<Rightarrow>
      (if list_ex (\<lambda>m. m_path m = normalized) (elems (s_mounts v)) then Some (None, v)
       else do {
         ((mount_res, root_node), k) \<leftarrow> mount_handler (v_kernel v) params;
         (if mount_res \<noteq> VFS_RES_OK \<or> root_node = NULL then Some (None, v\<lparr>v_kernel := k\<rparr>)
          else let (self, k) = kmalloc k
          in if self = NULL then do { k \<leftarrow> run_unmount fs root_node k; Some (None, v\<lparr>v_kernel := k\<rparr>) }
          else do {
            k \<leftarrow> kstrdup k;
            (let mount = \<lparr>m_self = self, m_path = normalized, m_fs = fs, m_root = root_node,
                          m_flags = (case params of None \<Rightarrow> 0 | Some ps \<Rightarrow> p_flags ps)\<rparr>
             in do {
               k \<leftarrow> vfs_attach_mount_to_tree k mount;
               (let (ms, k) = (case s_mounts v of
                        None \<Rightarrow> (None, k)
                      | Some ms \<Rightarrow> (let (ms, k) = list_add k mount ms in (Some ms, k)));
                    c = vfs_cache_remove_prefix (m_path mount) (v_cache v)
                in do {
                  (c, k) \<leftarrow> vfs_cache_insert k (m_path mount) (m_root mount) c;
                  Some (Some mount,
                    v\<lparr>s_mounts := ms,
                      s_root_mount := (if m_path mount = ''/'' then Some mount else s_root_mount v),
                      v_cache := c, v_kernel := k\<rparr>) }) }) }) }))))"

fun detect_loop :: "'d kernel VFSFileSystem list \<Rightarrow> VFSMountParams \<Rightarrow> 'd kernel \<Rightarrow> ('d kernel VFSFileSystem option \<times> 'd kernel) option" where
  "detect_loop [] params k = Some (None, k)"
| "detect_loop (fs # fss) params k =
     (case fs_op op_probe fs of
        None \<Rightarrow> detect_loop fss params k
      | Some probe \<Rightarrow> do {
          (matches, k) \<leftarrow> probe k (Some params);
          (if matches then Some (Some fs, k) else detect_loop fss params k) })"

definition VFS_DetectFileSystem ::
  "'d vfs \<Rightarrow> VFSMountParams option \<Rightarrow> ('d kernel VFSFileSystem option \<times> 'd vfs) option" where
  "VFS_DetectFileSystem v params =
     (case params of
        None \<Rightarrow> Some (None, v)
      | Some params \<Rightarrow>
          (if \<not> s_vfs_initialized v then Some (None, v)
           else do { (fs, k) \<leftarrow> detect_loop (elems (s_filesystems v)) params (v_kernel v);
                     Some (fs, v\<lparr>v_kernel := k\<rparr>) }))"

fun mount_auto_loop ::
  "string \<Rightarrow> 'd kernel VFSFileSystem list \<Rightarrow> VFSMountParams \<Rightarrow> 'd vfs \<Rightarrow> ('d kernel VFSMount option \<times> 'd vfs) option" where
  "mount_auto_loop target [] params v = Some (None, v)"
| "mount_auto_loop target (fs # fss) params v =
     (case fs_op op_probe fs of
        None \<Rightarrow> mount_auto_loop target fss params v
      | Some probe \<Rightarrow> do {
          (matches, k) \<leftarrow> probe (v_kernel v) (Some params);
          (let v = v\<lparr>v_kernel := k\<rparr>
           in if \<not> matches then mount_auto_loop target fss params v
           else do {
             (mount, v) \<leftarrow> VFS_Mount v target (Some fs) (Some params);
             (if mount \<noteq> None then Some (mount, v) else mount_auto_loop target fss params v) }) })"

definition VFS_MountAuto ::
  "'d vfs \<Rightarrow> string \<Rightarrow> VFSMountParams option \<Rightarrow> ('d kernel VFSMount option \<times> 'd vfs) option" where
  "VFS_MountAuto v target params =
     (case params of
        None \<Rightarrow> Some (None, v)
      | Some params \<Rightarrow>
          (if \<not> s_vfs_initialized v then Some (None, v)
           else mount_auto_loop target (elems (s_filesystems v)) params v))"

definition VFS_Unmount :: "'d vfs \<Rightarrow> string \<Rightarrow> (VFSResult \<times> 'd vfs) option" where
  "VFS_Unmount v target =
     (if \<not> s_vfs_initialized v then Some (VFS_RES_INVALID, v)
      else case vfs_normalize_path target VFS_PATH_MAX of
        Inl norm_res \<Rightarrow> Some (norm_res, v)
      | Inr normalized \<Rightarrow>
          (let ms = elems (s_mounts v)
           in case first_index (\<lambda>m. m_path m = normalized) ms of
                None \<Rightarrow> Some (VFS_RES_NOT_FOUND, v)
              | Some index \<Rightarrow>
                  (let mount = ms ! index
                   in if m_path mount = ''/'' then Some (VFS_RES_BUSY, v)
                   else do {
                     k \<leftarrow> run_unmount (m_fs mount) (m_root mount) (v_kernel v);
                     Some (VFS_RES_OK,
                       v\<lparr>s_mounts := Some (remove_nth index ms),
                         v_cache := vfs_cache_remove_prefix normalized (v_cache v), v_kernel := k\<rparr>) })))"

definition VFS_GetMount :: "'d vfs \<Rightarrow> string \<Rightarrow> 'd kernel VFSMount option" where
  "VFS_GetMount v target =
     (if \<not> s_vfs_initialized v then None
      else case vfs_normalize_path target VFS_PATH_MAX of
        Inl _ \<Rightarrow> None
      | Inr normalized \<Rightarrow> List.find (\<lambda>m. m_path m = normalized) (elems (s_mounts v)))"

definition VFS_GetMountRoot :: "'d kernel VFSMount option \<Rightarrow> ptr" where
  "VFS_GetMountRoot mount = (case mount of None \<Rightarrow> NULL | Some m \<Rightarrow> m_root m)"

section \<open>Path resolution\<close>

lemma length_rest: "skip_slashes p \<noteq> [] \<Longrightarrow> length (after_segment (skip_slashes p)) < length p"
proof -
  assume ne: "skip_slashes p \<noteq> []"
  then obtain c q where q: "skip_slashes p = c # q" by (cases "skip_slashes p") auto
  then have "c \<noteq> CHR ''/''" by (metis (full_types) hd_dropWhile list.sel(1) ne)
  then have "length (after_segment (skip_slashes p)) \<le> length q"
    using q length_dropWhile_le [of "\<lambda>c. c \<noteq> CHR ''/''" q] by simp
  also have "\<dots> < length p" using q length_dropWhile_le [of "\<lambda>c. c = CHR ''/''" p] by simp
  finally show ?thesis .
qed

function walk_loop :: "'d ops_table \<Rightarrow> 'd kernel \<Rightarrow> ptr \<Rightarrow> string \<Rightarrow> ((VFSResult \<times> ptr) \<times> 'd kernel) option" where
  "walk_loop tbl k current p =
     (if skip_slashes p = [] then Some ((VFS_RES_OK, current), k)
      else let p = skip_slashes p; segment = first_segment p; rest = after_segment p
      in if VFS_NAME_MAX < length segment then Some ((VFS_RES_INVALID, NULL), k)
      else if segment = ''.'' then walk_loop tbl k current rest
      else do {
        nd \<leftarrow> k_nodes k current;
        (if segment = ''..'' then walk_loop tbl k (if n_parent nd \<noteq> NULL then n_parent nd else current) rest
         else case node_op tbl op_lookup nd of
           None \<Rightarrow> Some ((VFS_RES_UNSUPPORTED, NULL), k)
         | Some lookup \<Rightarrow> do {
             ((res, nxt), k) \<leftarrow> lookup k current segment;
             (if res \<noteq> VFS_RES_OK \<or> nxt = NULL then Some ((VFS_RES_NOT_FOUND, NULL), k)
              else walk_loop tbl k nxt rest) }) })"
  by pat_completeness auto
termination
  by (relation "measure (\<lambda>(tbl, k, current, p). length p)")
    (simp_all only: wf_measure in_measure prod.case, (erule length_rest)+)

declare walk_loop.simps [simp del]

definition vfs_walk ::
  "'d ops_table \<Rightarrow> 'd kernel \<Rightarrow> ptr \<Rightarrow> string \<Rightarrow> bool \<Rightarrow> ((VFSResult \<times> ptr) \<times> 'd kernel) option" where
  "vfs_walk tbl k start relative_path follow_last_link =
     (if start = NULL then Some ((VFS_RES_INVALID, NULL), k)
      else walk_loop tbl k start relative_path)"

text \<open>The part of a path behind that of its mount.\<close>

definition relative_part :: "string \<Rightarrow> string \<Rightarrow> string" where
  "relative_part mount_path normalized =
     (if mount_path = ''/'' then (if hd normalized = CHR ''/'' then tl normalized else normalized)
      else let rel = drop (length mount_path) normalized
           in if rel \<noteq> [] \<and> hd rel = CHR ''/'' then tl rel else rel)"

definition VFS_Resolve :: "'d ops_table \<Rightarrow> 'd vfs \<Rightarrow> string \<Rightarrow> ((VFSResult \<times> ptr) \<times> 'd vfs) option" where
  "VFS_Resolve tbl v path =
     (if \<not> s_vfs_initialized v then Some ((VFS_RES_INVALID, NULL), v)
      else if s_root_mount v = None then Some ((VFS_RES_NOT_FOUND, NULL), v)
      else case vfs_normalize_path path VFS_PATH_MAX of
        Inl norm_res \<Rightarrow> Some ((norm_res, NULL), v)
      | Inr normalized \<Rightarrow>
      (let (cached, c, k) = vfs_cache_lookup (v_kernel v) normalized (v_cache v);
           v = v\<lparr>v_cache := c, v_kernel := k\<rparr>
       in if cached \<noteq> NULL then Some ((VFS_RES_OK, cached), v)
       else case vfs_select_mount (s_mounts v) normalized of
         None \<Rightarrow> Some ((VFS_RES_NOT_FOUND, NULL), v)
       | Some mount \<Rightarrow>
       (let rel = relative_part (m_path mount) normalized
        in if rel = [] then do {
             (c, k) \<leftarrow> vfs_cache_insert (v_kernel v) normalized (m_root mount) (v_cache v);
             Some ((VFS_RES_OK, m_root mount), v\<lparr>v_cache := c, v_kernel := k\<rparr>) }
           else do {
             ((walk_res, out_node), k) \<leftarrow> vfs_walk tbl (v_kernel v) (m_root mount) rel True;
             (if walk_res = VFS_RES_OK \<and> out_node \<noteq> NULL
              then do {
                (c, k) \<leftarrow> vfs_cache_insert k normalized out_node (v_cache v);
                Some ((walk_res, out_node), v\<lparr>v_cache := c, v_kernel := k\<rparr>) }
              else Some ((walk_res, out_node), v\<lparr>v_kernel := k\<rparr>)) })))"

definition VFS_ResolveAt ::
  "'d ops_table \<Rightarrow> 'd vfs \<Rightarrow> ptr \<Rightarrow> string \<Rightarrow> bool \<Rightarrow> ((VFSResult \<times> ptr) \<times> 'd vfs) option" where
  "VFS_ResolveAt tbl v start path follow_last_link =
     (if path \<noteq> [] \<and> hd path = CHR ''/'' then VFS_Resolve tbl v path
      else let base = (if start \<noteq> NULL then start
                       else case s_root_mount v of None \<Rightarrow> NULL | Some m \<Rightarrow> m_root m)
      in if base = NULL then Some ((VFS_RES_NOT_FOUND, NULL), v)
      else if path = [] then Some ((VFS_RES_OK, base), v)
      else do { (r, k) \<leftarrow> vfs_walk tbl (v_kernel v) base path follow_last_link;
                Some (r, v\<lparr>v_kernel := k\<rparr>) })"

section \<open>Nodes\<close>

definition VFS_NodeName :: "'d vfs \<Rightarrow> ptr \<Rightarrow> string option option" where
  "VFS_NodeName v node = (if node = NULL then Some None else map_option n_name (k_nodes (v_kernel v) node))"

definition VFS_NodeTypeOf :: "'d vfs \<Rightarrow> ptr \<Rightarrow> VFSNodeType option" where
  "VFS_NodeTypeOf v node =
     (if node = NULL then Some VFS_NODE_UNKNOWN else map_option n_type (k_nodes (v_kernel v) node))"

definition VFS_NodeParent :: "'d vfs \<Rightarrow> ptr \<Rightarrow> ptr option" where
  "VFS_NodeParent v node = (if node = NULL then Some NULL else map_option n_parent (k_nodes (v_kernel v) node))"

definition VFS_NodeStat ::
  "'d ops_table \<Rightarrow> 'd vfs \<Rightarrow> ptr \<Rightarrow> ((VFSResult \<times> VFSNodeInfo option) \<times> 'd vfs) option" where
  "VFS_NodeStat tbl v node =
     (if node = NULL then Some ((VFS_RES_INVALID, None), v)
      else do {
        nd \<leftarrow> k_nodes (v_kernel v) node;
        (case node_op tbl op_stat nd of
           Some stat \<Rightarrow> do { (r, k) \<leftarrow> stat (v_kernel v) node; Some (r, v\<lparr>v_kernel := k\<rparr>) }
         | None \<Rightarrow> Some ((VFS_RES_OK, Some \<lparr>i_type = n_type nd, i_flags = n_flags nd, i_size = 0, i_inode = 0,
                       i_atime = 0, i_mtime = 0, i_ctime = 0\<rparr>), v)) })"

definition VFS_ReadDir ::
  "'d ops_table \<Rightarrow> 'd vfs \<Rightarrow> ptr \<Rightarrow> nat \<Rightarrow> ((VFSResult \<times> VFSDirEntry option) \<times> 'd vfs) option" where
  "VFS_ReadDir tbl v directory index =
     (if directory = NULL then Some ((VFS_RES_INVALID, None), v)
      else do {
        nd \<leftarrow> k_nodes (v_kernel v) directory;
        (if n_type nd \<noteq> VFS_NODE_DIRECTORY then Some ((VFS_RES_INVALID, None), v)
         else case node_op tbl op_readdir nd of
           None \<Rightarrow> Some ((VFS_RES_UNSUPPORTED, None), v)
         | Some readdir \<Rightarrow> do { (r, k) \<leftarrow> readdir (v_kernel v) directory NULL index; Some (r, v\<lparr>v_kernel := k\<rparr>) }) })"

section \<open>Handles\<close>

definition set_handle :: "'d vfs \<Rightarrow> ptr \<Rightarrow> VFSHandle option \<Rightarrow> 'd vfs" where
  "set_handle v h x = v\<lparr>v_handles := (v_handles v)(h := x)\<rparr>"

definition VFS_Open :: "'d ops_table \<Rightarrow> 'd vfs \<Rightarrow> string \<Rightarrow> u32 \<Rightarrow> (ptr \<times> 'd vfs) option" where
  "VFS_Open tbl v path mode =
     do {
       ((res, node), v) \<leftarrow> VFS_Resolve tbl v path;
       (if res \<noteq> VFS_RES_OK then Some (NULL, v)
        else let (handle, k) = kmalloc (v_kernel v); v = v\<lparr>v_kernel := k\<rparr>
        in if handle = NULL then Some (NULL, v)
        else do {
          nd \<leftarrow> k_nodes k node;
          (case node_op tbl op_open nd of
             None \<Rightarrow> Some (handle, set_handle v handle
                       (Some \<lparr>h_node = node, h_driver_handle = NULL, h_mode = mode, h_offset = 0\<rparr>))
           | Some open_op \<Rightarrow> do {
               ((res, driver_handle), k) \<leftarrow> open_op k node mode;
               (let v = v\<lparr>v_kernel := k\<rparr>
                in if res \<noteq> VFS_RES_OK then Some (NULL, v)
                else Some (handle, set_handle v handle
                       (Some \<lparr>h_node = node, h_driver_handle = driver_handle, h_mode = mode, h_offset = 0\<rparr>))) }) }) }"

definition VFS_Close :: "'d ops_table \<Rightarrow> 'd vfs \<Rightarrow> ptr \<Rightarrow> (VFSResult \<times> 'd vfs) option" where
  "VFS_Close tbl v handle =
     (if handle = NULL then Some (VFS_RES_INVALID, v)
      else do {
        h \<leftarrow> v_handles v handle;
        (res, k) \<leftarrow> (if h_node h = NULL then Some (VFS_RES_OK, v_kernel v)
                   else do {
                     nd \<leftarrow> k_nodes (v_kernel v) (h_node h);
                     (case node_op tbl op_close nd of
                        None \<Rightarrow> Some (VFS_RES_OK, v_kernel v)
                      | Some close \<Rightarrow> close (v_kernel v) (h_node h) (h_driver_handle h)) });
        Some (res, set_handle (v\<lparr>v_kernel := k\<rparr>) handle None) })"

definition vfs_handle_can_read :: "VFSHandle \<Rightarrow> bool" where
  "vfs_handle_can_read h \<longleftrightarrow>
     h_mode h AND VFS_OPEN_READ \<noteq> 0 \<or> h_mode h AND (VFS_OPEN_READ OR VFS_OPEN_WRITE) = 0"

definition vfs_handle_can_write :: "VFSHandle \<Rightarrow> bool" where
  "vfs_handle_can_write h \<longleftrightarrow> h_mode h AND VFS_OPEN_WRITE \<noteq> 0"

text \<open>The node of a handle and one of its operations, for the operations that fail alike when the
  node, its table or the function is null.\<close>

definition handle_op ::
  "'d ops_table \<Rightarrow> ('d kernel VFSNodeOps \<Rightarrow> 'f option) \<Rightarrow> 'd vfs \<Rightarrow> VFSHandle \<Rightarrow> 'f option option" where
  "handle_op tbl f v h =
     (if h_node h = NULL then Some None
      else do { nd \<leftarrow> k_nodes (v_kernel v) (h_node h); Some (node_op tbl f nd) })"

definition VFS_ReadAt ::
  "'d ops_table \<Rightarrow> 'd vfs \<Rightarrow> ptr \<Rightarrow> nat \<Rightarrow> bool \<Rightarrow> nat \<Rightarrow> ((int \<times> byte list) \<times> 'd vfs) option" where
  "VFS_ReadAt tbl v handle offset buffer sz =
     (if handle = NULL \<or> \<not> buffer \<or> sz = 0 then Some ((-1, []), v)
      else do {
        h \<leftarrow> v_handles v handle;
        (if \<not> vfs_handle_can_read h then Some ((-1, []), v)
         else do {
           rd \<leftarrow> handle_op tbl op_read v h;
           (case rd of
              None \<Rightarrow> Some ((-1, []), v)
            | Some rd \<Rightarrow> do {
                (r, k) \<leftarrow> rd (v_kernel v) (h_node h) (h_driver_handle h) offset sz;
                Some (r, v\<lparr>v_kernel := k\<rparr>) }) }) })"

definition VFS_Read ::
  "'d ops_table \<Rightarrow> 'd vfs \<Rightarrow> ptr \<Rightarrow> bool \<Rightarrow> nat \<Rightarrow> ((int \<times> byte list) \<times> 'd vfs) option" where
  "VFS_Read tbl v handle buffer sz =
     (if handle = NULL \<or> \<not> buffer \<or> sz = 0 then Some ((-1, []), v)
      else do {
        h \<leftarrow> v_handles v handle;
        (if \<not> vfs_handle_can_read h then Some ((-1, []), v)
         else do {
           rd \<leftarrow> handle_op tbl op_read v h;
           (case rd of
              None \<Rightarrow> Some ((-1, []), v)
            | Some rd \<Rightarrow> do {
                ((read_bytes, bs), k) \<leftarrow> rd (v_kernel v) (h_node h) (h_driver_handle h) (h_offset h) sz;
                (let v = v\<lparr>v_kernel := k\<rparr>
                 in Some ((read_bytes, bs),
                      if 0 < read_bytes
                      then set_handle v handle (Some (h\<lparr>h_offset := add64 (h_offset h) (nat read_bytes)\<rparr>))
                      else v)) }) }) })"

definition VFS_WriteAt ::
  "'d ops_table \<Rightarrow> 'd vfs \<Rightarrow> ptr \<Rightarrow> nat \<Rightarrow> byte list option \<Rightarrow> (int \<times> 'd vfs) option" where
  "VFS_WriteAt tbl v handle offset buffer =
     (case buffer of
        None \<Rightarrow> Some (-1, v)
      | Some bs \<Rightarrow>
      (if handle = NULL \<or> length bs = 0 then Some (-1, v)
       else do {
         h \<leftarrow> v_handles v handle;
         (if \<not> vfs_handle_can_write h then Some (-1, v)
          else do {
            wr \<leftarrow> handle_op tbl op_write v h;
            (case wr of
               None \<Rightarrow> Some (-1, v)
             | Some wr \<Rightarrow> do {
                 (r, k) \<leftarrow> wr (v_kernel v) (h_node h) (h_driver_handle h) offset bs;
                 Some (r, v\<lparr>v_kernel := k\<rparr>) }) }) }))"

definition VFS_Write :: "'d ops_table \<Rightarrow> 'd vfs \<Rightarrow> ptr \<Rightarrow> byte list option \<Rightarrow> (int \<times> 'd vfs) option" where
  "VFS_Write tbl v handle buffer =
     (case buffer of
        None \<Rightarrow> Some (-1, v)
      | Some bs \<Rightarrow>
      (if handle = NULL \<or> length bs = 0 then Some (-1, v)
       else do {
         h \<leftarrow> v_handles v handle;
         (if \<not> vfs_handle_can_write h then Some (-1, v)
          else do {
            wr \<leftarrow> handle_op tbl op_write v h;
            (case wr of
               None \<Rightarrow> Some (-1, v)
             | Some wr \<Rightarrow> do {
                 (written, k) \<leftarrow> wr (v_kernel v) (h_node h) (h_driver_handle h) (h_offset h) bs;
                 (let v = v\<lparr>v_kernel := k\<rparr>
                  in Some (written,
                       if 0 < written
                       then set_handle v handle (Some (h\<lparr>h_offset := add64 (h_offset h) (nat written)\<rparr>))
                       else v)) }) }) }))"

definition VFS_TruncateHandle :: "'d ops_table \<Rightarrow> 'd vfs \<Rightarrow> ptr \<Rightarrow> nat \<Rightarrow> (VFSResult \<times> 'd vfs) option" where
  "VFS_TruncateHandle tbl v handle len =
     (if handle = NULL then Some (VFS_RES_INVALID, v)
      else do {
        h \<leftarrow> v_handles v handle;
        (if \<not> vfs_handle_can_write h then Some (VFS_RES_ACCESS, v)
         else do {
           tr \<leftarrow> handle_op tbl op_truncate v h;
           (case tr of
              None \<Rightarrow> Some (VFS_RES_UNSUPPORTED, v)
            | Some tr \<Rightarrow> do {
                (r, k) \<leftarrow> tr (v_kernel v) (h_node h) (h_driver_handle h) len;
                Some (r, v\<lparr>v_kernel := k\<rparr>) }) }) })"

text \<open>\<open>offset\<close> is an \<open>int64_t\<close>, whose smallest value cannot be negated. The sum of an unsigned and
  a signed number is taken modulo \<open>2 ^ 64\<close>.\<close>

definition seek_from :: "nat \<Rightarrow> int \<Rightarrow> nat option option" where
  "seek_from base offset =
     (if offset < 0 \<and> offset = - (2 ^ 63) then None
      else if offset < 0 \<and> int base < - offset then Some None
      else Some (Some (nat ((int base + offset) mod 2 ^ 64))))"

definition VFS_SeekHandle ::
  "'d ops_table \<Rightarrow> 'd vfs \<Rightarrow> ptr \<Rightarrow> int \<Rightarrow> VFSSeekWhence \<Rightarrow> ((VFSResult \<times> nat) \<times> 'd vfs) option" where
  "VFS_SeekHandle tbl v handle offset whence =
     (if handle = NULL then Some ((VFS_RES_INVALID, 0), v)
      else do {
        h \<leftarrow> v_handles v handle;
        (let moved = (\<lambda>v pos. case pos of
               None \<Rightarrow> ((VFS_RES_INVALID, 0), v)
             | Some new_pos \<Rightarrow> ((VFS_RES_OK, new_pos), set_handle v handle (Some (h\<lparr>h_offset := new_pos\<rparr>))))
         in case whence of
              VFS_SEEK_SET \<Rightarrow> Some (moved v (if offset < 0 then None else Some (nat offset)))
            | VFS_SEEK_CUR \<Rightarrow> do { pos \<leftarrow> seek_from (h_offset h) offset; Some (moved v pos) }
            | VFS_SEEK_END \<Rightarrow> do {
                ((res, info), v) \<leftarrow> VFS_NodeStat tbl v (h_node h);
                (if res \<noteq> VFS_RES_OK then Some ((VFS_RES_ERROR, 0), v)
                 else do {
                   info \<leftarrow> info;
                   pos \<leftarrow> seek_from (i_size info) offset;
                   Some (moved v pos) }) }
            | VFS_SEEK_other \<Rightarrow> Some ((VFS_RES_INVALID, 0), v)) })"

section \<open>Queries by path\<close>

definition VFS_DirectoryExists :: "'d ops_table \<Rightarrow> 'd vfs \<Rightarrow> string \<Rightarrow> (bool \<times> 'd vfs) option" where
  "VFS_DirectoryExists tbl v path =
     do {
       ((res, node), v) \<leftarrow> VFS_Resolve tbl v path;
       (if res \<noteq> VFS_RES_OK \<or> node = NULL then Some (False, v)
        else do { nd \<leftarrow> k_nodes (v_kernel v) node; Some (n_type nd = VFS_NODE_DIRECTORY, v) }) }"

definition VFS_FileExists :: "'d ops_table \<Rightarrow> 'd vfs \<Rightarrow> string \<Rightarrow> (bool \<times> 'd vfs) option" where
  "VFS_FileExists tbl v path =
     do {
       ((res, node), v) \<leftarrow> VFS_Resolve tbl v path;
       (if res \<noteq> VFS_RES_OK \<or> node = NULL then Some (False, v)
        else do { nd \<leftarrow> k_nodes (v_kernel v) node;
                  Some (n_type nd = VFS_NODE_REGULAR \<or> n_type nd = VFS_NODE_SYMLINK, v) }) }"

partial_function (option) contents_loop ::
  "('d kernel \<Rightarrow> ptr \<Rightarrow> ptr \<Rightarrow> nat \<Rightarrow> ((VFSResult \<times> VFSDirEntry option) \<times> 'd kernel) option) \<Rightarrow>
   ptr \<Rightarrow> nat \<Rightarrow> VFSDirEntry list \<Rightarrow> 'd kernel \<Rightarrow> (VFSDirEntry list option \<times> 'd kernel) option" where
  "contents_loop readdir directory index contents k =
     (let (entry, k) = kmalloc k
      in if entry = NULL then Some (None, k)
      else do {
        ((res, e), k) \<leftarrow> readdir k directory NULL index;
        (if res = VFS_RES_NOT_FOUND then Some (Some contents, k)
         else if res \<noteq> VFS_RES_OK then Some (None, k)
         else do {
           e \<leftarrow> e;
           (let (contents, k) = list_add k e contents
            in contents_loop readdir directory (index + 1) contents k) }) })"

definition VFS_GetDirectoryContents ::
  "'d ops_table \<Rightarrow> 'd vfs \<Rightarrow> string \<Rightarrow> (VFSDirEntry list option \<times> 'd vfs) option" where
  "VFS_GetDirectoryContents tbl v path =
     do {
       ((res, directory), v) \<leftarrow> VFS_Resolve tbl v path;
       (if res \<noteq> VFS_RES_OK \<or> directory = NULL then Some (None, v)
        else do {
          nd \<leftarrow> k_nodes (v_kernel v) directory;
          (if n_type nd \<noteq> VFS_NODE_DIRECTORY then Some (None, v)
           else case node_op tbl op_readdir nd of
             None \<Rightarrow> Some (None, v)
           | Some readdir \<Rightarrow>
               (let (l, k) = kmalloc (v_kernel v)
                in if l = NULL then Some (None, v\<lparr>v_kernel := k\<rparr>)
                else do {
                  (contents, k) \<leftarrow> contents_loop readdir directory 0 [] k;
                  Some (contents, v\<lparr>v_kernel := k\<rparr>) })) }) }"

section \<open>Creation and removal\<close>

text \<open>What \<open>VFS_Create\<close> and \<open>VFS_Remove\<close> compute from a normalised path: the name behind the last
  slash and the path before it. \<open>strrchr\<close> finds a slash in every normalised path.\<close>

definition split_last :: "string \<Rightarrow> VFSResult + string \<times> string" where
  "split_last normalized =
     (if CHR ''/'' \<notin> set normalized then Inl VFS_RES_INVALID
      else let nm = rev (first_segment (rev normalized)); parent_len = length normalized - length nm - 1
      in if nm = [] then Inl VFS_RES_INVALID
      else if VFS_NAME_MAX < length nm then Inl VFS_RES_INVALID
      else if parent_len = 0 then Inr (''/'', nm)
      else if VFS_PATH_MAX \<le> parent_len then Inl VFS_RES_NO_SPACE
      else Inr (take parent_len normalized, nm))"

definition VFS_Create :: "'d ops_table \<Rightarrow> 'd vfs \<Rightarrow> string \<Rightarrow> VFSNodeType \<Rightarrow> (VFSResult \<times> 'd vfs) option" where
  "VFS_Create tbl v path type =
     (if type = VFS_NODE_UNKNOWN then Some (VFS_RES_INVALID, v)
      else if \<not> s_vfs_initialized v then Some (VFS_RES_ERROR, v)
      else case vfs_normalize_path path VFS_PATH_MAX of
        Inl res \<Rightarrow> Some (res, v)
      | Inr normalized \<Rightarrow>
      (if normalized = ''/'' then Some (VFS_RES_EXISTS, v)
       else case split_last normalized of
         Inl res \<Rightarrow> Some (res, v)
       | Inr (parent_path, nm) \<Rightarrow> do {
           ((res, parent), v) \<leftarrow> VFS_Resolve tbl v parent_path;
           (if res \<noteq> VFS_RES_OK then Some (res, v)
            else do {
              nd \<leftarrow> k_nodes (v_kernel v) parent;
              (case node_op tbl op_create nd of
                 None \<Rightarrow> Some (VFS_RES_UNSUPPORTED, v)
               | Some create \<Rightarrow>
                   (let v = v\<lparr>v_cache := vfs_cache_remove_exact normalized (v_cache v)\<rparr>
                    in do { ((res, _), k) \<leftarrow> create (v_kernel v) parent nm type;
                            Some (res, v\<lparr>v_kernel := k\<rparr>) })) }) }))"

definition VFS_Remove :: "'d ops_table \<Rightarrow> 'd vfs \<Rightarrow> string \<Rightarrow> (VFSResult \<times> 'd vfs) option" where
  "VFS_Remove tbl v path =
     (if \<not> s_vfs_initialized v then Some (VFS_RES_ERROR, v)
      else case vfs_normalize_path path VFS_PATH_MAX of
        Inl res \<Rightarrow> Some (res, v)
      | Inr normalized \<Rightarrow>
      (if normalized = ''/'' then Some (VFS_RES_BUSY, v)
       else case split_last normalized of
         Inl res \<Rightarrow> Some (res, v)
       | Inr (parent_path, nm) \<Rightarrow> do {
           ((res, parent), v) \<leftarrow> VFS_Resolve tbl v parent_path;
           (if res \<noteq> VFS_RES_OK then Some (res, v)
            else do {
              nd \<leftarrow> k_nodes (v_kernel v) parent;
              (case node_op tbl op_remove nd of
                 None \<Rightarrow> Some (VFS_RES_UNSUPPORTED, v)
               | Some remove \<Rightarrow>
                   (let v = v\<lparr>v_cache := vfs_cache_remove_prefix normalized (v_cache v)\<rparr>
                    in do { (res, k) \<leftarrow> remove (v_kernel v) parent nm;
                            Some (res, v\<lparr>v_kernel := k\<rparr>) })) }) }))"

declare contents_loop.simps [code]

end
