(* ===== verification/File_Stream.thy ===== *)
theory File_Stream
  imports Vfs
begin

text \<open>
  File streams, \<open>kernel/stream/FileStream.c\<close>: objects that hold a handle of the virtual file
  system, an access mode of their own and whether closing the stream closes the handle.
\<close>

record FileStream =
  f_handle :: ptr
  f_mode :: u32
  f_owns_handle :: bool

record 'd streams =
  st_streams :: "ptr \<Rightarrow> FileStream option"
  st_vfs :: "'d vfs"

definition filestream_alloc :: "'d streams \<Rightarrow> ptr \<Rightarrow> u32 \<Rightarrow> bool \<Rightarrow> (ptr \<times> 'd streams) option" where
  "filestream_alloc s handle mode take_ownership =
     (if handle = NULL then Some (NULL, s)
      else let v = st_vfs s; (stream, k) = kmalloc (v_kernel v); s = s\<lparr>st_vfs := v\<lparr>v_kernel := k\<rparr>\<rparr>
      in if stream = NULL then Some (NULL, s)
      else do {
        md \<leftarrow> (if mode \<noteq> 0 then Some mode else map_option h_mode (v_handles v handle));
        Some (stream, s\<lparr>st_streams := (st_streams s)
          (stream \<mapsto> \<lparr>f_handle = handle, f_mode = md, f_owns_handle = take_ownership\<rparr>)\<rparr>) })"

definition lift_vfs :: "'d streams \<Rightarrow> ('a \<times> 'd vfs) option \<Rightarrow> ('a \<times> 'd streams) option" where
  "lift_vfs s r = do { (a, v) \<leftarrow> r; Some (a, s\<lparr>st_vfs := v\<rparr>) }"

definition FileStream_Create ::
  "'d ops_table \<Rightarrow> 'd streams \<Rightarrow> ptr \<Rightarrow> u32 \<Rightarrow> bool \<Rightarrow> (ptr \<times> 'd streams) option" where
  "FileStream_Create tbl s handle mode take_ownership =
     do {
       (stream, s) \<leftarrow> filestream_alloc s handle mode take_ownership;
       (if stream = NULL \<and> take_ownership \<and> handle \<noteq> NULL
        then do { (_, s) \<leftarrow> lift_vfs s (VFS_Close tbl (st_vfs s) handle); Some (stream, s) }
        else Some (stream, s)) }"

definition FileStream_Open ::
  "'d ops_table \<Rightarrow> 'd streams \<Rightarrow> string \<Rightarrow> u32 \<Rightarrow> (ptr \<times> 'd streams) option" where
  "FileStream_Open tbl s path mode =
     do {
       (handle, s) \<leftarrow> lift_vfs s (VFS_Open tbl (st_vfs s) path mode);
       (if handle = NULL then Some (NULL, s)
        else do {
          (stream, s) \<leftarrow> filestream_alloc s handle mode True;
          (if stream = NULL
           then do { (_, s) \<leftarrow> lift_vfs s (VFS_Close tbl (st_vfs s) handle); Some (stream, s) }
           else Some (stream, s)) }) }"

definition VFS_OpenFileStream ::
  "'d ops_table \<Rightarrow> 'd streams \<Rightarrow> string \<Rightarrow> u32 \<Rightarrow> (ptr \<times> 'd streams) option" where
  "VFS_OpenFileStream tbl s path mode = FileStream_Open tbl s path mode"

definition FileStream_Close :: "'d ops_table \<Rightarrow> 'd streams \<Rightarrow> ptr \<Rightarrow> 'd streams option" where
  "FileStream_Close tbl s stream =
     (if stream = NULL then Some s
      else do {
        f \<leftarrow> st_streams s stream;
        s \<leftarrow> (if f_handle f \<noteq> NULL \<and> f_owns_handle f
             then do { (_, s) \<leftarrow> lift_vfs s (VFS_Close tbl (st_vfs s) (f_handle f)); Some s }
             else Some s);
        Some (s\<lparr>st_streams := (st_streams s)(stream := None)\<rparr>) })"

definition FileStream_IsOpen :: "'d streams \<Rightarrow> ptr \<Rightarrow> bool option" where
  "FileStream_IsOpen s stream =
     (if stream = NULL then Some False else do { f \<leftarrow> st_streams s stream; Some (f_handle f \<noteq> NULL) })"

definition FileStream_CanRead :: "'d streams \<Rightarrow> ptr \<Rightarrow> bool option" where
  "FileStream_CanRead s stream =
     (if stream = NULL then Some False
      else do {
        f \<leftarrow> st_streams s stream;
        Some (f_handle f \<noteq> NULL \<and>
          (f_mode f AND VFS_OPEN_READ \<noteq> 0 \<or> f_mode f AND (VFS_OPEN_READ OR VFS_OPEN_WRITE) = 0)) })"

definition FileStream_CanWrite :: "'d streams \<Rightarrow> ptr \<Rightarrow> bool option" where
  "FileStream_CanWrite s stream =
     (if stream = NULL then Some False
      else do {
        f \<leftarrow> st_streams s stream;
        Some (f_handle f \<noteq> NULL \<and> f_mode f AND VFS_OPEN_WRITE \<noteq> 0) })"

definition FileStream_Read ::
  "'d ops_table \<Rightarrow> 'd streams \<Rightarrow> ptr \<Rightarrow> bool \<Rightarrow> nat \<Rightarrow> ((int \<times> byte list) \<times> 'd streams) option" where
  "FileStream_Read tbl s stream buffer sz =
     do {
       ok \<leftarrow> FileStream_CanRead s stream;
       (if \<not> ok then Some ((-1, []), s)
        else do { f \<leftarrow> st_streams s stream; lift_vfs s (VFS_Read tbl (st_vfs s) (f_handle f) buffer sz) }) }"

definition FileStream_ReadAt ::
  "'d ops_table \<Rightarrow> 'd streams \<Rightarrow> ptr \<Rightarrow> nat \<Rightarrow> bool \<Rightarrow> nat \<Rightarrow> ((int \<times> byte list) \<times> 'd streams) option" where
  "FileStream_ReadAt tbl s stream offset buffer sz =
     do {
       ok \<leftarrow> FileStream_CanRead s stream;
       (if \<not> ok then Some ((-1, []), s)
        else do { f \<leftarrow> st_streams s stream; lift_vfs s (VFS_ReadAt tbl (st_vfs s) (f_handle f) offset buffer sz) }) }"

definition FileStream_Write ::
  "'d ops_table \<Rightarrow> 'd streams \<Rightarrow> ptr \<Rightarrow> byte list option \<Rightarrow> (int \<times> 'd streams) option" where
  "FileStream_Write tbl s stream buffer =
     do {
       ok \<leftarrow> FileStream_CanWrite s stream;
       (if \<not> ok then Some (-1, s)
        else do { f \<leftarrow> st_streams s stream; lift_vfs s (VFS_Write tbl (st_vfs s) (f_handle f) buffer) }) }"

definition FileStream_WriteAt ::
  "'d ops_table \<Rightarrow> 'd streams \<Rightarrow> ptr \<Rightarrow> nat \<Rightarrow> byte list option \<Rightarrow> (int \<times> 'd streams) option" where
  "FileStream_WriteAt tbl s stream offset buffer =
     do {
       ok \<leftarrow> FileStream_CanWrite s stream;
       (if \<not> ok then Some (-1, s)
        else do { f \<leftarrow> st_streams s stream; lift_vfs s (VFS_WriteAt tbl (st_vfs s) (f_handle f) offset buffer) }) }"

definition FileStream_Seek ::
  "'d ops_table \<Rightarrow> 'd streams \<Rightarrow> ptr \<Rightarrow> int \<Rightarrow> VFSSeekWhence \<Rightarrow> ((VFSResult \<times> nat) \<times> 'd streams) option" where
  "FileStream_Seek tbl s stream offset whence =
     (if stream = NULL then Some ((VFS_RES_INVALID, 0), s)
      else do {
        f \<leftarrow> st_streams s stream;
        (if f_handle f = NULL then Some ((VFS_RES_INVALID, 0), s)
         else lift_vfs s (VFS_SeekHandle tbl (st_vfs s) (f_handle f) offset whence)) })"

definition FileStream_Truncate :: "'d ops_table \<Rightarrow> 'd streams \<Rightarrow> ptr \<Rightarrow> nat \<Rightarrow> (VFSResult \<times> 'd streams) option" where
  "FileStream_Truncate tbl s stream len =
     (if stream = NULL then Some (VFS_RES_INVALID, s)
      else do {
        f \<leftarrow> st_streams s stream;
        (if f_handle f = NULL then Some (VFS_RES_INVALID, s)
         else lift_vfs s (VFS_TruncateHandle tbl (st_vfs s) (f_handle f) len)) })"

definition FileStream_Tell :: "'d streams \<Rightarrow> ptr \<Rightarrow> nat option" where
  "FileStream_Tell s stream =
     (if stream = NULL then Some 0
      else do {
        f \<leftarrow> st_streams s stream;
        (if f_handle f = NULL then Some 0 else map_option h_offset (v_handles (st_vfs s) (f_handle f))) })"

definition FileStream_Handle :: "'d streams \<Rightarrow> ptr \<Rightarrow> ptr option" where
  "FileStream_Handle s stream = (if stream = NULL then Some NULL else map_option f_handle (st_streams s stream))"

end
