(* ===== verification/File_Spec.thy ===== *)
theory File_Spec
  imports Vfs_Types
begin

text \<open>
  What a file is to its clients: a byte list with \<open>pread\<close>, \<open>pwrite\<close> and \<open>ptruncate\<close>, and the
  contract of a driver that keeps several of them, as the locale \<open>byte_files\<close>. Any program of
  reads, writes and truncations run through such a driver gives the results it gives on the
  byte lists.
\<close>

section \<open>Byte lists\<close>

text \<open>What reading, writing and truncating mean on the contents of a file. Bytes that a write or a
  truncation adds between the old end and the new data are zero.\<close>

definition padded :: "byte list \<Rightarrow> nat \<Rightarrow> byte list" where
  "padded bs n = bs @ replicate (n - length bs) 0"

definition pread :: "byte list \<Rightarrow> nat \<Rightarrow> nat \<Rightarrow> byte list" where
  "pread bs off n = take n (drop off bs)"

definition pwrite :: "byte list \<Rightarrow> nat \<Rightarrow> byte list \<Rightarrow> byte list" where
  "pwrite bs off xs = take off (padded bs off) @ xs @ drop (off + length xs) bs"

definition ptruncate :: "byte list \<Rightarrow> nat \<Rightarrow> byte list" where
  "ptruncate bs n = take n (padded bs n)"

lemma pread_pwrite [simp]: "pread (pwrite bs off xs) off (length xs) = xs"
  by (simp add: pread_def pwrite_def padded_def)

lemma length_pwrite: "length (pwrite bs off xs) = max (length bs) (off + length xs)"
  by (simp add: pwrite_def padded_def)

section \<open>Drivers that keep files\<close>

datatype 'f file_cmd = Read_cmd 'f nat nat | Write_cmd 'f nat "byte list" | Truncate_cmd 'f nat

text \<open>The programs that only use existing files and do not pass the end of the 64-bit offsets, with
  what they read and the files they leave.\<close>

fun run_bytes :: "('f file_cmd) list \<Rightarrow> ('f \<Rightarrow> byte list option) \<Rightarrow> (byte list list \<times> ('f \<Rightarrow> byte list option)) option" where
  "run_bytes [] F = Some ([], F)"
| "run_bytes (Read_cmd f off n # cs) F =
     do { bs \<leftarrow> F f; (os, F) \<leftarrow> run_bytes cs F; Some (pread bs off n # os, F) }"
| "run_bytes (Write_cmd f off xs # cs) F =
     do { bs \<leftarrow> F f; if off + length xs < 2 ^ 64 then run_bytes cs (F(f \<mapsto> pwrite bs off xs)) else None }"
| "run_bytes (Truncate_cmd f n # cs) F =
     do { bs \<leftarrow> F f; if n < 2 ^ 64 then run_bytes cs (F(f \<mapsto> ptruncate bs n)) else None }"

text \<open>The same programs through the operations of a driver. The observations of a program are the
  results of its reads.\<close>

fun run_files ::
  "('s \<Rightarrow> 'f \<Rightarrow> nat \<Rightarrow> nat \<Rightarrow> ((int \<times> byte list) \<times> 's) option) \<Rightarrow> ('s \<Rightarrow> 'f \<Rightarrow> nat \<Rightarrow> byte list \<Rightarrow> (int \<times> 's) option) \<Rightarrow>
   ('s \<Rightarrow> 'f \<Rightarrow> nat \<Rightarrow> (VFSResult \<times> 's) option) \<Rightarrow> ('f file_cmd) list \<Rightarrow> 's \<Rightarrow> (byte list list \<times> 's) option" where
  "run_files rd wr tr [] s = Some ([], s)"
| "run_files rd wr tr (Read_cmd f off n # cs) s =
     do { ((r, xs), s) \<leftarrow> rd s f off n; (os, s) \<leftarrow> run_files rd wr tr cs s;
          if r = int64 (length xs) then Some (xs # os, s) else None }"
| "run_files rd wr tr (Write_cmd f off xs # cs) s =
     do { (r, s) \<leftarrow> wr s f off xs; if r = int64 (length xs) then run_files rd wr tr cs s else None }"
| "run_files rd wr tr (Truncate_cmd f n # cs) s =
     do { (r, s) \<leftarrow> tr s f n; if r = VFS_RES_OK then run_files rd wr tr cs s else None }"

text \<open>\<open>holds s F\<close>: in state \<open>s\<close> the files are those of \<open>F\<close>.\<close>

locale byte_files =
  fixes holds :: "'s \<Rightarrow> ('f \<Rightarrow> byte list option) \<Rightarrow> bool"
    and fread :: "'s \<Rightarrow> 'f \<Rightarrow> nat \<Rightarrow> nat \<Rightarrow> ((int \<times> byte list) \<times> 's) option"
    and fwrite :: "'s \<Rightarrow> 'f \<Rightarrow> nat \<Rightarrow> byte list \<Rightarrow> (int \<times> 's) option"
    and ftrunc :: "'s \<Rightarrow> 'f \<Rightarrow> nat \<Rightarrow> (VFSResult \<times> 's) option"
  assumes fread_law: "holds s F \<Longrightarrow> F f = Some bs \<Longrightarrow>
      \<exists>s'. fread s f off n = Some ((int64 (length (pread bs off n)), pread bs off n), s') \<and> holds s' F"
    and fwrite_law: "holds s F \<Longrightarrow> F f = Some bs \<Longrightarrow> off + length xs < 2 ^ 64 \<Longrightarrow>
      \<exists>s'. fwrite s f off xs = Some (int64 (length xs), s') \<and> holds s' (F(f \<mapsto> pwrite bs off xs))"
    and ftrunc_law: "holds s F \<Longrightarrow> F f = Some bs \<Longrightarrow> n < 2 ^ 64 \<Longrightarrow>
      \<exists>s'. ftrunc s f n = Some (VFS_RES_OK, s') \<and> holds s' (F(f \<mapsto> ptruncate bs n))"
begin

lemma run_refines:
  "holds s F \<Longrightarrow> run_bytes cs F = Some (os, F') \<Longrightarrow>
     \<exists>s'. run_files fread fwrite ftrunc cs s = Some (os, s') \<and> holds s' F'"
proof (induction cs F arbitrary: s os F' rule: run_bytes.induct)
  case (2 f off n cs F)
  then obtain bs os' where "F f = Some bs" "run_bytes cs F = Some (os', F')" "os = pread bs off n # os'"
    by (auto split: option.splits bind_splits)
  with 2 fread_law [of s F f bs off n] show ?case by fastforce
next
  case (3 f off xs cs F)
  then obtain bs where "F f = Some bs" "off + length xs < 2 ^ 64"
      "run_bytes cs (F(f \<mapsto> pwrite bs off xs)) = Some (os, F')"
    by (auto split: option.splits bind_splits if_splits)
  with 3 fwrite_law [of s F f bs off xs] show ?case by fastforce
next
  case (4 f n cs F)
  then obtain bs where "F f = Some bs" "n < 2 ^ 64"
      "run_bytes cs (F(f \<mapsto> ptruncate bs n)) = Some (os, F')"
    by (auto split: option.splits bind_splits if_splits)
  with 4 ftrunc_law [of s F f bs n] show ?case by fastforce
qed simp

end

end
