(* ===== verification/Ramfs.thy ===== *)
theory Ramfs
  imports File_Spec
begin

text \<open>
  The in-memory file system, \<open>kernel/filesystem/ramfs.c\<close>: every operation of its driver table
  on the node store and the payloads the nodes point to. A payload's buffer is the list of its
  \<open>capacity\<close> bytes. The null checks of the out-parameters are left to the callers, which pass the
  addresses of local variables. The file part is related to byte lists here; the directory tree
  is in \<open>Ramfs_Tree\<close>.
\<close>

section \<open>Model\<close>

record RamFSNode =
  r_children :: "ptr list option"
  r_data :: "byte list"
  r_size :: nat
  r_capacity :: nat

type_synonym ramfs_heap = "ptr \<Rightarrow> RamFSNode option"
type_synonym rkernel = "ramfs_heap kernel"

text \<open>The address of the driver's table \<open>s_ramfs_node_ops\<close>.\<close>

definition RAMFS_NODE_OPS :: ptr where "RAMFS_NODE_OPS = 1"

definition set_payload :: "rkernel \<Rightarrow> ptr \<Rightarrow> RamFSNode \<Rightarrow> rkernel" where
  "set_payload k p pl = k\<lparr>k_drv := (k_drv k)(p := Some pl)\<rparr>"

definition ramfs_payload :: "rkernel \<Rightarrow> ptr \<Rightarrow> ptr option" where
  "ramfs_payload k node = (if node = NULL then Some NULL else map_option n_data (k_nodes k node))"

text \<open>\<open>ramfs_free_node\<close> calls itself for every child from a loop over the child list. Both are one
  function of the work at hand: a node, or the loop over the children of a payload.\<close>

datatype free_job = Free_node ptr | Free_children ptr

partial_function (option) ramfs_free :: "free_job \<Rightarrow> rkernel \<Rightarrow> rkernel option" where
  "ramfs_free job k =
     (case job of
        Free_children payload \<Rightarrow> do {
          pl \<leftarrow> k_drv k payload;
          (case r_children pl of
             None \<Rightarrow> Some k
           | Some [] \<Rightarrow> Some k
           | Some (child # cs) \<Rightarrow> do {
               k \<leftarrow> ramfs_free (Free_node child) (set_payload k payload (pl\<lparr>r_children := Some cs\<rparr>));
               ramfs_free (Free_children payload) k }) }
      | Free_node node \<Rightarrow>
          (if node = NULL then Some k
           else do {
             nd \<leftarrow> k_nodes k node;
             k \<leftarrow> (if n_type nd = VFS_NODE_DIRECTORY \<and> n_data nd \<noteq> NULL
                  then ramfs_free (Free_children (n_data nd)) k else Some k);
             k \<leftarrow> (if n_data nd \<noteq> NULL
                  then do { _ \<leftarrow> k_drv k (n_data nd); Some (k\<lparr>k_drv := (k_drv k)(n_data nd := None)\<rparr>) }
                  else Some k);
             Some (kfree_node k node) }))"

definition ramfs_free_node :: "rkernel \<Rightarrow> ptr \<Rightarrow> rkernel option" where
  "ramfs_free_node k node = ramfs_free (Free_node node) k"

definition ramfs_new_node :: "rkernel \<Rightarrow> string option \<Rightarrow> VFSNodeType \<Rightarrow> (ptr \<times> rkernel) option" where
  "ramfs_new_node k nm type =
     (let (node, k) = kmalloc k
      in if node = NULL then Some (NULL, k)
      else let (payload, k) = kmalloc k
      in if payload = NULL then Some (NULL, k)
      else do {
        k \<leftarrow> (if nm \<noteq> None then kstrdup k else Some k);
        (let (children, k) = (if type = VFS_NODE_DIRECTORY then kmalloc k else (NULL, k))
         in if type = VFS_NODE_DIRECTORY \<and> children = NULL then Some (NULL, k)
         else let
           k = set_payload k payload
                 \<lparr>r_children = (if type = VFS_NODE_DIRECTORY then Some [] else None),
                  r_data = [], r_size = 0, r_capacity = 0\<rparr>;
           k = set_node k node
                 \<lparr>n_name = nm, n_type = type, n_flags = 0, n_parent = NULL, n_mount = NULL,
                  n_ops = RAMFS_NODE_OPS, n_data = payload\<rparr>
         in Some (node, k)) })"

text \<open>The doubling loop of \<open>ramfs_grow_buffer\<close>.\<close>

partial_function (option) grow_loop :: "nat \<Rightarrow> nat \<Rightarrow> nat option" where
  "grow_loop required new_capacity =
     (if new_capacity < required then
        (if new_capacity > (2 ^ 64 - 1) div 2 then Some required
         else grow_loop required (new_capacity * 2))
      else Some new_capacity)"

definition ramfs_grow_buffer :: "rkernel \<Rightarrow> ptr \<Rightarrow> nat \<Rightarrow> (bool \<times> rkernel) option" where
  "ramfs_grow_buffer k payload required =
     (if payload = NULL then Some (False, k)
      else do {
        pl \<leftarrow> k_drv k payload;
        (if required \<le> r_capacity pl then Some (True, k)
         else do {
           new_capacity \<leftarrow> grow_loop required (if r_capacity pl \<noteq> 0 then r_capacity pl else 64);
           (let (new_data, k) = kmalloc k
            in if new_data = NULL then Some (False, k)
            else Some (True, set_payload k payload
                   (pl\<lparr>r_data := r_data pl @ replicate (new_capacity - r_capacity pl) 0,
                       r_capacity := new_capacity\<rparr>))) }) })"

definition ramfs_mount :: "rkernel \<Rightarrow> VFSMountParams option \<Rightarrow> ((VFSResult \<times> ptr) \<times> rkernel) option" where
  "ramfs_mount k params =
     do { (root, k) \<leftarrow> ramfs_new_node k (Some '''') VFS_NODE_DIRECTORY;
          Some (if root = NULL then ((VFS_RES_NO_MEMORY, NULL), k) else ((VFS_RES_OK, root), k)) }"

definition ramfs_unmount :: "rkernel \<Rightarrow> ptr \<Rightarrow> (VFSResult \<times> rkernel) option" where
  "ramfs_unmount k root = do { k \<leftarrow> ramfs_free_node k root; Some (VFS_RES_OK, k) }"

definition ramfs_probe :: "rkernel \<Rightarrow> VFSMountParams option \<Rightarrow> (bool \<times> rkernel) option" where
  "ramfs_probe k params =
     Some (case params of
             None \<Rightarrow> False
           | Some ps \<Rightarrow> \<not> (p_block_device ps \<noteq> NULL \<or> p_volume ps \<noteq> NULL), k)"

definition ramfs_open :: "rkernel \<Rightarrow> ptr \<Rightarrow> u32 \<Rightarrow> ((VFSResult \<times> ptr) \<times> rkernel) option" where
  "ramfs_open k node mode =
     (if node = NULL then Some ((VFS_RES_INVALID, NULL), k)
      else do {
        nd \<leftarrow> k_nodes k node;
        Some (if n_type nd = VFS_NODE_DIRECTORY \<and> mode AND VFS_OPEN_WRITE \<noteq> 0
              then ((VFS_RES_ACCESS, NULL), k) else ((VFS_RES_OK, NULL), k)) })"

definition ramfs_close :: "rkernel \<Rightarrow> ptr \<Rightarrow> ptr \<Rightarrow> (VFSResult \<times> rkernel) option" where
  "ramfs_close k node handle = Some (VFS_RES_OK, k)"

text \<open>\<open>memcpy\<close> from or to a buffer is an invalid access unless the range lies in the buffer.\<close>

definition ramfs_read :: "rkernel \<Rightarrow> ptr \<Rightarrow> ptr \<Rightarrow> nat \<Rightarrow> nat \<Rightarrow> ((int \<times> byte list) \<times> rkernel) option" where
  "ramfs_read k node handle offset sz =
     (if node = NULL then Some ((-1, []), k)
      else do {
        nd \<leftarrow> k_nodes k node;
        (if n_type nd \<noteq> VFS_NODE_REGULAR then Some ((-1, []), k)
         else if n_data nd = NULL then Some ((-1, []), k)
         else do {
           pl \<leftarrow> k_drv k (n_data nd);
           (if r_size pl \<le> offset then Some ((0, []), k)
            else (let remaining = r_size pl - offset;
                      to_copy = (if sz < remaining then sz else remaining)
                  in if length (r_data pl) < offset + to_copy then None
                     else Some ((int64 to_copy, take to_copy (drop offset (r_data pl))), k))) }) })"

definition ramfs_write :: "rkernel \<Rightarrow> ptr \<Rightarrow> ptr \<Rightarrow> nat \<Rightarrow> byte list \<Rightarrow> (int \<times> rkernel) option" where
  "ramfs_write k node handle offset buffer =
     (if node = NULL then Some (-1, k)
      else do {
        nd \<leftarrow> k_nodes k node;
        (if n_type nd \<noteq> VFS_NODE_REGULAR then Some (-1, k)
         else if n_data nd = NULL then Some (-1, k)
         else (let sz = length buffer; end_pos = add64 offset sz
               in do {
                 (grown, k) \<leftarrow> ramfs_grow_buffer k (n_data nd) end_pos;
                 (if \<not> grown then Some (-1, k)
                  else do {
                    pl \<leftarrow> k_drv k (n_data nd);
                    (if length (r_data pl) < offset + sz then None
                     else Some (int64 sz, set_payload k (n_data nd)
                       (pl\<lparr>r_data := take offset (r_data pl) @ buffer @ drop (offset + sz) (r_data pl),
                           r_size := (if r_size pl < end_pos then end_pos else r_size pl)\<rparr>))) }) })) })"

definition ramfs_truncate :: "rkernel \<Rightarrow> ptr \<Rightarrow> ptr \<Rightarrow> nat \<Rightarrow> (VFSResult \<times> rkernel) option" where
  "ramfs_truncate k node handle len =
     (if node = NULL then Some (VFS_RES_INVALID, k)
      else do {
        nd \<leftarrow> k_nodes k node;
        (if n_type nd \<noteq> VFS_NODE_REGULAR then Some (VFS_RES_UNSUPPORTED, k)
         else if n_data nd = NULL then Some (VFS_RES_ERROR, k)
         else do {
           (grown, k) \<leftarrow> ramfs_grow_buffer k (n_data nd) len;
           (if \<not> grown then Some (VFS_RES_NO_MEMORY, k)
            else do {
              pl \<leftarrow> k_drv k (n_data nd);
              (let zeroed = (if len < r_size pl
                     then take len (r_data pl) @ replicate (r_size pl - len) 0 @ drop (r_size pl) (r_data pl)
                     else r_data pl)
               in if len < r_size pl \<and> length (r_data pl) < r_size pl then None
                  else Some (VFS_RES_OK, set_payload k (n_data nd) (pl\<lparr>r_data := zeroed, r_size := len\<rparr>))) }) }) })"

definition ramfs_readdir ::
  "rkernel \<Rightarrow> ptr \<Rightarrow> ptr \<Rightarrow> nat \<Rightarrow> ((VFSResult \<times> VFSDirEntry option) \<times> rkernel) option" where
  "ramfs_readdir k node handle index =
     (if node = NULL then Some ((VFS_RES_INVALID, None), k)
      else do {
        nd \<leftarrow> k_nodes k node;
        (if n_type nd \<noteq> VFS_NODE_DIRECTORY then Some ((VFS_RES_INVALID, None), k)
         else if n_data nd = NULL then Some ((VFS_RES_ERROR, None), k)
         else do {
           pl \<leftarrow> k_drv k (n_data nd);
           (case r_children pl of
              None \<Rightarrow> Some ((VFS_RES_ERROR, None), k)
            | Some cs \<Rightarrow>
                (if length cs \<le> index then Some ((VFS_RES_NOT_FOUND, None), k)
                 else if cs ! index = NULL then Some ((VFS_RES_NOT_FOUND, None), k)
                 else do {
                   child \<leftarrow> k_nodes k (cs ! index);
                   (let nm = (case n_name child of None \<Rightarrow> [] | Some nm \<Rightarrow> take VFS_NAME_MAX nm)
                    in Some ((VFS_RES_OK, Some \<lparr>de_name = nm, de_type = n_type child\<rparr>), k)) })) }) })"

text \<open>The loop over the children of \<open>ramfs_lookup\<close> and \<open>ramfs_remove\<close>: the first child of that name
  and its index.\<close>

fun find_child :: "rkernel \<Rightarrow> nat \<Rightarrow> ptr list \<Rightarrow> string \<Rightarrow> (nat \<times> ptr) option option" where
  "find_child k i [] nm = Some None"
| "find_child k i (c # cs) nm =
     (if c = NULL then find_child k (i + 1) cs nm
      else do {
        child \<leftarrow> k_nodes k c;
        (if n_name child = Some nm then Some (Some (i, c)) else find_child k (i + 1) cs nm) })"

definition ramfs_lookup :: "rkernel \<Rightarrow> ptr \<Rightarrow> string \<Rightarrow> ((VFSResult \<times> ptr) \<times> rkernel) option" where
  "ramfs_lookup k node nm =
     (if node = NULL then Some ((VFS_RES_INVALID, NULL), k)
      else do {
        nd \<leftarrow> k_nodes k node;
        (if n_type nd \<noteq> VFS_NODE_DIRECTORY then Some ((VFS_RES_INVALID, NULL), k)
         else if n_data nd = NULL then Some ((VFS_RES_ERROR, NULL), k)
         else do {
           pl \<leftarrow> k_drv k (n_data nd);
           (case r_children pl of
              None \<Rightarrow> Some ((VFS_RES_ERROR, NULL), k)
            | Some cs \<Rightarrow> do {
                found \<leftarrow> find_child k 0 cs nm;
                Some (case found of
                        None \<Rightarrow> ((VFS_RES_NOT_FOUND, NULL), k)
                      | Some (_, child) \<Rightarrow> ((VFS_RES_OK, child), k)) }) }) })"

definition ramfs_create ::
  "rkernel \<Rightarrow> ptr \<Rightarrow> string \<Rightarrow> VFSNodeType \<Rightarrow> ((VFSResult \<times> ptr) \<times> rkernel) option" where
  "ramfs_create k node nm type =
     (if node = NULL then Some ((VFS_RES_INVALID, NULL), k)
      else do {
        nd \<leftarrow> k_nodes k node;
        (if n_type nd \<noteq> VFS_NODE_DIRECTORY then Some ((VFS_RES_INVALID, NULL), k)
         else if n_data nd = NULL then Some ((VFS_RES_ERROR, NULL), k)
         else do {
           pl \<leftarrow> k_drv k (n_data nd);
           (if r_children pl = None then Some ((VFS_RES_ERROR, NULL), k)
            else do {
              ((res, _), k) \<leftarrow> ramfs_lookup k node nm;
              (if res = VFS_RES_OK then Some ((VFS_RES_EXISTS, NULL), k)
               else do {
                 (child, k) \<leftarrow> ramfs_new_node k (Some nm) type;
                 (if child = NULL then Some ((VFS_RES_NO_MEMORY, NULL), k)
                  else do {
                    cnd \<leftarrow> k_nodes k child;
                    nd \<leftarrow> k_nodes k node;
                    (let k = set_node k child (cnd\<lparr>n_parent := node, n_mount := n_mount nd\<rparr>)
                     in do {
                       pl \<leftarrow> k_drv k (n_data nd);
                       cs \<leftarrow> r_children pl;
                       (let (cs, k) = list_add k child cs
                        in Some ((VFS_RES_OK, child), set_payload k (n_data nd) (pl\<lparr>r_children := Some cs\<rparr>))) }) }) }) }) }) })"

definition ramfs_remove :: "rkernel \<Rightarrow> ptr \<Rightarrow> string \<Rightarrow> (VFSResult \<times> rkernel) option" where
  "ramfs_remove k node nm =
     (if node = NULL then Some (VFS_RES_INVALID, k)
      else do {
        nd \<leftarrow> k_nodes k node;
        (if n_type nd \<noteq> VFS_NODE_DIRECTORY then Some (VFS_RES_INVALID, k)
         else if n_data nd = NULL then Some (VFS_RES_ERROR, k)
         else do {
           pl \<leftarrow> k_drv k (n_data nd);
           (case r_children pl of
              None \<Rightarrow> Some (VFS_RES_ERROR, k)
            | Some cs \<Rightarrow> do {
                found \<leftarrow> find_child k 0 cs nm;
                (case found of
                   None \<Rightarrow> Some (VFS_RES_NOT_FOUND, k)
                 | Some (index, child) \<Rightarrow> do {
                     k \<leftarrow> ramfs_free_node
                           (set_payload k (n_data nd) (pl\<lparr>r_children := Some (remove_nth index cs)\<rparr>)) child;
                     Some (VFS_RES_OK, k) }) }) }) })"

definition ramfs_stat :: "rkernel \<Rightarrow> ptr \<Rightarrow> ((VFSResult \<times> VFSNodeInfo option) \<times> rkernel) option" where
  "ramfs_stat k node =
     (if node = NULL then Some ((VFS_RES_INVALID, None), k)
      else do {
        nd \<leftarrow> k_nodes k node;
        sz \<leftarrow> (if n_data nd = NULL then Some 0 else map_option r_size (k_drv k (n_data nd)));
        Some ((VFS_RES_OK, Some \<lparr>i_type = n_type nd, i_flags = n_flags nd, i_size = sz, i_inode = node,
                 i_atime = 0, i_mtime = 0, i_ctime = 0\<rparr>), k) })"

definition s_ramfs_node_ops :: "rkernel VFSNodeOps" where
  "s_ramfs_node_ops =
     \<lparr>op_open = Some ramfs_open, op_close = Some ramfs_close, op_read = Some ramfs_read,
      op_write = Some ramfs_write, op_truncate = Some ramfs_truncate, op_readdir = Some ramfs_readdir,
      op_lookup = Some ramfs_lookup, op_create = Some ramfs_create, op_remove = Some ramfs_remove,
      op_stat = Some ramfs_stat\<rparr>"

definition s_ramfs_ops :: "rkernel VFSFileSystemOps" where
  "s_ramfs_ops =
     \<lparr>op_probe = Some ramfs_probe, op_mount = Some ramfs_mount, op_unmount = Some ramfs_unmount\<rparr>"

definition RamFS_Create :: "rkernel \<Rightarrow> string option \<Rightarrow> (rkernel VFSFileSystem option \<times> rkernel) option" where
  "RamFS_Create k label =
     (let (fs, k) = kmalloc k
      in if fs = NULL then Some (None, k)
      else do {
        k \<leftarrow> kstrdup k;
        Some (Some \<lparr>fs_name = Some (case label of None \<Rightarrow> ''ramfs'' | Some l \<Rightarrow> l), fs_flags = 0,
                   fs_ops = Some s_ramfs_ops, fs_context = fs\<rparr>, k) })"

declare ramfs_free.simps [code] grow_loop.simps [code]

section \<open>Payloads\<close>

text \<open>The invariant of a payload: the buffer has as many bytes as it says, and those behind the end
  of the file are zero. It holds of a new payload, and every operation keeps it.\<close>

definition file_ok :: "RamFSNode \<Rightarrow> bool" where
  "file_ok pl \<longleftrightarrow> length (r_data pl) = r_capacity pl \<and> r_size pl \<le> r_capacity pl \<and> r_capacity pl < 2 ^ 64 \<and>
     drop (r_size pl) (r_data pl) = replicate (r_capacity pl - r_size pl) 0"

definition contents :: "RamFSNode \<Rightarrow> byte list" where
  "contents pl = take (r_size pl) (r_data pl)"

lemma file_okD:
  assumes "file_ok pl"
  shows "r_data pl = contents pl @ replicate (r_capacity pl - r_size pl) 0"
    and "length (contents pl) = r_size pl" and "length (r_data pl) = r_capacity pl"
    and "r_size pl \<le> r_capacity pl" and "r_capacity pl < 2 ^ 64"
  using assms append_take_drop_id [of "r_size pl" "r_data pl"]
  by (simp_all add: file_ok_def contents_def min_def)

lemma file_okI:
  assumes "r_data pl = bs @ replicate (r_capacity pl - r_size pl) 0" and "r_size pl = length bs"
    and "length bs \<le> r_capacity pl" and "r_capacity pl < 2 ^ 64"
  shows "file_ok pl" and "contents pl = bs"
  using assms by (simp_all add: file_ok_def contents_def)

lemma grow_loop_bounds:
  assumes "0 < c" and "required < 2 ^ 64" and "c < 2 ^ 64"
  shows "\<exists>r. grow_loop required c = Some r \<and> required \<le> r \<and> c \<le> r \<and> r < 2 ^ 64"
  using assms
proof (induction "required - c" arbitrary: c rule: less_induct)
  case less
  show ?case
  proof (cases "c < required \<and> c \<le> (2 ^ 64 - 1) div 2")
    case True
    then have "\<exists>r. grow_loop required (c * 2) = Some r \<and> required \<le> r \<and> c * 2 \<le> r \<and> r < 2 ^ 64"
      using less.prems by (intro less.hyps) auto
    then show ?thesis using True by (subst grow_loop.simps) auto
  next
    case False
    then show ?thesis using less.prems by (subst grow_loop.simps) auto
  qed
qed

lemma ramfs_grow_buffer_cases:
  assumes "p \<noteq> NULL" and "k_drv k p = Some pl" and ok: "file_ok pl" and req: "required < 2 ^ 64"
  obtains (grown) k' pl' where "ramfs_grow_buffer k p required = Some (True, k')"
      "k_nodes k' = k_nodes k" "k_drv k' = (k_drv k)(p \<mapsto> pl')" "file_ok pl'" "contents pl' = contents pl"
      "r_size pl' = r_size pl" "r_children pl' = r_children pl" "required \<le> r_capacity pl'"
      "k_mallocs k = [] \<Longrightarrow> k_mallocs k' = []"
    | (failed) k' where "ramfs_grow_buffer k p required = Some (False, k')"
      "k_nodes k' = k_nodes k" "k_drv k' = k_drv k" "k_mallocs k \<noteq> []"
proof (cases "required \<le> r_capacity pl")
  case True
  with assms show thesis by (intro grown [of k pl]) (auto simp: ramfs_grow_buffer_def)
next
  case False
  let ?c = "if r_capacity pl \<noteq> 0 then r_capacity pl else 64"
  note fo = file_okD [OF ok]
  obtain r where r: "grow_loop required ?c = Some r" "required \<le> r" "?c \<le> r" "r < 2 ^ 64"
  proof -
    have "0 < ?c" "?c < 2 ^ 64" using fo(5) by auto
    then show thesis using grow_loop_bounds [of ?c required] req that by blast
  qed
  have rc: "r_capacity pl \<le> r" using r(3) by (simp split: if_splits)
  define pl' where "pl' = pl\<lparr>r_data := r_data pl @ replicate (r - r_capacity pl) 0, r_capacity := r\<rparr>"
  have "r_data pl' = contents pl @ replicate (r_capacity pl' - r_size pl') 0"
    using fo(1,4) rc by (simp add: pl'_def replicate_add [symmetric])
  then have pl': "file_ok pl'" "contents pl' = contents pl"
    using file_okI [of pl' "contents pl"] fo(2,4) r(4) rc by (simp_all add: pl'_def)
  show thesis
  proof (cases k rule: kmalloc_cases)
    case (fail k')
    then show thesis using assms(1,2) False r(1) by (intro failed [of k']) (auto simp: ramfs_grow_buffer_def)
  next
    case (ok k')
    then show thesis using assms(1,2) False r pl'
      by (intro grown [of "set_payload k' p pl'" pl']) (auto simp: ramfs_grow_buffer_def set_payload_def pl'_def)
  qed
qed

section \<open>Files\<close>

definition is_file :: "rkernel \<Rightarrow> ptr \<Rightarrow> ptr \<Rightarrow> byte list \<Rightarrow> bool" where
  "is_file k node payload bs \<longleftrightarrow> node \<noteq> NULL \<and> payload \<noteq> NULL \<and>
     (\<exists>nd pl. k_nodes k node = Some nd \<and> n_type nd = VFS_NODE_REGULAR \<and> n_data nd = payload \<and>
       k_drv k payload = Some pl \<and> file_ok pl \<and> contents pl = bs)"

lemma is_fileE:
  assumes "is_file k node payload bs"
  obtains nd pl where "node \<noteq> NULL" "payload \<noteq> NULL" "k_nodes k node = Some nd" "n_type nd = VFS_NODE_REGULAR"
    "n_data nd = payload" "k_drv k payload = Some pl" "file_ok pl" "contents pl = bs"
  using assms unfolding is_file_def by blast

lemma ramfs_read_file:
  assumes "is_file k node payload bs"
  shows "ramfs_read k node h off n = Some ((int64 (length (pread bs off n)), pread bs off n), k)"
  using assms
proof (rule is_fileE)
  fix nd pl
  assume a: "node \<noteq> NULL" "payload \<noteq> NULL" "k_nodes k node = Some nd" "n_type nd = VFS_NODE_REGULAR"
    "n_data nd = payload" "k_drv k payload = Some pl" "file_ok pl" "contents pl = bs"
  note fo = file_okD [OF a(7)]
  show ?thesis
  proof (cases "r_size pl \<le> off")
    case True
    then show ?thesis using a fo(2) by (simp add: ramfs_read_def pread_def int64_def)
  next
    case False
    define c where "c = (if n < r_size pl - off then n else r_size pl - off)"
    have "off + c \<le> r_capacity pl" using False fo(4) by (auto simp: c_def)
    moreover have "take c (drop off (r_data pl)) = pread bs off n"
      using False fo(1,2) a(8) by (auto simp: c_def pread_def)
    moreover have "length (pread bs off n) = c"
      using False fo(2) a(8) by (auto simp: c_def pread_def)
    ultimately show ?thesis using a False fo(3) by (simp add: ramfs_read_def Let_def flip: c_def)
  qed
qed

lemma file_ok_write:
  assumes ok: "file_ok pl" and "off + length xs \<le> r_capacity pl"
  defines "pl' \<equiv> pl\<lparr>r_data := take off (r_data pl) @ xs @ drop (off + length xs) (r_data pl),
    r_size := (if r_size pl < off + length xs then off + length xs else r_size pl)\<rparr>"
  shows "file_ok pl'" and "contents pl' = pwrite (contents pl) off xs"
proof -
  note fo = file_okD [OF ok]
  let ?z = "\<lambda>n. replicate n (0 :: byte)" and ?bs = "contents pl"
  have lead: "take off (r_data pl) = take off (padded ?bs off)"
    using assms(2) fo by (auto simp: padded_def take_append min_def)
  have tail: "drop (off + length xs) (r_data pl) =
      drop (off + length xs) ?bs @ ?z (r_capacity pl - max (r_size pl) (off + length xs))"
    using assms(2) fo by (subst fo(1)) (auto simp: max_def drop_replicate)
  have "r_data pl' = pwrite ?bs off xs @ ?z (r_capacity pl' - r_size pl')"
    unfolding pl'_def by (simp add: lead tail pwrite_def max_def)
  moreover have "r_size pl' = length (pwrite ?bs off xs)"
    using fo(2) by (simp add: pl'_def length_pwrite max_def)
  ultimately show "file_ok pl'" "contents pl' = pwrite ?bs off xs"
    using file_okI [of pl' "pwrite ?bs off xs"] fo assms(2) by (simp_all add: pl'_def length_pwrite)
qed

lemma file_ok_truncate:
  assumes ok: "file_ok pl" and "n \<le> r_capacity pl"
  defines "pl' \<equiv> pl\<lparr>r_data := (if n < r_size pl
      then take n (r_data pl) @ replicate (r_size pl - n) 0 @ drop (r_size pl) (r_data pl) else r_data pl),
    r_size := n\<rparr>"
  shows "file_ok pl'" and "contents pl' = ptruncate (contents pl) n"
proof -
  note fo = file_okD [OF ok]
  have "r_data pl' = ptruncate (contents pl) n @ replicate (r_capacity pl' - r_size pl') 0"
  proof (cases "n < r_size pl")
    case True
    then show ?thesis using fo assms(2)
      by (simp add: pl'_def ptruncate_def padded_def replicate_add [symmetric])
  next
    case False
    then show ?thesis using fo assms(2)
      by (simp add: pl'_def ptruncate_def padded_def replicate_add [symmetric])
  qed
  moreover have "r_size pl' = length (ptruncate (contents pl) n)"
    using fo(2) by (simp add: pl'_def ptruncate_def padded_def)
  ultimately show "file_ok pl'" "contents pl' = ptruncate (contents pl) n"
    using file_okI [of pl' "ptruncate (contents pl) n"] fo assms(2) by (simp_all add: pl'_def ptruncate_def)
qed

lemma ramfs_write_file:
  assumes "is_file k node p bs" and "off + length xs < 2 ^ 64"
  obtains (written) k' pl pl' where "ramfs_write k node h off xs = Some (int64 (length xs), k')"
      "k_nodes k' = k_nodes k" "k_drv k p = Some pl" "k_drv k' = (k_drv k)(p \<mapsto> pl')" "file_ok pl'"
      "contents pl' = pwrite bs off xs" "r_children pl' = r_children pl" "k_mallocs k = [] \<Longrightarrow> k_mallocs k' = []"
    | (failed) k' where "ramfs_write k node h off xs = Some (-1, k')" "k_nodes k' = k_nodes k"
      "k_drv k' = k_drv k" "k_mallocs k \<noteq> []"
  using assms(1)
proof (rule is_fileE)
  fix nd pl
  assume a: "node \<noteq> NULL" "p \<noteq> NULL" "k_nodes k node = Some nd" "n_type nd = VFS_NODE_REGULAR"
    "n_data nd = p" "k_drv k p = Some pl" "file_ok pl" "contents pl = bs"
  have e: "add64 off (length xs) = off + length xs" using assms(2) by (simp add: add64_def)
  from a(2,6,7) assms(2) show thesis
  proof (cases rule: ramfs_grow_buffer_cases)
    case (failed k')
    with a e show thesis by (intro that(2) [of k']) (simp_all add: ramfs_write_def Let_def)
  next
    case (grown k' pl')
    define q where "q = pl'\<lparr>r_data := take off (r_data pl') @ xs @ drop (off + length xs) (r_data pl'),
      r_size := (if r_size pl' < off + length xs then off + length xs else r_size pl')\<rparr>"
    have w: "file_ok q" "contents q = pwrite bs off xs"
      using file_ok_write [OF grown(4,8)] grown(5) a(8) by (simp_all add: q_def)
    have "length (r_data pl') \<ge> off + length xs" using file_okD(3) [OF grown(4)] grown(8) by simp
    then have "ramfs_write k node h off xs = Some (int64 (length xs), set_payload k' p q)"
      using grown a e by (simp add: ramfs_write_def Let_def q_def)
    then show thesis
      using grown a w by (intro that(1) [of "set_payload k' p q" pl q]) (simp_all add: set_payload_def q_def)
  qed
qed

lemma ramfs_truncate_file:
  assumes "is_file k node p bs" and "n < 2 ^ 64"
  obtains (truncated) k' pl pl' where "ramfs_truncate k node h n = Some (VFS_RES_OK, k')"
      "k_nodes k' = k_nodes k" "k_drv k p = Some pl" "k_drv k' = (k_drv k)(p \<mapsto> pl')" "file_ok pl'"
      "contents pl' = ptruncate bs n" "r_children pl' = r_children pl" "k_mallocs k = [] \<Longrightarrow> k_mallocs k' = []"
    | (failed) k' where "ramfs_truncate k node h n = Some (VFS_RES_NO_MEMORY, k')" "k_nodes k' = k_nodes k"
      "k_drv k' = k_drv k" "k_mallocs k \<noteq> []"
  using assms(1)
proof (rule is_fileE)
  fix nd pl
  assume a: "node \<noteq> NULL" "p \<noteq> NULL" "k_nodes k node = Some nd" "n_type nd = VFS_NODE_REGULAR"
    "n_data nd = p" "k_drv k p = Some pl" "file_ok pl" "contents pl = bs"
  from a(2,6,7) assms(2) show thesis
  proof (cases rule: ramfs_grow_buffer_cases)
    case (failed k')
    with a show thesis by (intro that(2) [of k']) (simp_all add: ramfs_truncate_def)
  next
    case (grown k' pl')
    define q where "q = pl'\<lparr>r_data := (if n < r_size pl'
        then take n (r_data pl') @ replicate (r_size pl' - n) 0 @ drop (r_size pl') (r_data pl') else r_data pl'),
      r_size := n\<rparr>"
    have w: "file_ok q" "contents q = ptruncate bs n"
      using file_ok_truncate [OF grown(4,8)] grown(5) a(8) by (simp_all add: q_def)
    have "\<not> (n < r_size pl' \<and> length (r_data pl') < r_size pl')" using file_okD [OF grown(4)] by simp
    then have "ramfs_truncate k node h n = Some (VFS_RES_OK, set_payload k' p q)"
      using grown a by (simp add: ramfs_truncate_def Let_def q_def)
    then show thesis
      using grown a w by (intro that(1) [of "set_payload k' p q" pl q]) (simp_all add: set_payload_def q_def)
  qed
qed

definition ram_files :: "rkernel \<Rightarrow> (ptr \<Rightarrow> byte list option) \<Rightarrow> bool" where
  "ram_files k F \<longleftrightarrow> k_mallocs k = [] \<and>
     (\<exists>pay. inj_on pay (dom F) \<and> (\<forall>f bs. F f = Some bs \<longrightarrow> is_file k f (pay f) bs))"

lemma is_file_update:
  assumes "is_file k f p bs" and "k_nodes k' = k_nodes k" and "k_drv k' = (k_drv k)(p \<mapsto> pl')"
    and "file_ok pl'" and "contents pl' = bs'"
  shows "is_file k' f p bs'"
  using assms(1) by (rule is_fileE) (use assms(2-5) in \<open>auto simp: is_file_def\<close>)

lemma is_file_other:
  assumes "is_file k g q cs" and "k_nodes k' = k_nodes k" and "k_drv k' = (k_drv k)(p := x)" and "q \<noteq> p"
  shows "is_file k' g q cs"
  using assms(1) by (rule is_fileE) (use assms(2-4) in \<open>auto simp: is_file_def\<close>)

lemma ram_files_update:
  assumes "ram_files k F" and "F f = Some bs" and "is_file k f p bs"
    and "k_nodes k' = k_nodes k" and "k_drv k' = (k_drv k)(p \<mapsto> pl')"
    and "file_ok pl'" and "contents pl' = bs'" and "k_mallocs k' = []"
  shows "ram_files k' (F(f \<mapsto> bs'))"
proof -
  from assms(1) obtain pay where inj: "inj_on pay (dom F)" and f: "\<And>f bs. F f = Some bs \<Longrightarrow> is_file k f (pay f) bs"
    by (auto simp: ram_files_def)
  have p: "pay f = p" using f [OF assms(2)] assms(3) by (auto simp: is_file_def)
  have "is_file k' g (pay g) cs" if "(F(f \<mapsto> bs')) g = Some cs" for g cs
  proof (cases "g = f")
    case True
    then show ?thesis using is_file_update [OF assms(3-7)] p that by simp
  next
    case False
    with that have "F g = Some cs" by simp
    moreover from this have "pay g \<noteq> p" using inj p False assms(2) by (auto simp: inj_on_def dom_def)
    ultimately show ?thesis using is_file_other [OF f assms(4,5)] by blast
  qed
  moreover have "dom (F(f \<mapsto> bs')) = dom F" using assms(2) by auto
  ultimately show ?thesis using inj assms(8) unfolding ram_files_def by auto
qed

interpretation rf: byte_files ram_files
  "\<lambda>k node. ramfs_read k node NULL" "\<lambda>k node. ramfs_write k node NULL" "\<lambda>k node. ramfs_truncate k node NULL"
proof
  fix k F f bs off n and xs :: "byte list"
  assume F: "ram_files k F" and f: "F f = Some bs"
  then obtain p where p: "is_file k f p bs" and m: "k_mallocs k = []" by (auto simp: ram_files_def)
  show "\<exists>k'. ramfs_read k f NULL off n = Some ((int64 (length (pread bs off n)), pread bs off n), k') \<and> ram_files k' F"
    using ramfs_read_file [OF p] F by simp
  show "\<exists>k'. ramfs_write k f NULL off xs = Some (int64 (length xs), k') \<and> ram_files k' (F(f \<mapsto> pwrite bs off xs))"
    if "off + length xs < 2 ^ 64"
    using p that by (rule ramfs_write_file [where h = NULL]) (use m ram_files_update [OF F f p] in auto)
  show "\<exists>k'. ramfs_truncate k f NULL n = Some (VFS_RES_OK, k') \<and> ram_files k' (F(f \<mapsto> ptruncate bs n))"
    if "n < 2 ^ 64"
    using p that by (rule ramfs_truncate_file [where h = NULL]) (use m ram_files_update [OF F f p] in auto)
qed

text \<open>A write whose end passes the 64-bit range: the check of the end position sees the small wrapped
  sum, and the copy goes outside the buffer.\<close>

lemma ramfs_write_wrapped:
  assumes "is_file k node p bs" and "off < 2 ^ 64" and "length xs < 2 ^ 64" and wrap: "2 ^ 64 \<le> off + length xs"
    and m: "k_mallocs k = []"
  shows "ramfs_write k node h off xs = None"
  using assms(1)
proof (rule is_fileE)
  fix nd pl
  assume a: "node \<noteq> NULL" "p \<noteq> NULL" "k_nodes k node = Some nd" "n_type nd = VFS_NODE_REGULAR"
    "n_data nd = p" "k_drv k p = Some pl" "file_ok pl" "contents pl = bs"
  have "add64 off (length xs) < 2 ^ 64" by (simp add: add64_def)
  with a(2,6,7) show ?thesis
  proof (cases rule: ramfs_grow_buffer_cases)
    case (failed k')
    then show ?thesis using m by simp
  next
    case (grown k' pl')
    have "length (r_data pl') < off + length xs" using file_okD(3,5) [OF grown(4)] wrap by simp
    with a grown show ?thesis by (simp add: ramfs_write_def Let_def)
  qed
qed

section \<open>Properties\<close>

text \<open>C26. Files of the in-memory file system are byte arrays: any program of reads, writes and
  truncations on any number of files, run through the driver without memory failures, returns
  what it returns on byte lists, where writing or truncating beyond the end fills with zeros, and no
  file changes another.\<close>

theorem ramfs_files_refine:
  assumes "ram_files k F" and "run_bytes cs F = Some (os, F')"
  shows "\<exists>k'. run_files (\<lambda>k node. ramfs_read k node NULL) (\<lambda>k node. ramfs_write k node NULL)
      (\<lambda>k node. ramfs_truncate k node NULL) cs k = Some (os, k') \<and> ram_files k' F'"
  using assms by (rule rf.run_refines)

definition demo_kernel :: rkernel where
  "demo_kernel = \<lparr>k_mallocs = [], k_last = 10,
     k_nodes = [5 \<mapsto> \<lparr>n_name = Some ''f'', n_type = VFS_NODE_REGULAR, n_flags = 0, n_parent = NULL,
                    n_mount = NULL, n_ops = RAMFS_NODE_OPS, n_data = 6\<rparr>],
     k_drv = [6 \<mapsto> \<lparr>r_children = None, r_data = [], r_size = 0, r_capacity = 0\<rparr>]\<rparr>"

lemma demo_file: "is_file demo_kernel 5 6 []"
  by (simp add: is_file_def demo_kernel_def file_ok_def contents_def)

theorem ramfs_files_refine_witness:
  "\<exists>k'. run_files (\<lambda>k node. ramfs_read k node NULL) (\<lambda>k node. ramfs_write k node NULL)
      (\<lambda>k node. ramfs_truncate k node NULL)
      [Write_cmd 5 2 [7, 8], Read_cmd 5 0 10, Truncate_cmd 5 3, Read_cmd 5 1 9] demo_kernel
    = Some ([[0, 0, 7, 8], [0, 7]], k')"
proof -
  have "ram_files demo_kernel [5 \<mapsto> []]"
    unfolding ram_files_def using demo_file
    by (intro conjI exI [of _ "\<lambda>_. 6"]) (auto simp: demo_kernel_def split: if_splits)
  moreover have "pwrite [] 2 [7, 8] = [0, 0, 7, 8]" "ptruncate [0, 0, 7, 8] 3 = [0, 0, 7]" by code_simp+
  then have "run_bytes [Write_cmd 5 2 [7, 8], Read_cmd 5 0 10, Truncate_cmd 5 3, Read_cmd 5 1 9] [5 \<mapsto> []]
      = Some ([[0, 0, 7, 8], [0, 7]], [5 \<mapsto> [0, 0, 7]])"
    by (simp add: pread_def)
  ultimately show ?thesis using ramfs_files_refine by blast
qed

text \<open>A write whose end passes the 64-bit range is not refused: the wrapped end position passes the
  check and the copy is an access outside the file's buffer.\<close>

theorem ramfs_write_wraps:
  assumes "is_file k node p bs" and "off < 2 ^ 64" and "length xs < 2 ^ 64" and "2 ^ 64 \<le> off + length xs"
    and "k_mallocs k = []"
  shows "ramfs_write k node h off xs = None"
  using assms by (rule ramfs_write_wrapped)

theorem ramfs_write_wraps_witness: "ramfs_write demo_kernel 5 NULL (2 ^ 64 - 1) [1] = None"
  by (rule ramfs_write_wraps [OF demo_file]) (simp_all add: demo_kernel_def)

end
