(* ===== verification/Ramfs_Tree.thy ===== *)
theory Ramfs_Tree
  imports Ramfs "HOL-Library.Multiset"
begin

text \<open>
  The nodes of the in-memory file system as directory trees: a tree records the addresses of each
  node and its payload, the name, the type, the contents of a file and the children of a directory.
  \<open>rtree_rep k par t\<close> says that the stores hold the tree below a node whose parent is \<open>par\<close>. Looking
  up, creating and removing children are related to trees, and freeing a node to freeing its
  whole tree.
\<close>

section \<open>Trees\<close>

datatype rtree = RTree (t_node: ptr) (t_pay: ptr) (t_name: string) (t_type: VFSNodeType)
  (t_cont: "byte list") (t_kids: "rtree list")

primrec nodes_of :: "rtree \<Rightarrow> ptr list" where
  "nodes_of (RTree n p nm ty bs ks) = n # concat (map nodes_of ks)"

primrec pays_of :: "rtree \<Rightarrow> ptr list" where
  "pays_of (RTree n p nm ty bs ks) = p # concat (map pays_of ks)"

text \<open>Only directories have children, and their names differ.\<close>

fun names_ok :: "rtree \<Rightarrow> bool" where
  "names_ok (RTree n p nm ty bs ks) \<longleftrightarrow>
     (ty \<noteq> VFS_NODE_DIRECTORY \<longrightarrow> ks = []) \<and> distinct (map t_name ks) \<and> (\<forall>t \<in> set ks. names_ok t)"

definition child :: "string \<Rightarrow> rtree \<Rightarrow> rtree option" where
  "child nm t = List.find (\<lambda>c. t_name c = nm) (t_kids t)"

fun tree_at :: "rtree \<Rightarrow> string list \<Rightarrow> rtree option" where
  "tree_at t [] = Some t"
| "tree_at t (s # ss) =
     (if t_type t = VFS_NODE_DIRECTORY then (case child s t of None \<Rightarrow> None | Some c \<Rightarrow> tree_at c ss) else None)"

text \<open>The tree with the subtree at a path replaced.\<close>

fun replace_at :: "rtree \<Rightarrow> string list \<Rightarrow> rtree \<Rightarrow> rtree" where
  "replace_at t [] u = u"
| "replace_at (RTree n p nm ty bs ks) (s # ss) u =
     RTree n p nm ty bs (map (\<lambda>c. if t_name c = s then replace_at c ss u else c) ks)"

section \<open>Representation\<close>

definition node_rep ::
  "rkernel \<Rightarrow> ptr \<Rightarrow> ptr \<Rightarrow> ptr \<Rightarrow> string \<Rightarrow> VFSNodeType \<Rightarrow> byte list \<Rightarrow> ptr list \<Rightarrow> bool" where
  "node_rep k par n p nm ty bs cs \<longleftrightarrow> n \<noteq> NULL \<and> p \<noteq> NULL \<and>
     (\<exists>nd pl. k_nodes k n = Some nd \<and> n_name nd = Some nm \<and> n_type nd = ty \<and> n_parent nd = par \<and>
       n_ops nd = RAMFS_NODE_OPS \<and> n_data nd = p \<and> k_drv k p = Some pl \<and> file_ok pl \<and> contents pl = bs \<and>
       r_children pl = (if ty = VFS_NODE_DIRECTORY then Some cs else None))"

fun rtree_rep :: "rkernel \<Rightarrow> ptr \<Rightarrow> rtree \<Rightarrow> bool" where
  "rtree_rep k par (RTree n p nm ty bs ks) \<longleftrightarrow>
     node_rep k par n p nm ty bs (map t_node ks) \<and> (\<forall>t \<in> set ks. rtree_rep k n t)"

lemma rtree_rep_cong:
  assumes "\<forall>n \<in> set (nodes_of t). k_nodes k' n = k_nodes k n" and "\<forall>p \<in> set (pays_of t). k_drv k' p = k_drv k p"
  shows "rtree_rep k' par t \<longleftrightarrow> rtree_rep k par t"
  using assms by (induction t arbitrary: par) (fastforce simp: node_rep_def)

lemma rtree_rep_root: "rtree_rep k par t \<Longrightarrow> t_node t \<noteq> NULL \<and> (\<exists>nd. k_nodes k (t_node t) = Some nd \<and> n_type nd = t_type t)"
  by (cases t) (auto simp: node_rep_def)

lemma t_node_in [simp]: "t_node t \<in> set (nodes_of t)" by (cases t) simp

lemma t_pay_in [simp]: "t_pay t \<in> set (pays_of t)" by (cases t) simp

section \<open>Lookup\<close>

lemma find_child_rep:
  assumes "\<forall>t \<in> set ks. rtree_rep k n t"
  shows "find_child k i (map t_node ks) nm =
    Some (case first_index (\<lambda>t. t_name t = nm) ks of
            None \<Rightarrow> None | Some j \<Rightarrow> Some (i + j, t_node (ks ! j)))"
  using assms
proof (induction ks arbitrary: i)
  case (Cons t ks)
  obtain nd where t: "t_node t \<noteq> NULL" "k_nodes k (t_node t) = Some nd" "n_name nd = Some (t_name t)"
    using Cons.prems by (cases t) (auto simp: node_rep_def)
  show ?case
    using Cons t find_index_from_shift [of "\<lambda>t. t_name t = nm" "Suc 0" ks]
    by (auto split: option.splits)
qed simp

lemma find_first_index: "List.find P xs = map_option (nth xs) (first_index P xs)"
proof (induction xs)
  case (Cons x xs)
  then show ?case using find_index_from_shift [of P "Suc 0" xs] by (cases "first_index P xs") auto
qed simp

lemma ramfs_lookup_rep:
  assumes "rtree_rep k par t"
  shows "ramfs_lookup k (t_node t) nm =
    Some (if t_type t \<noteq> VFS_NODE_DIRECTORY then (VFS_RES_INVALID, NULL)
          else case child nm t of None \<Rightarrow> (VFS_RES_NOT_FOUND, NULL) | Some c \<Rightarrow> (VFS_RES_OK, t_node c), k)"
proof (cases t)
  case (RTree n p nm' ty bs ks)
  with assms obtain nd pl where r: "n \<noteq> NULL" "p \<noteq> NULL" "k_nodes k n = Some nd" "n_type nd = ty" "n_data nd = p"
      "k_drv k p = Some pl" "r_children pl = (if ty = VFS_NODE_DIRECTORY then Some (map t_node ks) else None)"
      "\<forall>t \<in> set ks. rtree_rep k n t"
    by (auto simp: node_rep_def)
  show ?thesis
    using r find_child_rep [OF r(8), of 0 nm]
    by (auto simp: ramfs_lookup_def RTree child_def find_first_index split: option.splits)
qed

lemma child_rep:
  assumes "rtree_rep k par t" and "child nm t = Some c"
  shows "rtree_rep k (t_node t) c" and "t_name c = nm" and "c \<in> set (t_kids t)"
  using assms by (cases t, auto simp: child_def find_Some_iff)+

section \<open>Freeing\<close>

definition erase :: "rkernel \<Rightarrow> ptr set \<Rightarrow> ptr set \<Rightarrow> rkernel" where
  "erase k N P = k\<lparr>k_nodes := (\<lambda>n. if n \<in> N then None else k_nodes k n),
     k_drv := (\<lambda>p. if p \<in> P then None else k_drv k p)\<rparr>"

lemma erase_simps [simp]:
  "k_nodes (erase k N P) n = (if n \<in> N then None else k_nodes k n)"
  "k_drv (erase k N P) p = (if p \<in> P then None else k_drv k p)"
  "k_last (erase k N P) = k_last k" "k_mallocs (erase k N P) = k_mallocs k"
  by (simp_all add: erase_def)

lemma ramfs_free_tree:
  assumes "rtree_rep k par t" and "distinct (nodes_of t)" and "distinct (pays_of t)" and "names_ok t"
  shows "ramfs_free (Free_node (t_node t)) k = Some (erase k (set (nodes_of t)) (set (pays_of t)))"
  using assms
proof (induction t arbitrary: k par)
  case (RTree n p nm ty bs ks)
  have kids: "ramfs_free (Free_children p) k' =
      Some (erase (set_payload k' p (pl\<lparr>r_children := Some []\<rparr>)) (set (concat (map nodes_of ts))) (set (concat (map pays_of ts))))"
    if "k_drv k' p = Some pl" "r_children pl = Some (map t_node ts)" "\<forall>t \<in> set ts. rtree_rep k' n t"
      "set ts \<subseteq> set ks" "distinct (concat (map nodes_of ts))" "distinct (concat (map pays_of ts))"
      "p \<notin> set (concat (map pays_of ts))"
    for k' pl ts
    using that
  proof (induction ts arbitrary: k' pl)
    case Nil
    then show ?case
      by (subst ramfs_free.simps) (simp add: erase_def set_payload_def fun_eq_iff)
  next
    case (Cons t ts)
    let ?pl = "pl\<lparr>r_children := Some (map t_node ts)\<rparr>"
    let ?k = "set_payload k' p ?pl"
    let ?e = "erase ?k (set (nodes_of t)) (set (pays_of t))"
    have rep: "rtree_rep ?k n s" if "s \<in> set (t # ts)" for s
      using Cons.prems(3,7) that by (subst rtree_rep_cong [of _ _ k']) (auto simp: set_payload_def)
    have t: "t \<in> set ks" "distinct (nodes_of t)" "distinct (pays_of t)" "names_ok t"
      using Cons.prems(4,5,6) RTree.prems(4) by auto
    have f1: "ramfs_free (Free_node (t_node t)) ?k = Some ?e"
      using RTree.IH [OF t(1) rep [of t] t(2-4)] by simp
    have p: "k_drv ?e p = Some ?pl" using Cons.prems(7) by (simp add: set_payload_def)
    have rep': "\<forall>s \<in> set ts. rtree_rep ?e n s"
    proof
      fix s assume s: "s \<in> set ts"
      have "rtree_rep ?k n s" using rep s by simp
      moreover have "set (nodes_of s) \<inter> set (nodes_of t) = {}" "set (pays_of s) \<inter> set (pays_of t) = {}"
        using Cons.prems(5,6) s by auto
      ultimately show "rtree_rep ?e n s" by (subst rtree_rep_cong [of _ _ ?k]) auto
    qed
    have f2: "ramfs_free (Free_children p) ?e =
        Some (erase (set_payload ?e p (?pl\<lparr>r_children := Some []\<rparr>))
          (set (concat (map nodes_of ts))) (set (concat (map pays_of ts))))"
      using Cons.prems by (intro Cons.IH p rep') auto
    have "erase (set_payload ?e p (?pl\<lparr>r_children := Some []\<rparr>))
          (set (concat (map nodes_of ts))) (set (concat (map pays_of ts))) =
        erase (set_payload k' p (pl\<lparr>r_children := Some []\<rparr>))
          (set (concat (map nodes_of (t # ts)))) (set (concat (map pays_of (t # ts))))"
      using Cons.prems(7) by (auto simp: erase_def set_payload_def fun_eq_iff)
    then show ?case
      using Cons.prems(1,2) f1 f2 by (subst ramfs_free.simps) simp
  qed
  obtain nd pl where r: "n \<noteq> NULL" "p \<noteq> NULL" "k_nodes k n = Some nd" "n_type nd = ty" "n_data nd = p"
      "k_drv k p = Some pl" "r_children pl = (if ty = VFS_NODE_DIRECTORY then Some (map t_node ks) else None)"
      "\<forall>t \<in> set ks. rtree_rep k n t"
    using RTree.prems(1) by (auto simp: node_rep_def)
  show ?case
  proof (cases "ty = VFS_NODE_DIRECTORY")
    case True
    define e where "e = erase (set_payload k p (pl\<lparr>r_children := Some []\<rparr>))
      (set (concat (map nodes_of ks))) (set (concat (map pays_of ks)))"
    have "ramfs_free (Free_children p) k = Some e"
      unfolding e_def using r RTree.prems True by (intro kids) auto
    moreover have "k_drv e p = Some (pl\<lparr>r_children := Some []\<rparr>)"
      using RTree.prems(3) by (simp add: e_def set_payload_def)
    moreover have "kfree_node (e\<lparr>k_drv := (k_drv e)(p := None)\<rparr>) n =
        erase k (set (nodes_of (RTree n p nm ty bs ks))) (set (pays_of (RTree n p nm ty bs ks)))"
      by (auto simp: e_def kfree_node_def erase_def set_payload_def fun_eq_iff)
    ultimately show ?thesis using r True by (subst ramfs_free.simps) simp
  next
    case False
    then have "ks = []" using RTree.prems(4) by simp
    moreover have "kfree_node (k\<lparr>k_drv := (k_drv k)(p := None)\<rparr>) n = erase k {n} {p}"
      by (auto simp: kfree_node_def erase_def fun_eq_iff)
    ultimately show ?thesis using r False by (subst ramfs_free.simps) simp
  qed
qed

section \<open>Subtrees\<close>

lemma child_split:
  assumes "child s t = Some c" and "distinct (map t_name (t_kids t))"
  obtains as bs where "t_kids t = as @ c # bs" "t_name c = s" "\<forall>x \<in> set as \<union> set bs. t_name x \<noteq> s"
proof -
  from assms(1) have c: "c \<in> set (t_kids t)" "t_name c = s" by (auto simp: child_def find_Some_iff)
  then obtain as bs where ks: "t_kids t = as @ c # bs" by (meson split_list)
  have "\<forall>x \<in> set as \<union> set bs. t_name x \<noteq> s" using assms(2) c(2) by (auto simp: ks image_iff)
  with ks c(2) show thesis by (rule that)
qed

lemma replace_at_Cons:
  assumes "\<forall>x \<in> set as \<union> set bs. t_name x \<noteq> s" and "t_name c = s"
  shows "replace_at (RTree n p nm ty xs (as @ c # bs)) (s # ss) u =
    RTree n p nm ty xs (as @ replace_at c ss u # bs)"
proof -
  have "map (\<lambda>c. if t_name c = s then replace_at c ss u else c) ys = ys" if "\<forall>x \<in> set ys. t_name x \<noteq> s" for ys
    using that by (simp add: map_idI)
  then show ?thesis using assms by simp
qed

declare replace_at.simps(2) [simp del]

text \<open>Induction along a path that exists.\<close>

lemma tree_at_induct [consumes 2, case_names here below]:
  assumes "tree_at t ss = Some u" and "names_ok t"
    and here: "\<And>t. names_ok t \<Longrightarrow> P t [] t"
    and below: "\<And>n p nm bs as c cs s ss u. names_ok (RTree n p nm VFS_NODE_DIRECTORY bs (as @ c # cs)) \<Longrightarrow>
      t_name c = s \<Longrightarrow> \<forall>x \<in> set as \<union> set cs. t_name x \<noteq> s \<Longrightarrow>
      child s (RTree n p nm VFS_NODE_DIRECTORY bs (as @ c # cs)) = Some c \<Longrightarrow>
      tree_at c ss = Some u \<Longrightarrow> P c ss u \<Longrightarrow> P (RTree n p nm VFS_NODE_DIRECTORY bs (as @ c # cs)) (s # ss) u"
  shows "P t ss u"
  using assms(1,2)
proof (induction ss arbitrary: t)
  case Nil
  then show ?case using here by simp
next
  case (Cons s ss)
  obtain n p nm ty bs ks where t: "t = RTree n p nm ty bs ks" by (cases t)
  from Cons.prems(1) obtain c where c: "ty = VFS_NODE_DIRECTORY" "child s t = Some c" "tree_at c ss = Some u"
    by (auto simp: t split: if_splits option.splits)
  from child_split [OF c(2)] Cons.prems(2) obtain as cs where
    ks: "ks = as @ c # cs" "t_name c = s" "\<forall>x \<in> set as \<union> set cs. t_name x \<noteq> s"
    by (auto simp: t)
  have "names_ok c" using Cons.prems(2) by (simp add: t ks(1))
  then show ?case using below [of n p nm bs as c cs s ss u] Cons c ks by (simp add: t)
qed

lemma tree_at_rep:
  assumes "tree_at t ss = Some u" and "names_ok t" and "rtree_rep k par t"
  shows "names_ok u \<and> (\<exists>par'. rtree_rep k par' u) \<and> set (nodes_of u) \<subseteq> set (nodes_of t) \<and> set (pays_of u) \<subseteq> set (pays_of t) \<and>
    (distinct (nodes_of t) \<longrightarrow> distinct (nodes_of u)) \<and> (distinct (pays_of t) \<longrightarrow> distinct (pays_of u))"
  using assms
proof (induction arbitrary: par rule: tree_at_induct)
  case (here t)
  then show ?case by blast
next
  case (below n p nm bs as c cs s ss u)
  then have "rtree_rep k n c" by simp
  from below.IH [OF this] show ?case by auto
qed

lemma replace_at_root:
  assumes "tree_at t ss = Some u" and "names_ok t" and "t_node u' = t_node u" and "t_name u' = t_name u"
  shows "t_node (replace_at t ss u') = t_node t" and "t_name (replace_at t ss u') = t_name t"
  using assms by (induction rule: tree_at_induct) (simp_all add: replace_at_Cons)

lemma replace_at_mset:
  assumes "tree_at t ss = Some u" and "names_ok t"
  shows "mset (nodes_of (replace_at t ss u')) + mset (nodes_of u) = mset (nodes_of t) + mset (nodes_of u')"
    and "mset (pays_of (replace_at t ss u')) + mset (pays_of u) = mset (pays_of t) + mset (pays_of u')"
  using assms
proof (induction rule: tree_at_induct)
  case (below n p nm bs as c cs s ss u)
  have swap: "R + U = C + U' \<Longrightarrow> A + (R + D) + U = A + (C + D) + U'" for A R D U C U' :: "ptr multiset"
    by (metis add.assoc add.commute)
  case 1
  show ?case using swap [OF below.IH(1)] below.hyps(2,3) by (simp add: replace_at_Cons)
  case 2
  show ?case using swap [OF below.IH(2)] below.hyps(2,3) by (simp add: replace_at_Cons)
qed simp_all

lemma replace_at_names:
  assumes "tree_at t ss = Some u" and "names_ok t" and "names_ok u'" and "t_node u' = t_node u" and "t_name u' = t_name u"
  shows "names_ok (replace_at t ss u')"
  using assms
proof (induction rule: tree_at_induct)
  case (below n p nm bs as c cs s ss u)
  have "t_name (replace_at c ss u') = t_name c"
    using replace_at_root(2) [OF below.hyps(5)] below.hyps(1) below.prems by simp
  with below show ?case by (simp add: replace_at_Cons)
qed simp

lemma replace_at_rep:
  assumes "tree_at t ss = Some u" and "names_ok t" and "rtree_rep k par t"
    and "distinct (nodes_of t)" and "distinct (pays_of t)"
    and "\<forall>n \<in> set (nodes_of t) - set (nodes_of u). k_nodes k' n = k_nodes k n"
    and "\<forall>p \<in> set (pays_of t) - set (pays_of u). k_drv k' p = k_drv k p"
    and "\<forall>par'. rtree_rep k par' u \<longrightarrow> rtree_rep k' par' u'" and "t_node u' = t_node u" and "t_name u' = t_name u"
  shows "rtree_rep k' par (replace_at t ss u')"
  using assms
proof (induction arbitrary: par rule: tree_at_induct)
  case (below n p nm bs as c cs s ss u)
  let ?t = "RTree n p nm VFS_NODE_DIRECTORY bs (as @ c # cs)" and ?c = "replace_at c ss u'"
  have nc: "names_ok c" and rc: "rtree_rep k n c" using below.hyps(1) below.prems(1) by auto
  have sub: "set (nodes_of u) \<subseteq> set (nodes_of c)" "set (pays_of u) \<subseteq> set (pays_of c)"
    using tree_at_rep [OF below.hyps(5) nc rc] by auto
  have same: "x \<in> set (nodes_of ?t) \<Longrightarrow> x \<notin> set (nodes_of c) \<Longrightarrow> k_nodes k' x = k_nodes k x"
      "x \<in> set (pays_of ?t) \<Longrightarrow> x \<notin> set (pays_of c) \<Longrightarrow> k_drv k' x = k_drv k x" for x
    using sub below.prems(4,5) by blast+
  have node: "node_rep k par n p nm VFS_NODE_DIRECTORY bs (map t_node (as @ c # cs))"
    using below.prems(1) by simp
  have "n \<notin> set (nodes_of c)" "p \<notin> set (pays_of c)" using below.prems(2,3) by auto
  then have "k_nodes k' n = k_nodes k n" "k_drv k' p = k_drv k p" using same(1) [of n] same(2) [of p] by simp_all
  moreover have "t_node ?c = t_node c"
    using replace_at_root(1) [OF below.hyps(5) nc] below.prems(7,8) by simp
  ultimately have "node_rep k' par n p nm VFS_NODE_DIRECTORY bs (map t_node (as @ ?c # cs))"
    using node by (simp add: node_rep_def)
  moreover have "rtree_rep k' n ?c"
    using below.IH [OF rc] below.prems sub by auto
  moreover have "rtree_rep k' n x" if "x \<in> set as \<union> set cs" for x
  proof -
    have "rtree_rep k n x" using that below.prems(1) by auto
    moreover have "set (nodes_of x) \<inter> set (nodes_of c) = {}" "set (pays_of x) \<inter> set (pays_of c) = {}"
      using that below.prems(2,3) by auto
    moreover have "set (nodes_of x) \<subseteq> set (nodes_of ?t)" "set (pays_of x) \<subseteq> set (pays_of ?t)"
      using that by auto
    ultimately have "\<forall>m \<in> set (nodes_of x). k_nodes k' m = k_nodes k m" "\<forall>q \<in> set (pays_of x). k_drv k' q = k_drv k q"
      using same by blast+
    with \<open>rtree_rep k n x\<close> show ?thesis using rtree_rep_cong by blast
  qed
  ultimately show ?case using below.hyps(2,3) by (simp add: replace_at_Cons)
qed simp

section \<open>Creation\<close>

fun add_kid :: "rtree \<Rightarrow> rtree \<Rightarrow> rtree" where
  "add_kid new (RTree n p nm ty bs ks) = RTree n p nm ty bs (ks @ [new])"

lemma add_kid_facts [simp]:
  "t_node (add_kid new t) = t_node t" "t_name (add_kid new t) = t_name t" "t_type (add_kid new t) = t_type t"
  "t_kids (add_kid new t) = t_kids t @ [new]"
  "mset (nodes_of (add_kid new t)) = mset (nodes_of t) + mset (nodes_of new)"
  "mset (pays_of (add_kid new t)) = mset (pays_of t) + mset (pays_of new)"
  by (cases t, simp)+

lemma ramfs_new_node_ok:
  assumes "k_mallocs k = []"
  obtains k' where "ramfs_new_node k (Some nm) ty = Some (k_last k + 1, k')"
    "k_nodes k' = (k_nodes k)(k_last k + 1 \<mapsto> \<lparr>n_name = Some nm, n_type = ty, n_flags = 0, n_parent = NULL,
       n_mount = NULL, n_ops = RAMFS_NODE_OPS, n_data = k_last k + 2\<rparr>)"
    "k_drv k' = (k_drv k)(k_last k + 2 \<mapsto> \<lparr>r_children = (if ty = VFS_NODE_DIRECTORY then Some [] else None),
       r_data = [], r_size = 0, r_capacity = 0\<rparr>)"
    "k_mallocs k' = []" "k_last k + 2 \<le> k_last k'"
proof -
  let ?k = "k\<lparr>k_last := k_last k + (if ty = VFS_NODE_DIRECTORY then 4 else 3),
    k_nodes := (k_nodes k)(k_last k + 1 \<mapsto> \<lparr>n_name = Some nm, n_type = ty, n_flags = 0, n_parent = NULL,
       n_mount = NULL, n_ops = RAMFS_NODE_OPS, n_data = k_last k + 2\<rparr>),
    k_drv := (k_drv k)(k_last k + 2 \<mapsto> \<lparr>r_children = (if ty = VFS_NODE_DIRECTORY then Some [] else None),
       r_data = [], r_size = 0, r_capacity = 0\<rparr>)\<rparr>"
  have "ramfs_new_node k (Some nm) ty = Some (k_last k + 1, ?k)"
    using assms
    by (cases "ty = VFS_NODE_DIRECTORY")
      (simp_all add: ramfs_new_node_def kmalloc_no_failure kstrdup_def set_payload_def set_node_def)
  then show thesis by (rule that) (use assms in simp_all)
qed

lemma file_ok_empty: "file_ok \<lparr>r_children = cs, r_data = [], r_size = 0, r_capacity = 0\<rparr>"
  "contents \<lparr>r_children = cs, r_data = [], r_size = 0, r_capacity = 0\<rparr> = []"
  by (simp_all add: file_ok_def contents_def)

lemma ramfs_create_rep:
  fixes ty :: VFSNodeType
  assumes "t_type t = VFS_NODE_DIRECTORY" and "child nm t = None" and m: "k_mallocs k = []"
    and rep: "rtree_rep k par0 t" and below: "\<forall>x \<in> set (nodes_of t) \<union> set (pays_of t). x \<le> k_last k"
    and dist: "distinct (pays_of t)"
  defines "new \<equiv> RTree (k_last k + 1) (k_last k + 2) nm ty [] []"
  obtains k' where "ramfs_create k (t_node t) nm ty = Some ((VFS_RES_OK, k_last k + 1), k')"
    "\<And>par. rtree_rep k par t \<Longrightarrow> rtree_rep k' par (add_kid new t)"
    "\<And>n. n \<le> k_last k \<Longrightarrow> k_nodes k' n = k_nodes k n"
    "\<And>p. p \<le> k_last k \<Longrightarrow> p \<noteq> t_pay t \<Longrightarrow> k_drv k' p = k_drv k p"
    "k_mallocs k' = []" "k_last k + 2 \<le> k_last k'"
proof (cases t)
  case (RTree n p nm' ty' bs ks)
  have ty': "ty' = VFS_NODE_DIRECTORY" using assms(1) RTree by simp
  obtain nd pl where r: "n \<noteq> NULL" "p \<noteq> NULL" "k_nodes k n = Some nd" "n_type nd = VFS_NODE_DIRECTORY" "n_data nd = p"
      "k_drv k p = Some pl" "r_children pl = Some (map t_node ks)" "file_ok pl"
    using rep by (auto simp: RTree node_rep_def ty')
  let ?a = "k_last k + 1" and ?q = "k_last k + 2"
  have le: "n \<le> k_last k" "p \<le> k_last k" using below by (auto simp: RTree)
  obtain k1 where k1: "ramfs_new_node k (Some nm) ty = Some (?a, k1)"
    "k_nodes k1 = (k_nodes k)(?a \<mapsto> \<lparr>n_name = Some nm, n_type = ty, n_flags = 0, n_parent = NULL,
       n_mount = NULL, n_ops = RAMFS_NODE_OPS, n_data = ?q\<rparr>)"
    "k_drv k1 = (k_drv k)(?q \<mapsto> \<lparr>r_children = (if ty = VFS_NODE_DIRECTORY then Some [] else None),
       r_data = [], r_size = 0, r_capacity = 0\<rparr>)"
    "k_mallocs k1 = []" "?q \<le> k_last k1"
    using m by (rule ramfs_new_node_ok)
  define cnd where "cnd = \<lparr>n_name = Some nm, n_type = ty, n_flags = 0, n_parent = n,
       n_mount = n_mount nd, n_ops = RAMFS_NODE_OPS, n_data = ?q\<rparr>"
  define k2 where "k2 = set_node k1 ?a cnd"
  define k' where "k' = set_payload (k2\<lparr>k_last := k_last k2 + 1\<rparr>) p (pl\<lparr>r_children := Some (map t_node ks @ [?a])\<rparr>)"
  have lk: "ramfs_lookup k n nm = Some ((VFS_RES_NOT_FOUND, NULL), k)"
    using ramfs_lookup_rep [OF rep, of nm] assms(1,2) by (simp add: RTree)
  have "kmalloc k2 = (k_last k2 + 1, k2\<lparr>k_last := k_last k2 + 1\<rparr>)"
    by (rule kmalloc_no_failure) (simp add: k2_def set_node_def k1)
  moreover have "k_drv k2 p = Some pl" using le r by (simp add: k2_def set_node_def k1)
  ultimately have eq: "ramfs_create k (t_node t) nm ty = Some ((VFS_RES_OK, ?a), k')"
    using r lk k1 le
    by (simp add: RTree ramfs_create_def list_add_def k'_def Let_def flip: cnd_def k2_def)
      (simp add: k2_def cnd_def set_node_def list_add_def kmalloc_no_failure)
  have kn: "k_nodes k' = (k_nodes k)(?a \<mapsto> cnd)"
    by (simp add: k'_def k2_def set_payload_def set_node_def k1)
  have kd: "k_drv k' = (k_drv k1)(p \<mapsto> pl\<lparr>r_children := Some (map t_node ks @ [?a])\<rparr>)"
    by (simp add: k'_def k2_def set_payload_def set_node_def)
  show thesis
  proof (rule that [OF eq])
    fix par assume rp: "rtree_rep k par t"
    have new: "rtree_rep k' n new"
      using le by (simp add: new_def node_rep_def kn kd k1 cnd_def file_ok_empty)
    have node: "node_rep k' par n p nm' VFS_NODE_DIRECTORY bs (map t_node (ks @ [new]))"
      using rp le r by (auto simp: RTree node_rep_def kn kd ty' new_def file_ok_def contents_def)
    have "rtree_rep k' n x" if "x \<in> set ks" for x
    proof -
      have "rtree_rep k n x" using rp that by (simp add: RTree)
      moreover have "\<forall>m \<in> set (nodes_of x). m \<le> k_last k" "\<forall>q \<in> set (pays_of x). q \<le> k_last k \<and> q \<noteq> p"
        using below dist that by (auto simp: RTree)
      then have "\<forall>m \<in> set (nodes_of x). k_nodes k' m = k_nodes k m" "\<forall>q \<in> set (pays_of x). k_drv k' q = k_drv k q"
        by (auto simp: kn kd k1)
      ultimately show ?thesis using rtree_rep_cong by blast
    qed
    with new node show "rtree_rep k' par (add_kid new t)" by (simp add: RTree ty')
  qed (use k1 le in \<open>auto simp: kn kd RTree k'_def k2_def set_payload_def set_node_def\<close>)
qed

lemma ramfs_create_refused:
  assumes "rtree_rep k par t"
  shows "t_type t \<noteq> VFS_NODE_DIRECTORY \<Longrightarrow> ramfs_create k (t_node t) nm ty = Some ((VFS_RES_INVALID, NULL), k)"
    and "t_type t = VFS_NODE_DIRECTORY \<Longrightarrow> child nm t = Some c \<Longrightarrow>
      ramfs_create k (t_node t) nm ty = Some ((VFS_RES_EXISTS, NULL), k)"
  using assms ramfs_lookup_rep [OF assms, of nm]
  by (cases t, auto simp: ramfs_create_def node_rep_def)+

section \<open>Removal\<close>

fun drop_kid :: "string \<Rightarrow> rtree \<Rightarrow> rtree" where
  "drop_kid s (RTree n p nm ty bs ks) = RTree n p nm ty bs (filter (\<lambda>c. t_name c \<noteq> s) ks)"

lemma drop_kid_facts [simp]:
  "t_node (drop_kid s t) = t_node t" "t_name (drop_kid s t) = t_name t" "t_type (drop_kid s t) = t_type t"
  "t_kids (drop_kid s t) = filter (\<lambda>c. t_name c \<noteq> s) (t_kids t)"
  by (cases t, simp)+

lemma drop_kid_names: "names_ok t \<Longrightarrow> names_ok (drop_kid s t)"
  by (cases t) (auto simp: distinct_map_filter)

lemma drop_kid_mset:
  assumes "names_ok t" and "child s t = Some c"
  shows "mset (nodes_of (drop_kid s t)) + mset (nodes_of c) = mset (nodes_of t)"
    and "mset (pays_of (drop_kid s t)) + mset (pays_of c) = mset (pays_of t)"
proof -
  have "distinct (map t_name (t_kids t))" using assms(1) by (cases t) simp
  from child_split [OF assms(2) this] obtain as bs where
    ks: "t_kids t = as @ c # bs" "t_name c = s" "\<forall>x \<in> set as \<union> set bs. t_name x \<noteq> s" by blast
  have f: "filter (\<lambda>c. t_name c \<noteq> s) as = as" "filter (\<lambda>c. t_name c \<noteq> s) bs = bs"
    using ks(3) by (simp_all add: filter_id_conv)
  show "mset (nodes_of (drop_kid s t)) + mset (nodes_of c) = mset (nodes_of t)"
    using ks f by (cases t) simp
  show "mset (pays_of (drop_kid s t)) + mset (pays_of c) = mset (pays_of t)"
    using ks f by (cases t) simp
qed

lemma ramfs_remove_rep:
  assumes ty: "t_type t = VFS_NODE_DIRECTORY" and c: "child nm t = Some c" and rep: "rtree_rep k par0 t"
    and dist: "distinct (nodes_of t)" "distinct (pays_of t)" and names: "names_ok t"
  obtains k' where "ramfs_remove k (t_node t) nm = Some (VFS_RES_OK, k')"
    "\<And>par. rtree_rep k par t \<Longrightarrow> rtree_rep k' par (drop_kid nm t)"
    "\<And>n. n \<notin> set (nodes_of c) \<Longrightarrow> k_nodes k' n = k_nodes k n"
    "\<And>n. n \<in> set (nodes_of c) \<Longrightarrow> k_nodes k' n = None"
    "\<And>p. p \<notin> set (pays_of c) \<Longrightarrow> p \<noteq> t_pay t \<Longrightarrow> k_drv k' p = k_drv k p"
    "k_mallocs k' = k_mallocs k" "k_last k' = k_last k"
proof (cases t)
  case (RTree n p nm' ty' bs ks)
  have ty': "ty' = VFS_NODE_DIRECTORY" using ty RTree by simp
  obtain nd pl where r: "n \<noteq> NULL" "p \<noteq> NULL" "k_nodes k n = Some nd" "n_type nd = VFS_NODE_DIRECTORY" "n_data nd = p"
      "k_drv k p = Some pl" "r_children pl = Some (map t_node ks)" "file_ok pl" "\<forall>x \<in> set ks. rtree_rep k n x"
    using rep by (auto simp: RTree node_rep_def ty')
  from c obtain j where j: "first_index (\<lambda>t. t_name t = nm) ks = Some j" "ks ! j = c"
    by (auto simp: child_def find_first_index RTree)
  have jl: "j < length ks" "t_name c = nm" using first_index_SomeD [OF j(1)] j(2) by auto
  have "distinct (map t_name (t_kids t))" using names by (simp add: RTree)
  from child_split [OF c this] obtain as cs where
    "t_kids t = as @ c # cs" and ks2: "\<forall>x \<in> set as \<union> set cs. t_name x \<noteq> nm" by metis
  then have ks: "ks = as @ c # cs" "\<forall>x \<in> set as \<union> set cs. t_name x \<noteq> nm" by (simp_all add: RTree)
  have f: "filter (\<lambda>c. t_name c \<noteq> nm) ks = as @ cs"
    using ks jl(2) by (simp add: filter_id_conv)
  have "j = length as"
  proof (rule ccontr)
    assume ne: "j \<noteq> length as"
    have "c \<in> set as \<union> set cs"
    proof (cases "j < length as")
      case True
      then have "as ! j = c" using j(2) by (simp add: ks(1) nth_append)
      then show ?thesis using True by auto
    next
      case False
      then have "cs ! (j - length as - 1) = c" "j - length as - 1 < length cs"
        using j(2) jl(1) ne by (simp_all add: ks(1) nth_append nth_Cons')
      then show ?thesis by auto
    qed
    then show False using ks(2) jl(2) by blast
  qed
  then have rm: "remove_nth j (map t_node ks) = map t_node (as @ cs)"
    using remove_nth_append_Cons [of "map t_node as" "t_node c" "map t_node cs"] by (simp add: ks(1))
  define k1 where "k1 = set_payload k p (pl\<lparr>r_children := Some (map t_node (as @ cs))\<rparr>)"
  define k' where "k' = erase k1 (set (nodes_of c)) (set (pays_of c))"
  have pc: "p \<notin> set (pays_of x)" if "x \<in> set ks" for x using dist(2) that by (auto simp: RTree)
  have rep1: "rtree_rep k1 n x" if "x \<in> set ks" for x
    using r(9) that pc [OF that] by (subst rtree_rep_cong [of _ _ k]) (auto simp: k1_def set_payload_def)
  have cin: "c \<in> set ks" by (simp add: ks(1))
  have "ramfs_free_node k1 (t_node c) = Some k'"
    unfolding ramfs_free_node_def k'_def
  proof (rule ramfs_free_tree [OF rep1 [OF cin]])
    show "distinct (nodes_of c)" "distinct (pays_of c)" "names_ok c"
      using dist names by (simp_all add: RTree ks(1))
  qed
  then have eq: "ramfs_remove k (t_node t) nm = Some (VFS_RES_OK, k')"
    using r find_child_rep [OF r(9), of 0 nm] j rm
    by (simp add: RTree ramfs_remove_def k1_def)
  show thesis
  proof (rule that [OF eq])
    fix par assume rp: "rtree_rep k par t"
    have "n \<notin> set (nodes_of c)" using dist(1) cin by (auto simp: RTree)
    then have "node_rep k' par n p nm' VFS_NODE_DIRECTORY bs (map t_node (as @ cs))"
      using rp r pc [OF cin]
      by (auto simp: RTree node_rep_def ty' k'_def k1_def set_payload_def file_ok_def contents_def)
    moreover have "rtree_rep k' n x" if "x \<in> set as \<union> set cs" for x
    proof -
      have "rtree_rep k1 n x" using rep1 that by (auto simp: ks(1))
      moreover have "set (nodes_of x) \<inter> set (nodes_of c) = {}" "set (pays_of x) \<inter> set (pays_of c) = {}"
        using dist that by (auto simp: RTree ks(1))
      then have "\<forall>m \<in> set (nodes_of x). k_nodes k' m = k_nodes k1 m" "\<forall>q \<in> set (pays_of x). k_drv k' q = k_drv k1 q"
        by (auto simp: k'_def)
      ultimately show ?thesis using rtree_rep_cong by blast
    qed
    ultimately show "rtree_rep k' par (drop_kid nm t)" using f by (simp add: RTree ty')
  qed (auto simp: k'_def k1_def set_payload_def RTree)
qed

lemma ramfs_remove_absent:
  assumes "rtree_rep k par t"
  shows "t_type t \<noteq> VFS_NODE_DIRECTORY \<Longrightarrow> ramfs_remove k (t_node t) nm = Some (VFS_RES_INVALID, k)"
    and "t_type t = VFS_NODE_DIRECTORY \<Longrightarrow> child nm t = None \<Longrightarrow>
      ramfs_remove k (t_node t) nm = Some (VFS_RES_NOT_FOUND, k)"
proof -
  obtain n p nm' ty bs ks where t: "t = RTree n p nm' ty bs ks" by (cases t)
  have kids: "\<forall>x \<in> set ks. rtree_rep k n x" using assms by (simp add: t)
  show "t_type t \<noteq> VFS_NODE_DIRECTORY \<Longrightarrow> ramfs_remove k (t_node t) nm = Some (VFS_RES_INVALID, k)"
    using assms by (auto simp: t ramfs_remove_def node_rep_def)
  show "ramfs_remove k (t_node t) nm = Some (VFS_RES_NOT_FOUND, k)"
    if "t_type t = VFS_NODE_DIRECTORY" "child nm t = None"
    using assms that find_child_rep [OF kids, of 0 nm]
    by (auto simp: t ramfs_remove_def node_rep_def child_def find_first_index)
qed

end
