(* ===== verification/Vfs_Rep.thy ===== *)
theory Vfs_Rep
  imports File_Stream Ramfs_Tree
begin

text \<open>
  The virtual file system over in-memory file systems, against its specification: a map from
  mount points to directory trees, in which a path denotes the subtree that its longest mounted
  prefix leads to. \<open>vfs_rep v M\<close> relates the kernel's state to such a map, with the lookup cache
  coherent: every entry names the node the path denotes. \<open>VFS_Resolve\<close> is shown to compute what a
  path denotes, whatever the cache holds.
\<close>

section \<open>Specification\<close>

type_synonym forest = "string list \<Rightarrow> rtree option"

definition mount_point :: "forest \<Rightarrow> string list \<Rightarrow> string list" where
  "mount_point M ps = last (filter (\<lambda>ms. M ms \<noteq> None) (prefixes ps))"

definition denotes :: "forest \<Rightarrow> string list \<Rightarrow> rtree option" where
  "denotes M ps =
     (case M (mount_point M ps) of
        None \<Rightarrow> None
      | Some t \<Rightarrow> tree_at t (drop (length (mount_point M ps)) ps))"

lemma last_prefixes:
  assumes "\<exists>x \<in> set (prefixes ps). P x"
  shows "P (last (filter P (prefixes ps)))" and "prefix (last (filter P (prefixes ps))) ps"
    and "\<And>x. prefix x ps \<Longrightarrow> P x \<Longrightarrow> prefix x (last (filter P (prefixes ps)))"
proof -
  have "P (last (filter P (prefixes ps))) \<and> prefix (last (filter P (prefixes ps))) ps \<and>
      (\<forall>x. prefix x ps \<longrightarrow> P x \<longrightarrow> prefix x (last (filter P (prefixes ps))))"
    using assms
  proof (induction ps rule: rev_induct)
    case Nil
    then show ?case by auto
  next
    case (snoc p ps)
    show ?case
    proof (cases "P (ps @ [p])")
      case True
      then show ?thesis by (simp add: prefixes_snoc)
    next
      case False
      then have "\<exists>x \<in> set (prefixes ps). P x" using snoc.prems by (auto simp: prefixes_snoc)
      from snoc.IH [OF this] False show ?thesis by (auto simp: prefixes_snoc prefix_snoc)
    qed
  qed
  then show "P (last (filter P (prefixes ps)))" "prefix (last (filter P (prefixes ps))) ps"
    "\<And>x. prefix x ps \<Longrightarrow> P x \<Longrightarrow> prefix x (last (filter P (prefixes ps)))" by auto
qed

lemma mount_point_facts:
  assumes "M [] \<noteq> None"
  shows "M (mount_point M ps) \<noteq> None" and "prefix (mount_point M ps) ps"
    and "\<And>x. prefix x ps \<Longrightarrow> M x \<noteq> None \<Longrightarrow> prefix x (mount_point M ps)"
proof -
  have ex: "\<exists>x \<in> set (prefixes ps). M x \<noteq> None" using assms by (intro bexI [of _ "[]"]) auto
  show "M (mount_point M ps) \<noteq> None" "prefix (mount_point M ps) ps"
    "\<And>x. prefix x ps \<Longrightarrow> M x \<noteq> None \<Longrightarrow> prefix x (mount_point M ps)"
    unfolding mount_point_def using last_prefixes [OF ex] by auto
qed

lemma mount_point_unique:
  assumes "M [] \<noteq> None" and "prefix x ps" and "M x \<noteq> None" and "\<And>y. prefix y ps \<Longrightarrow> M y \<noteq> None \<Longrightarrow> prefix y x"
  shows "mount_point M ps = x"
  using mount_point_facts [where M = M and ps = ps, OF assms(1)] assms(2-4) by (meson prefix_order.antisym)

section \<open>Representation\<close>

definition ram_tbl :: "ramfs_heap ops_table" where
  "ram_tbl = (\<lambda>_. s_ramfs_node_ops)"

lemma node_op_ram [simp]:
  "n_ops nd = RAMFS_NODE_OPS \<Longrightarrow> node_op ram_tbl f nd = f s_ramfs_node_ops"
  by (simp add: node_op_def ram_tbl_def RAMFS_NODE_OPS_def)

definition tree_good :: "rkernel \<Rightarrow> rtree \<Rightarrow> bool" where
  "tree_good k t \<longleftrightarrow> rtree_rep k NULL t \<and> names_ok t \<and> distinct (nodes_of t) \<and> distinct (pays_of t) \<and>
     (\<forall>x \<in> set (nodes_of t) \<union> set (pays_of t). x \<le> k_last k)"

definition apart :: "rtree \<Rightarrow> rtree \<Rightarrow> bool" where
  "apart t u \<longleftrightarrow> set (nodes_of t) \<inter> set (nodes_of u) = {} \<and> set (pays_of t) \<inter> set (pays_of u) = {}"

definition forest_rep :: "rkernel \<Rightarrow> forest \<Rightarrow> bool" where
  "forest_rep k M \<longleftrightarrow> k_mallocs k = [] \<and> (\<forall>ms t. M ms = Some t \<longrightarrow> tree_good k t) \<and>
     (\<forall>ms t ms' t'. M ms = Some t \<longrightarrow> M ms' = Some t' \<longrightarrow> ms \<noteq> ms' \<longrightarrow> apart t t')"

definition mounts_tab :: "ramfs_heap kernel VFSMount list \<Rightarrow> forest \<Rightarrow> bool" where
  "mounts_tab ms M \<longleftrightarrow> distinct (map m_path ms) \<and>
     (\<forall>m \<in> set ms. \<exists>ss t. list_all plain_segment ss \<and> m_path m = path_of ss \<and> M ss = Some t \<and>
        m_root m = t_node t \<and> fs_op op_unmount (m_fs m) = Some ramfs_unmount) \<and>
     (\<forall>ss. M ss \<noteq> None \<longrightarrow> list_all plain_segment ss \<and> (\<exists>m \<in> set ms. m_path m = path_of ss))"

abbreviation mounts_rep :: "ramfs_heap kernel VFSMount list \<Rightarrow> forest \<Rightarrow> bool" where
  "mounts_rep ms M \<equiv> mounts_tab ms M \<and> M [] \<noteq> None"

definition cache_rep :: "cache \<Rightarrow> forest \<Rightarrow> bool" where
  "cache_rep c M \<longleftrightarrow> cache_ok c \<and>
     (\<forall>es. s_cache_entries c = Some es \<longrightarrow>
        (\<forall>e \<in> set es. \<exists>ps u. list_all plain_segment ps \<and> e_path e = path_of ps \<and> denotes M ps = Some u \<and> e_node e = t_node u))"

definition vfs_rep :: "ramfs_heap vfs \<Rightarrow> forest \<Rightarrow> bool" where
  "vfs_rep v M \<longleftrightarrow> s_vfs_initialized v \<and> s_root_mount v \<noteq> None \<and>
     (\<exists>ms. s_mounts v = Some ms \<and> mounts_rep ms M) \<and> forest_rep (v_kernel v) M \<and> cache_rep (v_cache v) M"

lemma path_of_inject: "list_all plain_segment a \<Longrightarrow> list_all plain_segment b \<Longrightarrow> path_of a = path_of b \<Longrightarrow> a = b"
  by (metis plain_proper_list segs_path_of)

lemma forest_rep_tree:
  assumes "forest_rep k M" and "M ms = Some t"
  shows "tree_good k t"
  using assms by (simp add: forest_rep_def)

lemma tree_goodD:
  assumes "tree_good k t"
  shows "rtree_rep k NULL t" and "names_ok t" and "distinct (nodes_of t)" and "distinct (pays_of t)"
    and "\<forall>x \<in> set (nodes_of t) \<union> set (pays_of t). x \<le> k_last k"
  using assms by (simp_all add: tree_good_def)

lemma tree_good_frame:
  assumes "tree_good k t" and "\<forall>n \<in> set (nodes_of t). k_nodes k' n = k_nodes k n"
    and "\<forall>p \<in> set (pays_of t). k_drv k' p = k_drv k p" and "k_last k \<le> k_last k'"
  shows "tree_good k' t"
proof -
  have "rtree_rep k' NULL t" using rtree_rep_cong [OF assms(2,3)] assms(1) by (simp add: tree_good_def)
  moreover have "\<forall>x \<in> set (nodes_of t) \<union> set (pays_of t). x \<le> k_last k'"
    using tree_goodD(5) [OF assms(1)] assms(4) le_trans by blast
  ultimately show ?thesis using assms(1) by (simp add: tree_good_def)
qed

lemma forest_rep_alloc:
  assumes "forest_rep k M" and "k_nodes k' = k_nodes k" and "k_drv k' = k_drv k" and "k_mallocs k' = []"
    and "k_last k \<le> k_last k'"
  shows "forest_rep k' M"
proof -
  have "tree_good k' t" if "M ms = Some t" for ms t
    using forest_rep_tree [OF assms(1) that] by (rule tree_good_frame) (simp_all add: assms)
  then show ?thesis using assms(1,4) by (simp add: forest_rep_def)
qed

section \<open>Resolution\<close>

lemma length_path_prefix:
  assumes "list_all plain_segment b" and "prefix a b" and "length (path_of b) \<le> length (path_of a)"
  shows "a = b"
proof (rule ccontr)
  assume ne: "a \<noteq> b"
  then obtain s rs where b: "b = a @ s # rs" using assms(2) by (metis append_Nil2 neq_Nil_conv prefix_def)
  have s: "s \<noteq> []" using assms(1) by (simp add: b plain_segment_def)
  have "length (path_of a) < length (path_of b)"
    using s by (cases "a = []") (auto simp: b path_of_def)
  with assms(3) show False by simp
qed

lemma select_mount_rep:
  assumes "mounts_rep ms M" and ps: "list_all plain_segment ps"
  obtains m t where "vfs_select_mount (Some ms) (path_of ps) = Some m" "m_path m = path_of (mount_point M ps)"
    "M (mount_point M ps) = Some t" "m_root m = t_node t" "list_all plain_segment (mount_point M ps)"
proof -
  let ?mp = "mount_point M ps"
  from assms(1) have root: "M [] \<noteq> None" by (simp add: mounts_tab_def)
  note mp = mount_point_facts [where M = M and ps = ps, OF root]
  have norm: "\<exists>ss. list_all plain_segment ss \<and> m_path m = path_of ss" if "m \<in> set ms" for m
    using assms(1) that by (auto simp: mounts_tab_def)
  from assms(1) mp(1) obtain m0 where m0: "m0 \<in> set ms" "m_path m0 = path_of ?mp" and pmp: "list_all plain_segment ?mp"
    by (auto simp: mounts_tab_def)
  have match: "mount_matches (path_of ps) (m_path m) \<longleftrightarrow> prefix (segs (m_path m)) ps" if "m \<in> set ms" for m
    using norm [OF that] ps mount_matches_prefix plain_proper_list by fastforce
  have seg0: "segs (m_path m0) = ?mp" using m0(2) plain_proper_list [OF pmp] by simp
  have long: "case select_loop (path_of ps) ms None 0 of
      None \<Rightarrow> \<forall>m \<in> set ms. \<not> mount_matches (path_of ps) (m_path m)
    | Some r \<Rightarrow> (r \<in> set ms \<and> mount_matches (path_of ps) (m_path r)) \<and>
        (\<forall>m \<in> set ms. mount_matches (path_of ps) (m_path m) \<longrightarrow> length (m_path m) \<le> length (m_path r))"
    using select_loop_longest [where best = None and best_len = 0 and path = "path_of ps" and ms = ms]
    by (auto split: option.splits)
  have "mount_matches (path_of ps) (m_path m0)" using match [OF m0(1)] seg0 mp(2) by simp
  with long m0(1) obtain r where r: "select_loop (path_of ps) ms None 0 = Some r" "r \<in> set ms"
      "mount_matches (path_of ps) (m_path r)" "length (m_path m0) \<le> length (m_path r)"
    by (auto split: option.splits)
  from assms(1) r(2) obtain ss t where ss: "list_all plain_segment ss" "m_path r = path_of ss" "M ss = Some t" "m_root r = t_node t"
    by (auto simp: mounts_tab_def)
  have "prefix ss ps" using match [OF r(2)] r(3) ss(2) plain_proper_list [OF ss(1)] by simp
  then have "prefix ss ?mp" using mp(3) ss(3) by blast
  then have "ss = ?mp" using length_path_prefix [OF pmp] r(4) m0(2) ss(2) by simp
  then show thesis using that r(1) ss pmp by (simp add: vfs_select_mount_def)
qed

lemma walk_loop_rep:
  assumes "rtree_rep k par t" and "list_all plain_segment (segs p)"
  shows "walk_loop ram_tbl k (t_node t) p =
    Some (case tree_at t (segs p) of None \<Rightarrow> (VFS_RES_NOT_FOUND, NULL) | Some u \<Rightarrow> (VFS_RES_OK, t_node u), k)"
  using assms
proof (induction "length p" arbitrary: p t par rule: less_induct)
  case less
  show ?case
  proof (cases "skip_slashes p = []")
    case True
    then have "segs p = []" by (metis segs_Nil segs_skip)
    then show ?thesis using True by (simp add: walk_loop.simps)
  next
    case False
    let ?q = "skip_slashes p"
    let ?s = "first_segment ?q" and ?r = "after_segment ?q"
    have "hd ?q \<noteq> CHR ''/''" using False by (metis (full_types) hd_dropWhile)
    then have s: "?s \<noteq> []" using False by (cases ?q) auto
    have segs: "segs p = ?s # segs ?r"
      using segs.simps [of ?q] False s by simp
    then have plain: "plain_segment ?s" "list_all plain_segment (segs ?r)" using less.prems(2) by auto
    obtain nd where nd: "k_nodes k (t_node t) = Some nd" "n_ops nd = RAMFS_NODE_OPS"
      using less.prems(1) by (cases t) (auto simp: node_rep_def)
    note lk = ramfs_lookup_rep [OF less.prems(1), of ?s]
    have IH: "walk_loop ram_tbl k (t_node c) ?r =
        Some (case tree_at c (segs ?r) of None \<Rightarrow> (VFS_RES_NOT_FOUND, NULL) | Some u \<Rightarrow> (VFS_RES_OK, t_node u), k)"
      if "child ?s t = Some c" for c
      using less.hyps [OF length_rest [OF False] child_rep(1) [OF less.prems(1) that] plain(2)] .
    have ne: "t_node c \<noteq> NULL" if "child ?s t = Some c" for c
      using rtree_rep_root [OF child_rep(1) [OF less.prems(1) that]] by simp
    have "walk_loop ram_tbl k (t_node t) p =
        (if t_type t \<noteq> VFS_NODE_DIRECTORY then Some ((VFS_RES_NOT_FOUND, NULL), k)
         else case child ?s t of None \<Rightarrow> Some ((VFS_RES_NOT_FOUND, NULL), k)
           | Some c \<Rightarrow> walk_loop ram_tbl k (t_node c) ?r)"
      using False plain(1) nd lk ne
      by (subst walk_loop.simps) (auto simp: Let_def plain_segment_def s_ramfs_node_ops_def split: option.splits)
    then show ?thesis using IH by (simp add: segs split: option.splits)
  qed
qed

text \<open>Operations that only allocate.\<close>

definition allocates :: "'d kernel \<Rightarrow> 'd kernel \<Rightarrow> bool" where
  "allocates k k' \<longleftrightarrow> k_nodes k' = k_nodes k \<and> k_drv k' = k_drv k \<and> (k_mallocs k = [] \<longrightarrow> k_mallocs k' = []) \<and>
     k_last k \<le> k_last k'"

lemma allocates_refl [simp]: "allocates k k" by (simp add: allocates_def)

lemma allocates_trans: "allocates k k' \<Longrightarrow> allocates k' k'' \<Longrightarrow> allocates k k''"
  by (auto simp: allocates_def)

lemma allocates_forest: "forest_rep k M \<Longrightarrow> allocates k k' \<Longrightarrow> forest_rep k' M"
  using forest_rep_alloc [of k M k'] by (simp add: allocates_def forest_rep_def)

lemma allocates_malloc: "kmalloc k = (p, k') \<Longrightarrow> allocates k k'"
  by (cases k rule: kmalloc_cases) (auto simp: allocates_def)

lemma cache_rep_entries:
  "cache_rep c M \<longleftrightarrow> (\<forall>es. s_cache_entries c = Some es \<longrightarrow> entries_ok (s_cache_capacity c) es \<and>
     (\<forall>e \<in> set es. \<exists>ps u. list_all plain_segment ps \<and> e_path e = path_of ps \<and> denotes M ps = Some u \<and> e_node e = t_node u))"
  by (auto simp: cache_rep_def cache_ok_def)

lemma cache_rep_lookup:
  assumes "cache_rep c M" and "list_all plain_segment ps"
  obtains node c' k' where "vfs_cache_lookup k (path_of ps) c = (node, c', k')"
    "node \<noteq> NULL \<Longrightarrow> \<exists>u. denotes M ps = Some u \<and> node = t_node u" "cache_rep c' M" "allocates k k'"
proof (cases "vfs_cache_enabled c")
  case False
  then show thesis using assms that [of NULL c k] by (simp add: vfs_cache_lookup_def)
next
  case True
  then obtain es where es: "s_cache_entries c = Some es" by (auto simp: vfs_cache_enabled_def)
  with assms(1) have ok: "entries_ok (s_cache_capacity c) es" and
    ent: "\<And>e. e \<in> set es \<Longrightarrow> \<exists>qs u. list_all plain_segment qs \<and> e_path e = path_of qs \<and> denotes M qs = Some u \<and> e_node e = t_node u"
    by (auto simp: cache_rep_entries)
  have dist: "distinct (map e_path es)" using ok by (simp add: entries_ok_def)
  from True es dist show thesis
  proof (cases rule: vfs_cache_lookup_cases [where k = k and path = "path_of ps"])
    case miss
    have "cache_rep (c\<lparr>s_cache_misses := add64 (s_cache_misses c) 1\<rparr>) M"
      using assms(1) by (simp add: cache_rep_entries)
    with miss that show thesis by auto
  next
    case (hit e k' es')
    obtain qs u where qs: "list_all plain_segment qs" "e_path e = path_of qs" "denotes M qs = Some u" "e_node e = t_node u"
      using ent [OF hit(1)] by blast
    have "qs = ps" using path_of_inject [OF qs(1) assms(2)] qs(2) hit(2) by simp
    have w: "entries_ok (s_cache_capacity c) (without (path_of ps) es)"
      using ok unfolding without_def by (rule entries_ok_filter)
    have len: "length (without (path_of ps) es) < length es"
      using hit(1,2) unfolding without_def by (intro length_filter_less) auto
    have ok': "entries_ok (s_cache_capacity c) es'"
      using hit(4)
    proof
      assume es': "es' = e # without (path_of ps) es"
      show ?thesis
        using w len ok hit(1,2) unfolding es' by (auto simp: entries_ok_def without_def)
    qed (use w in auto)
    have "set es' \<subseteq> set es" using hit(1,4) by (auto simp: without_def)
    then have "cache_rep (c\<lparr>s_cache_entries := Some es', s_cache_hits := add64 (s_cache_hits c) 1\<rparr>) M"
      using ok' ent by (auto simp: cache_rep_entries)
    then show thesis
      using that [OF hit(3)] qs \<open>qs = ps\<close> hit(5-8) by (auto simp: allocates_def)
  qed
qed

lemma vfs_cache_insert_no_failure:
  assumes "k_mallocs k = []"
  shows "\<exists>c' k'. vfs_cache_insert k path node c = Some (c', k')"
  using assms
  by (auto simp: vfs_cache_insert_def Let_def kmalloc_no_failure kstrdup_def list_push_def)

lemma cache_rep_insert:
  assumes "cache_rep c M" and "list_all plain_segment ps" and "denotes M ps = Some u" and m: "k_mallocs k = []"
  obtains c' k' where "vfs_cache_insert k (path_of ps) (t_node u) c = Some (c', k')" "cache_rep c' M" "allocates k k'"
proof -
  obtain c' k' where ins: "vfs_cache_insert k (path_of ps) (t_node u) c = Some (c', k')"
    using vfs_cache_insert_no_failure [OF m] by blast
  show thesis
  proof (cases "t_node u \<noteq> NULL \<and> vfs_cache_enabled c")
    case False
    then have "vfs_cache_insert k (path_of ps) (t_node u) c = Some (c, k)"
      by (cases "t_node u = NULL") (simp_all add: vfs_cache_insert_def)
    then show thesis using that ins assms(1) by simp
  next
    case True
    then obtain es where es: "s_cache_entries c = Some es" by (auto simp: vfs_cache_enabled_def)
    with assms(1) have ok: "entries_ok (s_cache_capacity c) es" and
      ent: "\<And>e. e \<in> set es \<Longrightarrow> \<exists>qs u. list_all plain_segment qs \<and> e_path e = path_of qs \<and> denotes M qs = Some u \<and> e_node e = t_node u"
      by (auto simp: cache_rep_entries)
    let ?new = "\<lparr>e_path = path_of ps, e_node = t_node u\<rparr>"
    let ?kept = "take (s_cache_capacity c - 1) (without (path_of ps) es)"
    from vfs_cache_insert_cases [OF _ es ok _ ins] True m have c': "c' = c\<lparr>s_cache_entries := Some (?new # ?kept)\<rparr>"
      and al: "allocates k k'" by (auto simp: allocates_def)
    have kept: "entries_ok (s_cache_capacity c - 1) ?kept" "path_of ps \<notin> e_path ` set ?kept" "set ?kept \<subseteq> set es"
      using entries_ok_take [OF entries_ok_filter [OF ok]] by (auto simp: without_def dest: in_set_takeD)
    have "0 < s_cache_capacity c" using True by (simp add: vfs_cache_enabled_def)
    then have "entries_ok (s_cache_capacity c) (?new # ?kept)" using kept True by (auto simp: entries_ok_def)
    moreover have "\<forall>e \<in> set (?new # ?kept). \<exists>qs u. list_all plain_segment qs \<and> e_path e = path_of qs \<and>
        denotes M qs = Some u \<and> e_node e = t_node u"
      using ent kept(3) assms(2,3) by (auto simp del: set_take_subset)
    ultimately have "cache_rep c' M" by (simp add: cache_rep_entries c')
    then show thesis using that ins al by blast
  qed
qed

lemma segs_slash: "segs (CHR ''/'' # p) = segs p"
  using segs_skip [of "CHR ''/'' # p"] segs_skip [of p] by simp

lemma relative_path:
  assumes "list_all plain_segment (mp @ rs)"
  defines "path \<equiv> path_of (mp @ rs)"
  defines "rel \<equiv> relative_part (path_of mp) path"
  shows "segs rel = rs" and "rel = [] \<longleftrightarrow> rs = []"
proof -
  have mp: "list_all plain_segment mp" and rs: "list_all plain_segment rs" using assms(1) by auto
  have root: "path_of mp = ''/'' \<longleftrightarrow> mp = []" using length_path_of [OF mp] by auto
  have seg_rs: "segs (tl (slashed rs)) = rs" "tl (slashed rs) = [] \<longleftrightarrow> rs = []"
  proof -
    show "segs (tl (slashed rs)) = rs"
      using segs_slashed_append [OF plain_proper_list [OF rs], of "[]"] segs_slash
      by (cases rs) auto
    show "tl (slashed rs) = [] \<longleftrightarrow> rs = []" using rs by (cases rs) (auto simp: plain_segment_def)
  qed
  have "segs rel = rs \<and> (rel = [] \<longleftrightarrow> rs = [])"
  proof (cases "mp = []")
    case True
    have "rel = tl (path_of rs)" using root True path_of_hd [of rs] by (simp add: rel_def path_def relative_part_def)
    then show ?thesis using seg_rs by (cases "rs = []") (auto simp: path_of_slashed)
  next
    case False
    then have p: "path = slashed mp @ slashed rs" by (simp add: path_def path_of_slashed)
    have "rel = tl (slashed rs)"
      using False root by (cases rs) (simp_all add: rel_def p path_of_slashed relative_part_def)
    then show ?thesis using seg_rs by auto
  qed
  then show "segs rel = rs" "rel = [] \<longleftrightarrow> rs = []" by auto
qed

definition same_files :: "'d vfs \<Rightarrow> 'd vfs \<Rightarrow> bool" where
  "same_files v v' \<longleftrightarrow> v' = v\<lparr>v_cache := v_cache v', v_kernel := v_kernel v'\<rparr> \<and> allocates (v_kernel v) (v_kernel v')"

lemma same_files_trans: "same_files v v' \<Longrightarrow> same_files v' v'' \<Longrightarrow> same_files v v''"
  unfolding same_files_def by (metis (no_types, lifting) allocates_trans vfs.surjective vfs.update_convs(5,7))

lemma vfs_rep_same:
  assumes "vfs_rep v M" and "same_files v v'" and "cache_rep (v_cache v') M"
  shows "vfs_rep v' M"
proof -
  from assms(2) have v': "v' = v\<lparr>v_cache := v_cache v', v_kernel := v_kernel v'\<rparr>"
    and al: "allocates (v_kernel v) (v_kernel v')" by (simp_all add: same_files_def)
  have "s_vfs_initialized v' = s_vfs_initialized v" "s_root_mount v' = s_root_mount v" "s_mounts v' = s_mounts v"
    by (subst v', simp)+
  then show ?thesis using assms(1,3) allocates_forest [OF _ al] by (simp add: vfs_rep_def)
qed

lemma resolve_rep:
  assumes v: "vfs_rep v M" and norm: "vfs_normalize_path path VFS_PATH_MAX = Inr (path_of ps)"
    and ps: "list_all plain_segment ps"
  obtains v' where "VFS_Resolve ram_tbl v path =
      Some (case denotes M ps of None \<Rightarrow> (VFS_RES_NOT_FOUND, NULL) | Some u \<Rightarrow> (VFS_RES_OK, t_node u), v')"
    "vfs_rep v' M" "same_files v v'"
proof -
  from v obtain ms r where init: "s_vfs_initialized v" "s_root_mount v = Some r" and ms: "s_mounts v = Some ms" "mounts_rep ms M"
    and fr: "forest_rep (v_kernel v) M" and cr: "cache_rep (v_cache v) M" by (auto simp: vfs_rep_def)
  obtain node c1 k1 where lk: "vfs_cache_lookup (v_kernel v) (path_of ps) (v_cache v) = (node, c1, k1)"
    and hit: "node \<noteq> NULL \<Longrightarrow> \<exists>u. denotes M ps = Some u \<and> node = t_node u"
    and c1: "cache_rep c1 M" and al1: "allocates (v_kernel v) k1"
    using cache_rep_lookup [OF cr ps, of "v_kernel v"] by metis
  let ?v1 = "v\<lparr>v_cache := c1, v_kernel := k1\<rparr>"
  have s1: "same_files v ?v1" using al1 by (simp add: same_files_def)
  have v1: "vfs_rep ?v1 M" using v s1 by (rule vfs_rep_same) (simp add: c1)
  show thesis
  proof (cases "node = NULL")
    case False
    then obtain u where "denotes M ps = Some u" "node = t_node u" using hit by blast
    then show thesis using that [OF _ v1 s1] init norm lk False by (simp add: VFS_Resolve_def)
  next
    case True
    obtain m t where m: "vfs_select_mount (Some ms) (path_of ps) = Some m" "m_path m = path_of (mount_point M ps)"
      "M (mount_point M ps) = Some t" "m_root m = t_node t" "list_all plain_segment (mount_point M ps)"
      using ms(2) ps by (rule select_mount_rep)
    have "M [] \<noteq> None" using ms(2) by (simp add: mounts_tab_def)
    then have "prefix (mount_point M ps) ps" by (rule mount_point_facts(2))
    then obtain rs where rs: "ps = mount_point M ps @ rs" by (auto simp: prefix_def)
    define rel where "rel = relative_part (path_of (mount_point M ps)) (path_of ps)"
    have rel: "segs rel = rs" "rel = [] \<longleftrightarrow> rs = []"
      using relative_path [of "mount_point M ps" rs] rs ps unfolding rel_def by auto
    have den: "denotes M ps = tree_at t rs"
      using m(3) rs by (metis append_eq_conv_conj denotes_def option.simps(5))
    have m1: "k_mallocs k1 = []" using v1 by (simp add: vfs_rep_def forest_rep_def)
    have good: "tree_good k1 t" using v1 m(3) by (simp add: vfs_rep_def forest_rep_def)
    show thesis
    proof (cases "rs = []")
      case nil: True
      then have d: "denotes M ps = Some t" using den by simp
      obtain c2 k2 where ins: "vfs_cache_insert k1 (path_of ps) (t_node t) c1 = Some (c2, k2)" "cache_rep c2 M" "allocates k1 k2"
        using c1 ps d m1 by (rule cache_rep_insert)
      let ?v2 = "v\<lparr>v_cache := c2, v_kernel := k2\<rparr>"
      have s2: "same_files v ?v2" using al1 ins(3) allocates_trans by (auto simp: same_files_def)
      have eq: "VFS_Resolve ram_tbl v path = Some ((VFS_RES_OK, t_node t), ?v2)"
        using init norm lk True ms(1) m nil rel(2) ins(1)
        by (simp add: VFS_Resolve_def flip: rel_def)
      show thesis
        by (rule that [OF _ vfs_rep_same [OF v s2] s2]) (simp_all add: eq d ins)
    next
      case False
      have segs: "list_all plain_segment (segs rel)" using rel(1) ps by (subst (asm) rs) simp
      have walk: "vfs_walk ram_tbl k1 (t_node t) rel True =
          Some (case denotes M ps of None \<Rightarrow> (VFS_RES_NOT_FOUND, NULL) | Some u \<Rightarrow> (VFS_RES_OK, t_node u), k1)"
        using walk_loop_rep [OF tree_goodD(1) [OF good] segs] rtree_rep_root [OF tree_goodD(1) [OF good]]
        by (simp add: vfs_walk_def den rel(1))
      show thesis
      proof (cases "denotes M ps")
        case None
        have eq: "VFS_Resolve ram_tbl v path = Some ((VFS_RES_NOT_FOUND, NULL), ?v1)"
          using init norm lk True ms(1) m False rel(2) walk None
          by (simp add: VFS_Resolve_def flip: rel_def)
        show thesis by (rule that [OF _ v1 s1]) (simp add: eq None)
      next
        case (Some u)
        obtain par' where "rtree_rep k1 par' u"
          using tree_at_rep [OF _ tree_goodD(2) [OF good] tree_goodD(1) [OF good], of rs u] Some den by auto
        then have nz: "t_node u \<noteq> NULL" using rtree_rep_root by blast
        obtain c2 k2 where ins: "vfs_cache_insert k1 (path_of ps) (t_node u) c1 = Some (c2, k2)" "cache_rep c2 M" "allocates k1 k2"
          using c1 ps Some m1 by (rule cache_rep_insert)
        let ?v2 = "v\<lparr>v_cache := c2, v_kernel := k2\<rparr>"
        have s2: "same_files v ?v2" using al1 ins(3) allocates_trans by (auto simp: same_files_def)
        have eq: "VFS_Resolve ram_tbl v path = Some ((VFS_RES_OK, t_node u), ?v2)"
          using init norm lk True ms(1) m False rel(2) ins(1) walk Some nz
          by (simp add: VFS_Resolve_def flip: rel_def)
        show thesis
          by (rule that [OF _ vfs_rep_same [OF v s2] s2]) (simp_all add: eq Some ins)
      qed
    qed
  qed
qed

end
