(* ===== verification/Vfs_Update.thy ===== *)
theory Vfs_Update
  imports Vfs_Rep
begin

text \<open>
  Creation and removal of nodes through the virtual file system, as changes of the map from mount
  points to trees: the result codes and the new map are those of \<open>forest_create\<close> and
  \<open>forest_remove\<close>, and the cache stays coherent because the entries that the change invalidates
  are the ones the code removes.
\<close>

section \<open>Changing one tree\<close>

lemma distinct_replaced:
  assumes "distinct ts" and "distinct us'" and "set us \<subseteq> set ts" and "distinct us"
    and "set us' \<inter> set ts \<subseteq> set us" and "mset rs + mset us = mset ts + mset us'"
  shows "distinct rs" and "set rs \<subseteq> set ts \<union> set us'"
proof -
  have c: "count (mset xs) x = (if x \<in> set xs then 1 else 0)" if "distinct xs" for xs :: "'a list" and x
    using that by (simp add: distinct_count_atmost_1)
  have eq: "count (mset rs) x + count (mset us) x = count (mset ts) x + count (mset us') x" for x
    using assms(6) by (metis count_union)
  have le: "count (mset rs) x \<le> 1" for x
  proof -
    have "x \<in> set us \<longrightarrow> x \<in> set ts" "x \<in> set us' \<and> x \<in> set ts \<longrightarrow> x \<in> set us" using assms(3,5) by auto
    then show ?thesis
      using eq [of x] c [OF assms(1), of x] c [OF assms(2), of x] c [OF assms(4), of x]
      by (cases "x \<in> set us"; cases "x \<in> set ts"; cases "x \<in> set us'") (simp_all del: count_mset_0_iff)
  qed
  show "distinct rs"
    unfolding distinct_count_atmost_1
    using le by (metis One_nat_def count_mset_0_iff le_Suc_eq le_zero_eq)
  show "set rs \<subseteq> set ts \<union> set us'"
    using assms(6) by (metis Un_upper1 set_mset_mset set_mset_union)
qed

lemma bounded_union:
  assumes "S \<subseteq> T \<union> {a<..b}" and "\<forall>x \<in> T. x \<le> b"
  shows "\<forall>x \<in> S. x \<le> (b :: nat)"
proof
  fix x assume "x \<in> S"
  with assms(1) have "x \<in> T \<union> {a<..b}" by blast
  with assms(2) show "x \<le> b" by auto
qed

lemma tree_good_replace:
  assumes good: "tree_good k t" and u: "tree_at t rs = Some u"
    and kn: "\<forall>n \<in> set (nodes_of t) - set (nodes_of u). k_nodes k' n = k_nodes k n"
    and kd: "\<forall>p \<in> set (pays_of t) - set (pays_of u). k_drv k' p = k_drv k p"
    and rep: "\<forall>par. rtree_rep k par u \<longrightarrow> rtree_rep k' par u'"
    and root: "t_node u' = t_node u" "t_name u' = t_name u" and names: "names_ok u'"
    and dn: "distinct (nodes_of u')" "set (nodes_of u') \<subseteq> set (nodes_of u) \<union> {k_last k<..k_last k'}"
    and dp: "distinct (pays_of u')" "set (pays_of u') \<subseteq> set (pays_of u) \<union> {k_last k<..k_last k'}"
    and last: "k_last k \<le> k_last k'"
  shows "tree_good k' (replace_at t rs u')"
    and "set (nodes_of (replace_at t rs u')) \<subseteq> set (nodes_of t) \<union> {k_last k<..k_last k'}"
    and "set (pays_of (replace_at t rs u')) \<subseteq> set (pays_of t) \<union> {k_last k<..k_last k'}"
proof -
  note g = tree_goodD [OF good]
  note sub = tree_at_rep [OF u g(2) g(1)]
  have fresh: "set xs' \<inter> set ys \<subseteq> set xs"
    if "set xs' \<subseteq> set xs \<union> {k_last k<..k_last k'}" "\<forall>y \<in> set ys. y \<le> k_last k" for xs xs' ys
  proof
    fix x assume x: "x \<in> set xs' \<inter> set ys"
    then have "x \<le> k_last k" using that(2) by blast
    moreover have "x \<in> set xs \<union> {k_last k<..k_last k'}" using x that(1) by blast
    ultimately show "x \<in> set xs" by simp
  qed
  have sn: "set (nodes_of u) \<subseteq> set (nodes_of t)" "distinct (nodes_of u)" using sub g(3) by blast+
  have sn': "set (nodes_of u') \<inter> set (nodes_of t) \<subseteq> set (nodes_of u)" by (rule fresh [OF dn(2)]) (use g(5) in blast)
  have sp: "set (pays_of u) \<subseteq> set (pays_of t)" "distinct (pays_of u)" using sub g(4) by blast+
  have sp': "set (pays_of u') \<inter> set (pays_of t) \<subseteq> set (pays_of u)" by (rule fresh [OF dp(2)]) (use g(5) in blast)
  note n = distinct_replaced [OF g(3) dn(1) sn sn' replace_at_mset(1) [OF u g(2)]]
    and p = distinct_replaced [OF g(4) dp(1) sp sp' replace_at_mset(2) [OF u g(2)]]
  have "rtree_rep k' NULL (replace_at t rs u')"
    using u g(2,1,3,4) kn kd rep root by (rule replace_at_rep)
  moreover have "names_ok (replace_at t rs u')" using u g(2) names root by (rule replace_at_names)
  moreover show "set (nodes_of (replace_at t rs u')) \<subseteq> set (nodes_of t) \<union> {k_last k<..k_last k'}"
    using n(2) dn(2) sub by blast
  moreover show "set (pays_of (replace_at t rs u')) \<subseteq> set (pays_of t) \<union> {k_last k<..k_last k'}"
    using p(2) dp(2) sub by blast
  moreover have "\<forall>x \<in> set (nodes_of t) \<union> set (pays_of t). x \<le> k_last k'" using g(5) last le_trans by blast
  ultimately have "\<forall>x \<in> set (nodes_of (replace_at t rs u')) \<union> set (pays_of (replace_at t rs u')). x \<le> k_last k'"
    using bounded_union [of "set (nodes_of (replace_at t rs u'))" "set (nodes_of t)" "k_last k" "k_last k'"]
      bounded_union [of "set (pays_of (replace_at t rs u'))" "set (pays_of t)" "k_last k" "k_last k'"] by blast
  with \<open>rtree_rep k' NULL _\<close> \<open>names_ok (replace_at t rs u')\<close> show "tree_good k' (replace_at t rs u')"
    using n(1) p(1) by (simp add: tree_good_def)
qed

text \<open>The forest with the subtree that a path denotes replaced.\<close>

definition put_at :: "forest \<Rightarrow> string list \<Rightarrow> rtree \<Rightarrow> forest" where
  "put_at M ps u =
     (case M (mount_point M ps) of
        None \<Rightarrow> M
      | Some t \<Rightarrow> M(mount_point M ps \<mapsto> replace_at t (drop (length (mount_point M ps)) ps) u))"

lemma denotesE:
  assumes "denotes M ps = Some u"
  obtains t where "M (mount_point M ps) = Some t" "tree_at t (drop (length (mount_point M ps)) ps) = Some u"
  using assms by (auto simp: denotes_def split: option.splits)

lemma put_at_forest:
  assumes fr: "forest_rep k M" and den: "denotes M ps = Some u"
    and kn: "\<And>n. n \<le> k_last k \<Longrightarrow> n \<notin> set (nodes_of u) \<Longrightarrow> k_nodes k' n = k_nodes k n"
    and kd: "\<And>p. p \<le> k_last k \<Longrightarrow> p \<notin> set (pays_of u) \<Longrightarrow> k_drv k' p = k_drv k p"
    and rep: "\<And>par. rtree_rep k par u \<Longrightarrow> rtree_rep k' par u'"
    and root: "t_node u' = t_node u" "t_name u' = t_name u" and names: "names_ok u'"
    and dn: "distinct (nodes_of u')" "set (nodes_of u') \<subseteq> set (nodes_of u) \<union> {k_last k<..k_last k'}"
    and dp: "distinct (pays_of u')" "set (pays_of u') \<subseteq> set (pays_of u) \<union> {k_last k<..k_last k'}"
    and last: "k_last k \<le> k_last k'" and m: "k_mallocs k' = []"
  shows "forest_rep k' (put_at M ps u')"
proof -
  let ?mp = "mount_point M ps"
  let ?rs = "drop (length ?mp) ps"
  obtain t where t: "M ?mp = Some t" "tree_at t ?rs = Some u" using den by (rule denotesE)
  have good: "tree_good k t" using fr t(1) by (simp add: forest_rep_def)
  note g = tree_goodD [OF good]
  have kn': "\<forall>n \<in> set (nodes_of t) - set (nodes_of u). k_nodes k' n = k_nodes k n" using kn g(5) by blast
  have kd': "\<forall>p \<in> set (pays_of t) - set (pays_of u). k_drv k' p = k_drv k p" using kd g(5) by blast
  have rep': "\<forall>par. rtree_rep k par u \<longrightarrow> rtree_rep k' par u'" using rep by blast
  note new = tree_good_replace [OF good t(2) kn' kd' rep' root names dn dp last]
  have sub: "set (nodes_of u) \<subseteq> set (nodes_of t)" "set (pays_of u) \<subseteq> set (pays_of t)"
    using tree_at_rep [OF t(2) g(2) g(1)] by auto
  have other: "tree_good k' s \<and> apart s (replace_at t ?rs u')" if s: "M ms = Some s" "ms \<noteq> ?mp" for ms s
  proof -
    have gs: "tree_good k s" and ap: "apart s t" using fr s t(1) by (auto simp: forest_rep_def)
    note b = tree_goodD(5) [OF gs]
    have "tree_good k' s"
    proof (rule tree_good_frame [OF gs _ _ last]; rule ballI)
      fix n assume "n \<in> set (nodes_of s)"
      then show "k_nodes k' n = k_nodes k n" using b ap sub(1) by (intro kn) (auto simp: apart_def)
    next
      fix p assume "p \<in> set (pays_of s)"
      then show "k_drv k' p = k_drv k p" using b ap sub(2) by (intro kd) (auto simp: apart_def)
    qed
    moreover
    have "\<forall>x \<in> set (nodes_of s). x \<le> k_last k" "\<forall>x \<in> set (pays_of s). x \<le> k_last k" using b by blast+
    then have "set (nodes_of s) \<inter> {k_last k<..k_last k'} = {}" "set (pays_of s) \<inter> {k_last k<..k_last k'} = {}"
      by (fastforce simp: disjoint_iff)+
    then have "apart s (replace_at t ?rs u')"
      using ap new(2,3) unfolding apart_def by blast
    ultimately show ?thesis by blast
  qed
  have sym: "apart a b \<longleftrightarrow> apart b a" for a b by (auto simp: apart_def)
  have old: "apart s s'" if "M ms = Some s" "M ms' = Some s'" "ms \<noteq> ms'" for ms ms' s s'
    using fr that by (auto simp: forest_rep_def)
  show ?thesis
    unfolding forest_rep_def put_at_def using m t(1) other new(1) old sym by auto
qed

section \<open>What paths denote after a change\<close>

definition same_node :: "rtree option \<Rightarrow> rtree option \<Rightarrow> bool" where
  "same_node w w' \<longleftrightarrow> (\<forall>x. w = Some x \<longrightarrow> (\<exists>y. w' = Some y \<and> t_node y = t_node x))"

lemma same_node_refl [simp]: "same_node w w" by (simp add: same_node_def)

lemma child_Cons:
  "child s (RTree n p nm ty bs (as @ c # cs)) = (if t_name c = s then Some c else child s (RTree n p nm ty bs (as @ cs)))"
  if "\<forall>x \<in> set as. t_name x \<noteq> t_name c"
proof -
  have "List.find P as = None" if "\<forall>x \<in> set as. \<not> P x" for P using that by (simp add: find_None_iff)
  have app: "List.find P (xs @ ys) = (case List.find P xs of None \<Rightarrow> List.find P ys | Some x \<Rightarrow> Some x)" for P xs and ys :: "rtree list"
    by (induction xs) auto
  show ?thesis
  proof (cases "t_name c = s")
    case True
    then have "List.find (\<lambda>c. t_name c = s) as = None" using that by (auto simp: find_None_iff)
    then show ?thesis using True by (simp add: child_def app)
  next
    case False
    then show ?thesis by (simp add: child_def app split: option.split)
  qed
qed

lemma tree_at_replace:
  assumes "tree_at t rs = Some u" and "names_ok t" and "t_node u' = t_node u" and "t_name u' = t_name u"
  shows "tree_at (replace_at t rs u') (rs @ xs) = tree_at u' xs"
    and "\<not> prefix rs qs \<Longrightarrow> same_node (tree_at t qs) (tree_at (replace_at t rs u') qs)"
proof -
  have "tree_at (replace_at t rs u') (rs @ xs) = tree_at u' xs \<and>
      (\<forall>qs. \<not> prefix rs qs \<longrightarrow> same_node (tree_at t qs) (tree_at (replace_at t rs u') qs))"
    using assms
  proof (induction rule: tree_at_induct)
    case (below n p nm bs as c cs s ss u)
    let ?c = "replace_at c ss u'"
    let ?t = "RTree n p nm VFS_NODE_DIRECTORY bs (as @ c # cs)" and ?t' = "RTree n p nm VFS_NODE_DIRECTORY bs (as @ ?c # cs)"
    have eq: "replace_at ?t (s # ss) u' = ?t'" using below.hyps(2,3) by (simp add: replace_at_Cons)
    have nc: "t_name ?c = t_name c"
      using replace_at_root(2) [OF below.hyps(5) _ below.prems] below.hyps(1) by simp
    have as: "\<forall>x \<in> set as. t_name x \<noteq> t_name c" using below.hyps(2,3) by auto
    have ch': "child r ?t' = (if r = s then Some ?c else child r (RTree n p nm VFS_NODE_DIRECTORY bs (as @ cs)))" for r
      using child_Cons [of as ?c r n p nm VFS_NODE_DIRECTORY bs cs] as nc below.hyps(2) by auto
    have ch: "child r ?t = (if r = s then Some c else child r (RTree n p nm VFS_NODE_DIRECTORY bs (as @ cs)))" for r
      using child_Cons [of as c r n p nm VFS_NODE_DIRECTORY bs cs] as below.hyps(2) by auto
    have IH: "tree_at ?c (ss @ xs) = tree_at u' xs" "\<And>qs. \<not> prefix ss qs \<Longrightarrow> same_node (tree_at c qs) (tree_at ?c qs)"
      using below.IH below.prems by auto
    have "tree_at ?t' (s # ss @ xs) = tree_at u' xs" using IH(1) ch' by simp
    moreover have "same_node (tree_at ?t qs) (tree_at ?t' qs)" if "\<not> prefix (s # ss) qs" for qs
    proof (cases qs)
      case Nil
      then show ?thesis by (simp add: same_node_def)
    next
      case (Cons r qs')
      then show ?thesis
        using that IH(2) [of qs'] ch [of r] ch' [of r] by (cases "r = s") auto
    qed
    ultimately show ?case using eq by simp
  qed simp
  then show "tree_at (replace_at t rs u') (rs @ xs) = tree_at u' xs"
    "\<not> prefix rs qs \<Longrightarrow> same_node (tree_at t qs) (tree_at (replace_at t rs u') qs)" by auto
qed

lemma mount_point_cong: "(\<And>ms. M' ms = None \<longleftrightarrow> M ms = None) \<Longrightarrow> mount_point M' ps = mount_point M ps"
  by (simp add: mount_point_def)

lemma put_at_dom: "put_at M ps u ms = None \<longleftrightarrow> M ms = None"
  by (auto simp: put_at_def split: option.splits)

text \<open>A path that does not lead to or below the changed node denotes the same node as before, and one
  that does is looked up in the new subtree.\<close>

lemma denotes_put_at:
  assumes fr: "forest_rep k M" and root: "M [] \<noteq> None" and den: "denotes M ps = Some u"
    and u': "t_node u' = t_node u" "t_name u' = t_name u"
  shows "mount_point M (ps @ xs) = mount_point M ps \<Longrightarrow> denotes (put_at M ps u') (ps @ xs) = tree_at u' xs"
    and "mount_point M (ps @ xs) = mount_point M ps \<Longrightarrow> denotes M (ps @ xs) = tree_at u xs"
    and "\<not> (prefix ps qs \<and> mount_point M qs = mount_point M ps) \<Longrightarrow>
      same_node (denotes M qs) (denotes (put_at M ps u') qs)"
proof -
  let ?mp = "mount_point M ps" and ?M = "put_at M ps u'"
  obtain t where t: "M ?mp = Some t" "tree_at t (drop (length ?mp) ps) = Some u" using den by (rule denotesE)
  let ?rs = "drop (length ?mp) ps"
  have M': "?M = M(?mp \<mapsto> replace_at t ?rs u')" using t(1) by (simp add: put_at_def)
  have mp': "mount_point ?M qs = mount_point M qs" for qs by (rule mount_point_cong) (rule put_at_dom)
  have names: "names_ok t" using fr t(1) by (simp add: forest_rep_def tree_good_def)
  obtain rs where rs: "ps = ?mp @ rs" using mount_point_facts(2) [where M = M and ps = ps] root by (auto simp: prefix_def)
  then have drs: "?rs = rs" by (metis append_eq_conv_conj)
  note rep = tree_at_replace [OF t(2) names u']
  have at: "tree_at t (rs @ xs) = tree_at u xs" for xs
  proof -
    have "tree_at t (rs @ xs) = (case tree_at t rs of None \<Rightarrow> None | Some w \<Rightarrow> tree_at w xs)" for t :: rtree
      by (induction rs arbitrary: t) (auto split: option.split)
    then show ?thesis using t(2) drs by simp
  qed
  have dps: "drop (length ?mp) (ps @ xs) = rs @ xs" for xs
    by (subst (2) rs) simp
  show "denotes ?M (ps @ xs) = tree_at u' xs" if "mount_point M (ps @ xs) = ?mp"
    unfolding denotes_def mp' that dps using rep(1) [of xs] by (simp add: M' drs)
  show "denotes M (ps @ xs) = tree_at u xs" if "mount_point M (ps @ xs) = ?mp"
    unfolding denotes_def that dps using at [of xs] by (simp add: t(1))
  show "same_node (denotes M qs) (denotes ?M qs)" if q: "\<not> (prefix ps qs \<and> mount_point M qs = ?mp)"
  proof (cases "mount_point M qs = ?mp")
    case False
    then show ?thesis unfolding denotes_def mp' by (simp add: M')
  next
    case True
    then have "\<not> prefix ps qs" using q by blast
    moreover obtain zs where zs: "qs = ?mp @ zs"
      using mount_point_facts(2) [where M = M and ps = qs] root True by (auto simp: prefix_def)
    ultimately have "\<not> prefix rs zs" using rs by (metis same_prefix_prefix)
    moreover have "drop (length ?mp) qs = zs" using zs by (metis append_eq_conv_conj)
    ultimately show ?thesis unfolding denotes_def mp' True using rep(2) [of zs] by (simp add: M' t(1) drs)
  qed
qed

section \<open>The cache after a change\<close>

lemma remove_exact_entries:
  assumes "cache_ok c"
  shows "s_cache_entries (vfs_cache_remove_exact path c) = map_option (filter (\<lambda>e. e_path e \<noteq> path)) (s_cache_entries c)"
    and "s_cache_capacity (vfs_cache_remove_exact path c) = s_cache_capacity c"
proof -
  have "filter (\<lambda>e. e_path e \<noteq> path) es = es" if "find_entry path es = None" for es
    using that by (force simp: find_entry_None filter_id_conv)
  then show "s_cache_entries (vfs_cache_remove_exact path c) = map_option (filter (\<lambda>e. e_path e \<noteq> path)) (s_cache_entries c)"
    using assms remove_nth_filter
    by (auto simp: vfs_cache_remove_exact_def cache_ok_def entries_ok_def split: option.splits)
  show "s_cache_capacity (vfs_cache_remove_exact path c) = s_cache_capacity c"
    by (simp add: vfs_cache_remove_exact_def split: option.split)
qed

lemma remove_prefix_entries:
  "s_cache_entries (vfs_cache_remove_prefix pre c) =
     map_option (filter (\<lambda>e. \<not> vfs_cache_path_is_under (e_path e) pre)) (s_cache_entries c)"
  "s_cache_capacity (vfs_cache_remove_prefix pre c) = s_cache_capacity c"
  by (simp_all add: vfs_cache_remove_prefix_def remove_prefix_loop_eq split: option.split)

lemma cache_rep_transfer:
  assumes c: "cache_rep c M" and e: "s_cache_entries c' = map_option (filter (\<lambda>e. P (e_path e))) (s_cache_entries c)"
    and cap: "s_cache_capacity c' = s_cache_capacity c"
    and same: "\<And>qs. list_all plain_segment qs \<Longrightarrow> P (path_of qs) \<Longrightarrow> same_node (denotes M qs) (denotes M' qs)"
  shows "cache_rep c' M'"
  unfolding cache_rep_entries
proof (intro allI impI)
  fix es' assume "s_cache_entries c' = Some es'"
  then obtain es where es: "s_cache_entries c = Some es" "es' = filter (\<lambda>e. P (e_path e)) es" using e by auto
  from c es(1) have ok: "entries_ok (s_cache_capacity c) es"
    and ent: "\<forall>e \<in> set es. \<exists>ps u. list_all plain_segment ps \<and> e_path e = path_of ps \<and> denotes M ps = Some u \<and> e_node e = t_node u"
    by (simp_all add: cache_rep_entries)
  have "\<exists>ps u. list_all plain_segment ps \<and> e_path e = path_of ps \<and> denotes M' ps = Some u \<and> e_node e = t_node u"
    if "e \<in> set es'" for e
  proof -
    have "e \<in> set es" "P (e_path e)" using that es(2) by auto
    with ent obtain ps u where u: "list_all plain_segment ps" "e_path e = path_of ps" "denotes M ps = Some u" "e_node e = t_node u"
      by blast
    with same [of ps] \<open>P (e_path e)\<close> obtain u' where "denotes M' ps = Some u'" "t_node u' = t_node u"
      by (auto simp: same_node_def)
    with u show ?thesis by auto
  qed
  then show "entries_ok (s_cache_capacity c') es' \<and>
      (\<forall>e \<in> set es'. \<exists>ps u. list_all plain_segment ps \<and> e_path e = path_of ps \<and> denotes M' ps = Some u \<and> e_node e = t_node u)"
    using entries_ok_filter [OF ok] cap es(2) by auto
qed

section \<open>Paths of children\<close>

lemma split_last_path_of:
  assumes "list_all plain_segment (pp @ [nm])" and "length (path_of (pp @ [nm])) < VFS_PATH_MAX"
  shows "split_last (path_of (pp @ [nm])) = Inr (path_of pp, nm)" and "path_of (pp @ [nm]) \<noteq> ''/''"
    and "length (path_of pp) < VFS_PATH_MAX"
proof -
  have p: "path_of (pp @ [nm]) = slashed pp @ CHR ''/'' # nm" by (simp add: path_of_def)
  have nm: "nm \<noteq> []" "CHR ''/'' \<notin> set nm" "length nm \<le> VFS_NAME_MAX" using assms(1) by (auto simp: plain_segment_def)
  have seg: "rev (first_segment (rev (slashed pp @ CHR ''/'' # nm))) = nm"
    using nm(2) by (simp add: takeWhile_append2 takeWhile_append)
  have "slashed pp = [] \<longleftrightarrow> pp = []" by (cases pp) auto
  then show "split_last (path_of (pp @ [nm])) = Inr (path_of pp, nm)"
    using nm assms(2) unfolding split_last_def p seg Let_def
    by (cases "pp = []") (auto simp: p path_of_def)
  show "path_of (pp @ [nm]) \<noteq> ''/''" using nm(1) by (auto simp: p append_eq_Cons_conv)
  have "pp \<noteq> [] \<Longrightarrow> length (slashed pp) < VFS_PATH_MAX" using assms(2) p by simp
  then show "length (path_of pp) < VFS_PATH_MAX" by (cases "pp = []") (simp_all add: path_of_def VFS_PATH_MAX_def)
qed

section \<open>Creation and removal\<close>

text \<open>What the operations promise, on forests: the result code and the forest afterwards. \<open>n\<close> and \<open>p\<close>
  are the addresses of the new node and its payload.\<close>

definition forest_create ::
  "ptr \<Rightarrow> ptr \<Rightarrow> VFSNodeType \<Rightarrow> forest \<Rightarrow> string list \<Rightarrow> string \<Rightarrow> VFSResult \<times> forest" where
  "forest_create n p type M pp nm =
     (case denotes M pp of
        None \<Rightarrow> (VFS_RES_NOT_FOUND, M)
      | Some u \<Rightarrow>
          if t_type u \<noteq> VFS_NODE_DIRECTORY then (VFS_RES_INVALID, M)
          else if child nm u \<noteq> None then (VFS_RES_EXISTS, M)
          else (VFS_RES_OK, put_at M pp (add_kid (RTree n p nm type [] []) u)))"

definition forest_remove :: "forest \<Rightarrow> string list \<Rightarrow> string \<Rightarrow> VFSResult \<times> forest" where
  "forest_remove M pp nm =
     (case denotes M pp of
        None \<Rightarrow> (VFS_RES_NOT_FOUND, M)
      | Some u \<Rightarrow>
          if t_type u \<noteq> VFS_NODE_DIRECTORY then (VFS_RES_INVALID, M)
          else if child nm u = None then (VFS_RES_NOT_FOUND, M)
          else (VFS_RES_OK, put_at M pp (drop_kid nm u)))"

lemma child_add_kid:
  "child r (add_kid new u) = (case child r u of None \<Rightarrow> (if t_name new = r then Some new else None) | Some c \<Rightarrow> Some c)"
proof -
  have "List.find P (xs @ [y]) = (case List.find P xs of None \<Rightarrow> (if P y then Some y else None) | Some x \<Rightarrow> Some x)"
    for P xs and y :: rtree by (induction xs) auto
  then show ?thesis by (simp add: child_def)
qed

lemma child_drop_kid: "child r (drop_kid s u) = (if r = s then None else child r u)"
proof -
  have "List.find (\<lambda>c. t_name c = r) (filter (\<lambda>c. t_name c \<noteq> s) xs) =
      (if r = s then None else List.find (\<lambda>c. t_name c = r) xs)" for xs
    by (induction xs) auto
  then show ?thesis by (simp add: child_def)
qed

lemma same_node_add_kid: "same_node (tree_at u xs) (tree_at (add_kid new u) xs)"
  by (cases xs) (auto simp: same_node_def child_add_kid split: option.splits if_splits)

lemma same_node_drop_kid: "\<not> prefix [s] xs \<Longrightarrow> same_node (tree_at u xs) (tree_at (drop_kid s u) xs)"
  by (cases xs) (auto simp: same_node_def child_drop_kid split: option.splits if_splits)

lemma denotes_changed:
  assumes fr: "forest_rep k M" and root: "M [] \<noteq> None" and den: "denotes M pp = Some u"
    and u': "t_node u' = t_node u" "t_name u' = t_name u"
    and below: "\<And>xs. qs = pp @ xs \<Longrightarrow> same_node (tree_at u xs) (tree_at u' xs)"
  shows "same_node (denotes M qs) (denotes (put_at M pp u') qs)"
proof (cases "prefix pp qs \<and> mount_point M qs = mount_point M pp")
  case True
  then obtain xs where qs: "qs = pp @ xs" by (auto simp: prefix_def)
  then have mp: "mount_point M (pp @ xs) = mount_point M pp" using True by simp
  show ?thesis
    using below [OF qs] denotes_put_at(1) [where M = M and ps = pp and xs = xs, OF fr root den u' mp]
      denotes_put_at(2) [where M = M and ps = pp and xs = xs, OF fr root den u' mp] by (simp add: qs)
next
  case False
  then show ?thesis by (rule denotes_put_at(3) [where M = M and ps = pp, OF fr root den u'])
qed

lemma vfs_rep_put_at:
  assumes v: "vfs_rep v M" and den: "denotes M pp = Some u" and u': "t_node u' = t_node u" "t_name u' = t_name u"
    and fr: "forest_rep k' (put_at M pp u')" and cr: "cache_rep c' (put_at M pp u')"
  shows "vfs_rep (v\<lparr>v_cache := c', v_kernel := k'\<rparr>) (put_at M pp u')"
proof -
  from v obtain ms where ms: "s_mounts v = Some ms" "mounts_rep ms M" and good: "forest_rep (v_kernel v) M"
    by (auto simp: vfs_rep_def)
  obtain t where t: "M (mount_point M pp) = Some t" "tree_at t (drop (length (mount_point M pp)) pp) = Some u"
    using den by (rule denotesE)
  have "names_ok t" using forest_rep_tree [OF good t(1)] by (simp add: tree_good_def)
  then have root: "t_node (replace_at t (drop (length (mount_point M pp)) pp) u') = t_node t"
    by (rule replace_at_root(1) [OF t(2) _ u'])
  have M': "put_at M pp u' = M(mount_point M pp \<mapsto> replace_at t (drop (length (mount_point M pp)) pp) u')"
    using t(1) by (simp add: put_at_def)
  have node: "\<exists>s'. put_at M pp u' ss = Some s' \<and> t_node s' = t_node s" if "M ss = Some s" for ss s
    using that root t(1) by (auto simp: M')
  have "mounts_rep ms (put_at M pp u')"
    unfolding mounts_tab_def
  proof (intro conjI)
    show "distinct (map m_path ms)" "put_at M pp u' [] \<noteq> None" using ms(2) put_at_dom by (simp_all add: mounts_tab_def)
    show "\<forall>m \<in> set ms. \<exists>ss t. list_all plain_segment ss \<and> m_path m = path_of ss \<and> put_at M pp u' ss = Some t \<and>
        m_root m = t_node t \<and> fs_op op_unmount (m_fs m) = Some ramfs_unmount"
    proof
      fix m assume "m \<in> set ms"
      with ms(2) obtain ss s where s: "list_all plain_segment ss" "m_path m = path_of ss" "M ss = Some s"
        "m_root m = t_node s" "fs_op op_unmount (m_fs m) = Some ramfs_unmount" unfolding mounts_tab_def by blast
      from node [OF s(3)] s show "\<exists>ss t. list_all plain_segment ss \<and> m_path m = path_of ss \<and> put_at M pp u' ss = Some t \<and>
        m_root m = t_node t \<and> fs_op op_unmount (m_fs m) = Some ramfs_unmount" by metis
    qed
    show "\<forall>ss. put_at M pp u' ss \<noteq> None \<longrightarrow> list_all plain_segment ss \<and> (\<exists>m \<in> set ms. m_path m = path_of ss)"
      using ms(2) by (simp add: put_at_dom mounts_tab_def)
  qed
  then show ?thesis using v ms(1) fr cr by (simp add: vfs_rep_def)
qed

lemma denoted_rep:
  assumes "forest_rep k M" and "denotes M pp = Some u"
  obtains par where "rtree_rep k par u" "names_ok u" "distinct (nodes_of u)" "distinct (pays_of u)"
    "\<forall>x \<in> set (nodes_of u) \<union> set (pays_of u). x \<le> k_last k"
proof -
  obtain t where t: "M (mount_point M pp) = Some t" "tree_at t (drop (length (mount_point M pp)) pp) = Some u"
    using assms(2) by (rule denotesE)
  note g = tree_goodD [OF forest_rep_tree [OF assms(1) t(1)]]
  from tree_at_rep [OF t(2) g(2,1)] g(3,4) obtain par where u: "rtree_rep k par u" "names_ok u" "distinct (nodes_of u)"
    "distinct (pays_of u)" "set (nodes_of u) \<subseteq> set (nodes_of t)" "set (pays_of u) \<subseteq> set (pays_of t)" by blast
  have "\<forall>x \<in> set (nodes_of u) \<union> set (pays_of u). x \<le> k_last k" using g(5) u(5,6) by blast
  with u that show thesis by blast
qed

lemma node_denoted:
  assumes "rtree_rep k par u"
  obtains nd where "k_nodes k (t_node u) = Some nd" "n_ops nd = RAMFS_NODE_OPS"
  using assms by (cases u) (auto simp: node_rep_def)

lemma add_kid_good:
  fixes ty :: VFSNodeType
  assumes "names_ok u" and "child nm u = None" and "t_type u = VFS_NODE_DIRECTORY"
    and "distinct (nodes_of u)" "distinct (pays_of u)" and b: "\<forall>x \<in> set (nodes_of u) \<union> set (pays_of u). x < n"
    and "n < p"
  defines "new \<equiv> RTree n p nm ty [] []"
  shows "names_ok (add_kid new u)" and "distinct (nodes_of (add_kid new u))" "distinct (pays_of (add_kid new u))"
    and "set (nodes_of (add_kid new u)) = set (nodes_of u) \<union> {n}" "set (pays_of (add_kid new u)) = set (pays_of u) \<union> {p}"
proof -
  obtain a b' nm' ty' bs ks where u: "u = RTree a b' nm' ty' bs ks" by (cases u)
  have nm: "nm \<notin> t_name ` set ks" using assms(2) by (auto simp: u child_def find_None_iff)
  have "n \<notin> set (nodes_of u)" "p \<notin> set (pays_of u)" using b assms(7) less_not_sym by blast+
  then show "names_ok (add_kid new u)" "distinct (nodes_of (add_kid new u))" "distinct (pays_of (add_kid new u))"
    "set (nodes_of (add_kid new u)) = set (nodes_of u) \<union> {n}" "set (pays_of (add_kid new u)) = set (pays_of u) \<union> {p}"
    using assms nm by (auto simp: u new_def)
qed

text \<open>The driver's part of a creation or a removal that succeeds.\<close>

lemma create_child_rep:
  assumes w: "vfs_rep w M" and den: "denotes M pp = Some u"
    and u: "t_type u = VFS_NODE_DIRECTORY" "child nm u = None"
  defines "n \<equiv> k_last (v_kernel w) + 1"
  defines "c \<equiv> vfs_cache_remove_exact (path_of (pp @ [nm])) (v_cache w)"
  obtains k' where "ramfs_create (v_kernel w) (t_node u) nm type = Some ((VFS_RES_OK, n), k')"
    "vfs_rep (w\<lparr>v_cache := c, v_kernel := k'\<rparr>) (put_at M pp (add_kid (RTree n (n + 1) nm type [] []) u))"
proof -
  let ?l = "k_last (v_kernel w)"
  let ?u = "add_kid (RTree (?l + 1) (?l + 2) nm type [] []) u" and ?M = "put_at M pp (add_kid (RTree (?l + 1) (?l + 2) nm type [] []) u)"
  have fr: "forest_rep (v_kernel w) M" and cr: "cache_rep (v_cache w) M" and root: "M [] \<noteq> None"
    using w by (auto simp: vfs_rep_def mounts_tab_def)
  obtain par where r: "rtree_rep (v_kernel w) par u" "names_ok u" "distinct (nodes_of u)" "distinct (pays_of u)"
    "\<forall>x \<in> set (nodes_of u) \<union> set (pays_of u). x \<le> k_last (v_kernel w)" using denoted_rep [OF fr den] by metis
  have "cache_ok (v_cache w)" using cr by (simp add: cache_rep_def)
  note ex = remove_exact_entries [OF this, of "path_of (pp @ [nm])"]
  have m: "k_mallocs (v_kernel w) = []" using fr by (simp add: forest_rep_def)
  obtain k' where k': "ramfs_create (v_kernel w) (t_node u) nm type = Some ((VFS_RES_OK, ?l + 1), k')"
    "\<And>par. rtree_rep (v_kernel w) par u \<Longrightarrow> rtree_rep k' par ?u"
    "\<And>n. n \<le> ?l \<Longrightarrow> k_nodes k' n = k_nodes (v_kernel w) n"
    "\<And>p. p \<le> ?l \<Longrightarrow> p \<noteq> t_pay u \<Longrightarrow> k_drv k' p = k_drv (v_kernel w) p"
    "k_mallocs k' = []" "?l + 2 \<le> k_last k'"
    using ramfs_create_rep [OF u m r(1,5,4), of type] by (metis (no_types, lifting))
  have b: "\<forall>x \<in> set (nodes_of u) \<union> set (pays_of u). x < ?l + 1" using r(5) by (simp add: less_Suc_eq_le)
  note good = add_kid_good [of u nm "?l + 1" "?l + 2" type, OF r(2) u(2,1) r(3,4) b]
  have f: "forest_rep k' ?M"
  proof (rule put_at_forest [OF fr den])
    show "\<And>p. p \<le> ?l \<Longrightarrow> p \<notin> set (pays_of u) \<Longrightarrow> k_drv k' p = k_drv (v_kernel w) p"
      using k'(4) t_pay_in by metis
  qed (use good k' in auto)
  have "cache_rep c ?M" unfolding c_def
    by (rule cache_rep_transfer [OF cr ex]) (rule denotes_changed [OF fr root den], simp_all add: same_node_add_kid)
  from vfs_rep_put_at [OF w den _ _ f this] k'(1) that show thesis by (simp add: n_def)
qed

lemma remove_child_rep:
  assumes w: "vfs_rep w M" and den: "denotes M pp = Some u" and pp: "list_all plain_segment (pp @ [nm])"
    and u: "t_type u = VFS_NODE_DIRECTORY" "child nm u = Some d"
  defines "c \<equiv> vfs_cache_remove_prefix (path_of (pp @ [nm])) (v_cache w)"
  obtains k' where "ramfs_remove (v_kernel w) (t_node u) nm = Some (VFS_RES_OK, k')"
    "vfs_rep (w\<lparr>v_cache := c, v_kernel := k'\<rparr>) (put_at M pp (drop_kid nm u))"
    "\<forall>n \<in> set (nodes_of d). k_nodes k' n = None"
proof -
  have fr: "forest_rep (v_kernel w) M" and cr: "cache_rep (v_cache w) M" and root: "M [] \<noteq> None"
    using w by (auto simp: vfs_rep_def mounts_tab_def)
  obtain par where r: "rtree_rep (v_kernel w) par u" "names_ok u" "distinct (nodes_of u)" "distinct (pays_of u)"
    "\<forall>x \<in> set (nodes_of u) \<union> set (pays_of u). x \<le> k_last (v_kernel w)" using denoted_rep [OF fr den] by metis
  obtain k' where k': "ramfs_remove (v_kernel w) (t_node u) nm = Some (VFS_RES_OK, k')"
    "\<And>par. rtree_rep (v_kernel w) par u \<Longrightarrow> rtree_rep k' par (drop_kid nm u)"
    "\<And>n. n \<notin> set (nodes_of d) \<Longrightarrow> k_nodes k' n = k_nodes (v_kernel w) n"
    "\<And>n. n \<in> set (nodes_of d) \<Longrightarrow> k_nodes k' n = None"
    "\<And>p. p \<notin> set (pays_of d) \<Longrightarrow> p \<noteq> t_pay u \<Longrightarrow> k_drv k' p = k_drv (v_kernel w) p"
    "k_mallocs k' = k_mallocs (v_kernel w)" "k_last k' = k_last (v_kernel w)"
    using ramfs_remove_rep [OF u r(1,3,4,2)] by metis
  note ms = drop_kid_mset [OF r(2) u(2)]
  have dist: "distinct (nodes_of (drop_kid nm u))" "distinct (pays_of (drop_kid nm u))"
    using r(3,4) ms by (metis distinct_append mset_append mset_eq_imp_distinct_iff)+
  have sub: "set (nodes_of (drop_kid nm u)) \<subseteq> set (nodes_of u)" "set (pays_of (drop_kid nm u)) \<subseteq> set (pays_of u)"
    "set (nodes_of d) \<subseteq> set (nodes_of u)" "set (pays_of d) \<subseteq> set (pays_of u)"
    using ms by (metis mset_subset_eq_add_left mset_subset_eq_add_right set_mset_mono set_mset_mset)+
  have m: "k_mallocs k' = []" using k'(6) fr by (simp add: forest_rep_def)
  have f: "forest_rep k' (put_at M pp (drop_kid nm u))"
  proof (rule put_at_forest [OF fr den])
    show "n \<notin> set (nodes_of u) \<Longrightarrow> k_nodes k' n = k_nodes (v_kernel w) n" for n using k'(3) sub(3) by blast
    show "p \<notin> set (pays_of u) \<Longrightarrow> k_drv k' p = k_drv (v_kernel w) p" for p using k'(5) sub(4) t_pay_in by blast
  qed (use dist sub k'(2,7) m drop_kid_names [OF r(2)] in auto)
  have "cache_rep c (put_at M pp (drop_kid nm u))" unfolding c_def
  proof (rule cache_rep_transfer [OF cr remove_prefix_entries])
    fix qs assume "list_all plain_segment qs" "\<not> vfs_cache_path_is_under (path_of qs) (path_of (pp @ [nm]))"
    then have "\<not> prefix (pp @ [nm]) qs" using under_prefix pp by blast
    then show "same_node (denotes M qs) (denotes (put_at M pp (drop_kid nm u)) qs)"
      by (intro denotes_changed [OF fr root den]) (auto intro: same_node_drop_kid)
  qed
  from vfs_rep_put_at [OF w den _ _ f this] k'(1,4) that show thesis by simp
qed

text \<open>Both operations resolve the parent first.\<close>

lemma parent_resolved:
  assumes v: "vfs_rep v M" and norm: "vfs_normalize_path path VFS_PATH_MAX = Inr (path_of (pp @ [nm]))"
    and pp: "list_all plain_segment (pp @ [nm])"
  obtains w where "VFS_Resolve ram_tbl v (path_of pp) =
      Some (case denotes M pp of None \<Rightarrow> (VFS_RES_NOT_FOUND, NULL) | Some u \<Rightarrow> (VFS_RES_OK, t_node u), w)"
    "vfs_rep w M" "same_files v w" "split_last (path_of (pp @ [nm])) = Inr (path_of pp, nm)" "path_of (pp @ [nm]) \<noteq> ''/''"
    "s_vfs_initialized v"
proof -
  have len: "length (path_of (pp @ [nm])) < VFS_PATH_MAX"
    using normalize_result [OF norm] by (simp add: VFS_PATH_MAX_def)
  note sp = split_last_path_of [OF pp len]
  have pl: "list_all plain_segment pp" using pp by simp
  show thesis
    using resolve_rep [OF v normalize_path_of [OF pl sp(3)] pl] sp that v by (metis vfs_rep_def)
qed

lemma create_rep:
  assumes v: "vfs_rep v M" and norm: "vfs_normalize_path path VFS_PATH_MAX = Inr (path_of (pp @ [nm]))"
    and pp: "list_all plain_segment (pp @ [nm])" and ty: "type \<noteq> VFS_NODE_UNKNOWN"
  obtains n p v' where "VFS_Create ram_tbl v path type = Some (fst (forest_create n p type M pp nm), v')"
    "vfs_rep v' (snd (forest_create n p type M pp nm))"
proof -
  obtain w where w: "VFS_Resolve ram_tbl v (path_of pp) =
      Some (case denotes M pp of None \<Rightarrow> (VFS_RES_NOT_FOUND, NULL) | Some u \<Rightarrow> (VFS_RES_OK, t_node u), w)"
    "vfs_rep w M" "same_files v w" "split_last (path_of (pp @ [nm])) = Inr (path_of pp, nm)" "path_of (pp @ [nm]) \<noteq> ''/''"
    "s_vfs_initialized v" using parent_resolved [OF v norm pp] .
  have fr: "forest_rep (v_kernel w) M" and cr: "cache_rep (v_cache w) M" using w(2) by (auto simp: vfs_rep_def)
  note step = VFS_Create_def ty norm w(1,4-6)
  show thesis
  proof (cases "denotes M pp")
    case None
    show thesis by (rule that [of 0 0 w]) (use None w(2) in \<open>simp_all add: step forest_create_def\<close>)
  next
    case (Some u)
    obtain par where u: "rtree_rep (v_kernel w) par u" using denoted_rep [OF fr Some] .
    obtain nd where nd: "k_nodes (v_kernel w) (t_node u) = Some nd" "n_ops nd = RAMFS_NODE_OPS"
      using u by (rule node_denoted)
    let ?c = "vfs_cache_remove_exact (path_of (pp @ [nm])) (v_cache w)"
    have run: "VFS_Create ram_tbl v path type = Option.bind (ramfs_create (v_kernel w) (t_node u) nm type)
        (\<lambda>((res, _), k). Some (res, w\<lparr>v_cache := ?c, v_kernel := k\<rparr>))"
      using nd by (simp add: step Some Let_def s_ramfs_node_ops_def)
    show thesis
    proof (cases "t_type u = VFS_NODE_DIRECTORY \<and> child nm u = None")
      case False
      have "cache_ok (v_cache w)" using cr by (simp add: cache_rep_def)
      then have "cache_rep ?c M" by (intro cache_rep_transfer [OF cr remove_exact_entries]) simp_all
      then have "vfs_rep (w\<lparr>v_cache := ?c\<rparr>) M" using w(2) by (simp add: vfs_rep_def)
      with False show thesis
        using ramfs_create_refused [OF u, where nm = nm and ty = type] run that [of 0 0 "w\<lparr>v_cache := ?c\<rparr>"] Some
        by (cases "t_type u = VFS_NODE_DIRECTORY") (auto simp: forest_create_def)
    next
      case True
      then have d: "t_type u = VFS_NODE_DIRECTORY" "child nm u = None" by auto
      let ?n = "k_last (v_kernel w) + 1"
      obtain k' where "ramfs_create (v_kernel w) (t_node u) nm type = Some ((VFS_RES_OK, ?n), k')"
        "vfs_rep (w\<lparr>v_cache := ?c, v_kernel := k'\<rparr>) (put_at M pp (add_kid (RTree ?n (?n + 1) nm type [] []) u))"
        using create_child_rep [OF w(2) Some d] .
      with run d Some show thesis by (intro that [of ?n "?n + 1"]) (simp_all add: forest_create_def)
    qed
  qed
qed

lemma remove_rep:
  assumes v: "vfs_rep v M" and norm: "vfs_normalize_path path VFS_PATH_MAX = Inr (path_of (pp @ [nm]))"
    and pp: "list_all plain_segment (pp @ [nm])"
  obtains v' where "VFS_Remove ram_tbl v path = Some (fst (forest_remove M pp nm), v')"
    "vfs_rep v' (snd (forest_remove M pp nm))"
proof -
  obtain w where w: "VFS_Resolve ram_tbl v (path_of pp) =
      Some (case denotes M pp of None \<Rightarrow> (VFS_RES_NOT_FOUND, NULL) | Some u \<Rightarrow> (VFS_RES_OK, t_node u), w)"
    "vfs_rep w M" "same_files v w" "split_last (path_of (pp @ [nm])) = Inr (path_of pp, nm)" "path_of (pp @ [nm]) \<noteq> ''/''"
    "s_vfs_initialized v" using parent_resolved [OF v norm pp] .
  have fr: "forest_rep (v_kernel w) M" and cr: "cache_rep (v_cache w) M" using w(2) by (auto simp: vfs_rep_def)
  note step = VFS_Remove_def norm w(1,4-6)
  show thesis
  proof (cases "denotes M pp")
    case None
    show thesis by (rule that [of w]) (use None w(2) in \<open>simp_all add: step forest_remove_def\<close>)
  next
    case (Some u)
    obtain par where u: "rtree_rep (v_kernel w) par u" using denoted_rep [OF fr Some] .
    obtain nd where nd: "k_nodes (v_kernel w) (t_node u) = Some nd" "n_ops nd = RAMFS_NODE_OPS"
      using u by (rule node_denoted)
    let ?c = "vfs_cache_remove_prefix (path_of (pp @ [nm])) (v_cache w)"
    have run: "VFS_Remove ram_tbl v path = Option.bind (ramfs_remove (v_kernel w) (t_node u) nm)
        (\<lambda>(res, k). Some (res, w\<lparr>v_cache := ?c, v_kernel := k\<rparr>))"
      using nd by (simp add: step Some Let_def s_ramfs_node_ops_def)
    show thesis
    proof (cases "t_type u = VFS_NODE_DIRECTORY \<and> child nm u \<noteq> None")
      case False
      have "cache_rep ?c M" by (rule cache_rep_transfer [OF cr remove_prefix_entries]) simp
      then have "vfs_rep (w\<lparr>v_cache := ?c\<rparr>) M" using w(2) by (simp add: vfs_rep_def)
      with False show thesis
        using ramfs_remove_absent [OF u, where nm = nm] run that [of "w\<lparr>v_cache := ?c\<rparr>"] Some
        by (cases "t_type u = VFS_NODE_DIRECTORY") (auto simp: forest_remove_def)
    next
      case True
      then obtain d where d: "t_type u = VFS_NODE_DIRECTORY" "child nm u = Some d" by auto
      obtain k' where "ramfs_remove (v_kernel w) (t_node u) nm = Some (VFS_RES_OK, k')"
        "vfs_rep (w\<lparr>v_cache := ?c, v_kernel := k'\<rparr>) (put_at M pp (drop_kid nm u))"
        using remove_child_rep [OF w(2) Some pp d] .
      with run d Some show thesis by (intro that) (simp_all add: forest_remove_def)
    qed
  qed
qed

end
