(* ===== verification/Vfs_Correct.thy ===== *)
theory Vfs_Correct
  imports Vfs_Update
begin

text \<open>
  Mounting and unmounting of in-memory file systems, and the properties of the virtual file system
  over them.
\<close>

section \<open>Mounting\<close>

text \<open>The mount table, the trees and the cache, with or without a root mount: before the first mount
  all three are empty.\<close>

definition vfs_tables :: "ramfs_heap vfs \<Rightarrow> forest \<Rightarrow> bool" where
  "vfs_tables v M \<longleftrightarrow> s_vfs_initialized v \<and> (\<exists>ms. s_mounts v = Some ms \<and> mounts_tab ms M) \<and>
     forest_rep (v_kernel v) M \<and> cache_rep (v_cache v) M"

lemma vfs_rep_tables: "vfs_rep v M \<longleftrightarrow> vfs_tables v M \<and> M [] \<noteq> None \<and> s_root_mount v \<noteq> None"
  by (auto simp: vfs_rep_def vfs_tables_def)

lemma mount_point_new: "M ps \<noteq> None \<Longrightarrow> mount_point M ps = ps"
  by (cases ps rule: rev_cases) (auto simp: mount_point_def)

lemma mount_point_other:
  assumes "\<not> prefix ps qs"
  shows "mount_point (M(ps := w)) qs = mount_point M qs"
proof -
  have "x \<noteq> ps" if "x \<in> set (prefixes qs)" for x using that assms by auto
  then have "filter (\<lambda>ms. (M(ps := w)) ms \<noteq> None) (prefixes qs) = filter (\<lambda>ms. M ms \<noteq> None) (prefixes qs)"
    by (intro filter_cong) auto
  then show ?thesis by (simp add: mount_point_def)
qed

lemma denotes_other:
  assumes "\<not> prefix ps qs" and "M [] \<noteq> None"
  shows "denotes (M(ps := w)) qs = denotes M qs"
proof -
  have "prefix (mount_point M qs) qs" using mount_point_facts(2) [where M = M] assms(2) by blast
  then have "mount_point M qs \<noteq> ps" using assms(1) by auto
  then show ?thesis unfolding denotes_def mount_point_other [OF assms(1)] by simp
qed

lemma ramfs_mount_rep:
  assumes "k_mallocs k = []"
  defines "n \<equiv> k_last k + 1"
  obtains k' where "ramfs_mount k params = Some ((VFS_RES_OK, n), k')"
    "rtree_rep k' NULL (RTree n (n + 1) [] VFS_NODE_DIRECTORY [] [])"
    "\<forall>m. m \<noteq> n \<longrightarrow> k_nodes k' m = k_nodes k m" "\<forall>p. p \<noteq> n + 1 \<longrightarrow> k_drv k' p = k_drv k p"
    "k_mallocs k' = []" "n + 1 \<le> k_last k'"
proof -
  obtain k' where k': "ramfs_new_node k (Some []) VFS_NODE_DIRECTORY = Some (k_last k + 1, k')"
    "k_nodes k' = (k_nodes k)(k_last k + 1 \<mapsto> \<lparr>n_name = Some [], n_type = VFS_NODE_DIRECTORY, n_flags = 0, n_parent = NULL,
       n_mount = NULL, n_ops = RAMFS_NODE_OPS, n_data = k_last k + 2\<rparr>)"
    "k_drv k' = (k_drv k)(k_last k + 2 \<mapsto> \<lparr>r_children = (if VFS_NODE_DIRECTORY = VFS_NODE_DIRECTORY then Some [] else None),
       r_data = [], r_size = 0, r_capacity = 0\<rparr>)"
    "k_mallocs k' = []" "k_last k + 2 \<le> k_last k'"
    using assms(1) by (rule ramfs_new_node_ok)
  show thesis
    by (rule that [of k']) (use k' in \<open>simp_all add: ramfs_mount_def n_def node_rep_def file_ok_empty\<close>)
qed

lemma tree_good_new:
  assumes "rtree_rep k NULL (RTree n p nm VFS_NODE_DIRECTORY [] [])" and "n \<le> k_last k" and "p \<le> k_last k"
  shows "tree_good k (RTree n p nm VFS_NODE_DIRECTORY [] [])"
  using assms by (simp add: tree_good_def)

text \<open>A tree on fresh addresses joins the forest.\<close>

lemma forest_rep_new:
  assumes fr: "forest_rep k M" and ps: "M ps = None" and n: "k_last k < n" "k_last k < p" "n \<le> k_last k'" "p \<le> k_last k'"
    and rep: "rtree_rep k' NULL (RTree n p nm VFS_NODE_DIRECTORY [] [])"
    and kn: "\<And>m. m \<noteq> n \<Longrightarrow> k_nodes k' m = k_nodes k m" and kd: "\<And>q. q \<noteq> p \<Longrightarrow> k_drv k' q = k_drv k q"
    and m: "k_mallocs k' = []"
  shows "forest_rep k' (M(ps \<mapsto> RTree n p nm VFS_NODE_DIRECTORY [] []))"
proof -
  have old: "tree_good k' t \<and> n \<notin> set (nodes_of t) \<and> p \<notin> set (pays_of t)" if "M ms = Some t" for ms t
  proof -
    note g = forest_rep_tree [OF fr that]
    have b: "\<forall>x \<in> set (nodes_of t). x \<le> k_last k" "\<forall>x \<in> set (pays_of t). x \<le> k_last k"
      using tree_goodD(5) [OF g] by auto
    then have f: "n \<notin> set (nodes_of t)" "p \<notin> set (pays_of t)" using n by (meson leD)+
    then have "\<forall>m \<in> set (nodes_of t). k_nodes k' m = k_nodes k m" "\<forall>q \<in> set (pays_of t). k_drv k' q = k_drv k q"
      using kn kd by metis+
    then have "tree_good k' t" using n by (intro tree_good_frame [OF g]) simp_all
    with f show ?thesis by blast
  qed
  have "apart t t'" if "M ms = Some t" "M ms' = Some t'" "ms \<noteq> ms'" for ms ms' t t'
    using fr that by (auto simp: forest_rep_def)
  with old m tree_good_new [OF rep n(3,4)] show ?thesis by (auto simp: forest_rep_def apart_def)
qed

lemma mounts_tab_path:
  assumes "mounts_tab ms M" and "list_all plain_segment ps"
  shows "path_of ps \<in> m_path ` set ms \<longleftrightarrow> M ps \<noteq> None"
proof
  assume "path_of ps \<in> m_path ` set ms"
  then obtain m where m: "m \<in> set ms" "m_path m = path_of ps" by auto
  with assms(1) obtain ss t where "list_all plain_segment ss" "m_path m = path_of ss" "M ss = Some t"
    unfolding mounts_tab_def by blast
  with m(2) path_of_inject [OF assms(2)] show "M ps \<noteq> None" by (metis option.distinct(1))
next
  assume "M ps \<noteq> None"
  with assms(1) obtain m where "m \<in> set ms" "m_path m = path_of ps" unfolding mounts_tab_def by blast
  then show "path_of ps \<in> m_path ` set ms" by force
qed

lemma mounts_tab_new:
  assumes tab: "mounts_tab ms M" and ps: "list_all plain_segment ps" and free: "M ps = None"
    and m: "m_path mount = path_of ps" "m_root mount = t_node t" "fs_op op_unmount (m_fs mount) = Some ramfs_unmount"
  shows "mounts_tab (ms @ [mount]) (M(ps \<mapsto> t))"
  unfolding mounts_tab_def
proof (intro conjI)
  have new: "path_of ps \<notin> m_path ` set ms" using mounts_tab_path [OF tab ps] free by simp
  then show "distinct (map m_path (ms @ [mount]))" using tab m(1) by (auto simp: mounts_tab_def)
  show "\<forall>x \<in> set (ms @ [mount]). \<exists>ss u. list_all plain_segment ss \<and> m_path x = path_of ss \<and> (M(ps \<mapsto> t)) ss = Some u \<and>
      m_root x = t_node u \<and> fs_op op_unmount (m_fs x) = Some ramfs_unmount"
  proof
    fix x assume "x \<in> set (ms @ [mount])"
    then consider "x = mount" | "x \<in> set ms" by auto
    then show "\<exists>ss u. list_all plain_segment ss \<and> m_path x = path_of ss \<and> (M(ps \<mapsto> t)) ss = Some u \<and>
      m_root x = t_node u \<and> fs_op op_unmount (m_fs x) = Some ramfs_unmount"
    proof cases
      case 1
      then show ?thesis using ps m by (intro exI [of _ ps] exI [of _ t]) simp
    next
      case 2
      with tab obtain ss u where u: "list_all plain_segment ss" "m_path x = path_of ss" "M ss = Some u"
        "m_root x = t_node u" "fs_op op_unmount (m_fs x) = Some ramfs_unmount" unfolding mounts_tab_def by blast
      moreover have "ss \<noteq> ps" using u(3) free by auto
      ultimately show ?thesis by (intro exI [of _ ss] exI [of _ u]) simp
    qed
  qed
  show "\<forall>ss. (M(ps \<mapsto> t)) ss \<noteq> None \<longrightarrow> list_all plain_segment ss \<and> (\<exists>x \<in> set (ms @ [mount]). m_path x = path_of ss)"
    using tab ps m(1) by (auto simp: mounts_tab_def)
qed

lemma mount_rep:
  assumes v: "vfs_tables v M" and norm: "vfs_normalize_path target VFS_PATH_MAX = Inr (path_of ps)"
    and ps: "list_all plain_segment ps" and root: "ps = [] \<or> M [] \<noteq> None" and free: "M ps = None"
    and fs: "fs_ops fs = Some s_ramfs_ops"
  defines "n \<equiv> k_last (v_kernel v) + 1"
  obtains mount v' where "VFS_Mount v target (Some fs) params = Some (Some mount, v')" "m_root mount = n"
    "m_path mount = path_of ps" "vfs_tables v' (M(ps \<mapsto> RTree n (n + 1) [] VFS_NODE_DIRECTORY [] []))"
    "s_root_mount v' = (if ps = [] then Some mount else s_root_mount v)"
proof -
  let ?t = "RTree n (n + 1) [] VFS_NODE_DIRECTORY [] []"
  let ?M = "M(ps \<mapsto> ?t)"
  from v obtain ms where init: "s_vfs_initialized v" and ms: "s_mounts v = Some ms" "mounts_tab ms M"
    and fr: "forest_rep (v_kernel v) M" and cr: "cache_rep (v_cache v) M" by (auto simp: vfs_tables_def)
  have "path_of ps \<notin> m_path ` set ms" using mounts_tab_path [OF ms(2) ps] free by simp
  then have nex: "\<not> list_ex (\<lambda>m. m_path m = path_of ps) ms" by (force simp: list_ex_iff)
  have m0: "k_mallocs (v_kernel v) = []" using fr by (simp add: forest_rep_def)
  obtain k1 where k1: "ramfs_mount (v_kernel v) params = Some ((VFS_RES_OK, n), k1)"
    "rtree_rep k1 NULL ?t" "\<forall>m. m \<noteq> n \<longrightarrow> k_nodes k1 m = k_nodes (v_kernel v) m"
    "\<forall>p. p \<noteq> n + 1 \<longrightarrow> k_drv k1 p = k_drv (v_kernel v) p" "k_mallocs k1 = []" "n + 1 \<le> k_last k1"
    using ramfs_mount_rep [OF m0, of params, folded n_def] .
  obtain nd where nd: "k_nodes k1 n = Some nd" using k1(2) by (auto simp: node_rep_def)
  define mount where "mount = \<lparr>m_self = k_last k1 + 1, m_path = path_of ps, m_fs = fs, m_root = n,
    m_flags = (case params of None \<Rightarrow> 0 | Some ps \<Rightarrow> p_flags ps)\<rparr>"
  define k2 where "k2 = set_node (k1\<lparr>k_last := k_last k1 + 2\<rparr>) n
    (nd\<lparr>n_mount := m_self mount, n_flags := n_flags nd OR VFS_NODE_FLAG_MOUNTPOINT, n_parent := NULL\<rparr>)"
  define k3 where "k3 = k2\<lparr>k_last := k_last k2 + 1\<rparr>"
  have mal: "kmalloc k1 = (k_last k1 + 1, k1\<lparr>k_last := k_last k1 + 1\<rparr>)"
    "kstrdup (k1\<lparr>k_last := k_last k1 + 1\<rparr>) = Some (k1\<lparr>k_last := k_last k1 + 2\<rparr>)"
    using k1(5) by (simp_all add: kmalloc_no_failure kstrdup_def)
  have att: "vfs_attach_mount_to_tree (k1\<lparr>k_last := k_last k1 + 2\<rparr>) mount = Some k2"
    using nd by (simp add: vfs_attach_mount_to_tree_def mount_def n_def k2_def)
  have add: "list_add k2 mount ms = (ms @ [mount], k3)"
    using k1(5) by (simp add: list_add_def kmalloc_no_failure k2_def k3_def set_node_def)
  have rep3: "rtree_rep k3 NULL ?t"
    using k1(2) nd by (auto simp: node_rep_def k3_def k2_def set_node_def)
  have f3: "forest_rep k3 ?M"
    by (rule forest_rep_new [OF fr free _ _ _ _ rep3])
      (use k1 in \<open>simp_all add: n_def k3_def k2_def set_node_def\<close>)
  have den: "denotes ?M ps = Some ?t" by (simp add: denotes_def mount_point_new)
  have c0: "cache_rep (vfs_cache_remove_prefix (path_of ps) (v_cache v)) ?M"
  proof (rule cache_rep_transfer [OF cr remove_prefix_entries])
    fix qs assume "list_all plain_segment qs" "\<not> vfs_cache_path_is_under (path_of qs) (path_of ps)"
    then have "\<not> prefix ps qs" using under_prefix ps by blast
    moreover from this root have "M [] \<noteq> None" by auto
    ultimately show "same_node (denotes M qs) (denotes ?M qs)" using denotes_other by simp
  qed
  have "k_mallocs k3 = []" using k1(5) by (simp add: k3_def k2_def set_node_def)
  then obtain c' k4 where
    ins: "vfs_cache_insert k3 (path_of ps) n (vfs_cache_remove_prefix (path_of ps) (v_cache v)) = Some (c', k4)"
    "cache_rep c' ?M" "allocates k3 k4"
    using cache_rep_insert [OF c0 ps den, of k3] by auto
  let ?v = "v\<lparr>s_mounts := Some (ms @ [mount]), s_root_mount := (if ps = [] then Some mount else s_root_mount v),
    v_cache := c', v_kernel := k4\<rparr>"
  have op: "fs_op op_mount fs = Some ramfs_mount" "fs_op op_unmount fs = Some ramfs_unmount"
    using fs by (simp_all add: fs_op_def s_ramfs_ops_def)
  have path: "m_path mount = path_of ps" "m_root mount = n" "path_of ps = ''/'' \<longleftrightarrow> ps = []"
    using path_of_inject [OF ps, of "[]"] by (auto simp: mount_def)
  have folded: "\<lparr>m_self = Suc (k_last k1), m_path = path_of ps, m_fs = fs, m_root = n,
    m_flags = (case params of None \<Rightarrow> 0 | Some ps \<Rightarrow> p_flags ps)\<rparr> = mount" and nz: "n \<noteq> NULL"
    by (simp_all add: mount_def n_def)
  have "VFS_Mount v target (Some fs) params = Some (Some mount, ?v)"
    using init op norm nex ms(1) k1(1) mal att add ins(1) path nz
    by (simp add: VFS_Mount_def elems_def folded)
  moreover have "vfs_tables ?v ?M"
    using init mounts_tab_new [OF ms(2) ps free path(1), of ?t] path(2) op(2) ins(2) allocates_forest [OF f3 ins(3)]
    by (simp add: vfs_tables_def mount_def)
  ultimately show thesis using path that by simp
qed

section \<open>Unmounting\<close>

lemma forest_rep_erase:
  assumes fr: "forest_rep k M" and t: "M ps = Some t"
  shows "forest_rep (erase k (set (nodes_of t)) (set (pays_of t))) (M(ps := None))"
proof -
  let ?k = "erase k (set (nodes_of t)) (set (pays_of t))"
  have "tree_good ?k s" if "M ms = Some s" "ms \<noteq> ps" for ms s
  proof -
    have "apart s t" using fr t that by (auto simp: forest_rep_def)
    then show ?thesis
      by (intro tree_good_frame [OF forest_rep_tree [OF fr that(1)]]) (auto simp: apart_def)
  qed
  then show ?thesis using fr by (auto simp: forest_rep_def)
qed

lemma mounts_tab_remove:
  assumes tab: "mounts_tab ms M" and i: "i < length ms" "m_path (ms ! i) = path_of ps" and ps: "list_all plain_segment ps"
  shows "mounts_tab (remove_nth i ms) (M(ps := None))"
proof -
  have d: "distinct (map m_path ms)" using tab by (simp add: mounts_tab_def)
  have ms: "ms = take i ms @ ms ! i # drop (Suc i) ms" using i(1) by (rule id_take_nth_drop)
  have r: "remove_nth i ms = take i ms @ drop (Suc i) ms" by (simp add: remove_nth_def)
  have set: "x \<in> set (remove_nth i ms) \<longleftrightarrow> x \<in> set ms \<and> m_path x \<noteq> path_of ps" for x
  proof -
    have "distinct (map m_path (take i ms @ ms ! i # drop (Suc i) ms))" using d ms by simp
    then have "\<forall>y \<in> set (take i ms) \<union> set (drop (Suc i) ms). m_path y \<noteq> path_of ps"
      using i(2) by (auto simp: rev_image_eqI)
    moreover have "set ms = set (take i ms) \<union> {ms ! i} \<union> set (drop (Suc i) ms)" by (subst ms) auto
    ultimately show ?thesis using i(2) by (auto simp: r)
  qed
  have "distinct (map m_path (remove_nth i ms))" using d by (subst (asm) ms) (auto simp: r)
  moreover have "\<exists>ss t. list_all plain_segment ss \<and> m_path x = path_of ss \<and> (M(ps := None)) ss = Some t \<and>
      m_root x = t_node t \<and> fs_op op_unmount (m_fs x) = Some ramfs_unmount" if "x \<in> set (remove_nth i ms)" for x
  proof -
    from that set have x: "x \<in> set ms" "m_path x \<noteq> path_of ps" by auto
    from x(1) tab obtain ss t where t: "list_all plain_segment ss" "m_path x = path_of ss" "M ss = Some t"
        "m_root x = t_node t" "fs_op op_unmount (m_fs x) = Some ramfs_unmount" unfolding mounts_tab_def by blast
    moreover have "ss \<noteq> ps" using t(2) x(2) by auto
    ultimately show ?thesis by (intro exI [of _ ss] exI [of _ t]) simp
  qed
  moreover have "list_all plain_segment ss \<and> (\<exists>x \<in> set (remove_nth i ms). m_path x = path_of ss)"
    if "(M(ps := None)) ss \<noteq> None" for ss
  proof -
    have ss: "M ss \<noteq> None" "ss \<noteq> ps" using that by (auto split: if_splits)
    with tab obtain x where x: "list_all plain_segment ss" "x \<in> set ms" "m_path x = path_of ss" unfolding mounts_tab_def by blast
    moreover have "path_of ss \<noteq> path_of ps" using path_of_inject [OF x(1) ps] ss(2) by auto
    ultimately show ?thesis using set by auto
  qed
  ultimately show ?thesis unfolding mounts_tab_def by blast
qed

lemma unmount_rep:
  assumes v: "vfs_rep v M" and norm: "vfs_normalize_path target VFS_PATH_MAX = Inr (path_of ps)"
    and ps: "list_all plain_segment ps" and t: "M ps = Some t" and ne: "ps \<noteq> []"
  obtains v' where "VFS_Unmount v target = Some (VFS_RES_OK, v')" "vfs_rep v' (M(ps := None))"
proof -
  from v obtain ms where init: "s_vfs_initialized v" and ms: "s_mounts v = Some ms" "mounts_tab ms M"
    and fr: "forest_rep (v_kernel v) M" and cr: "cache_rep (v_cache v) M" and root: "M [] \<noteq> None"
    by (auto simp: vfs_rep_def)
  have "path_of ps \<in> m_path ` set ms" using mounts_tab_path [OF ms(2) ps] t by simp
  then obtain i where fi: "first_index (\<lambda>m. m_path m = path_of ps) ms = Some i"
    by (cases "first_index (\<lambda>m. m_path m = path_of ps) ms") (auto simp: find_index_from_None)
  then have i: "i < length ms" "m_path (ms ! i) = path_of ps" by (auto dest: first_index_SomeD)
  then obtain ss u where u: "list_all plain_segment ss" "m_path (ms ! i) = path_of ss" "M ss = Some u"
      "m_root (ms ! i) = t_node u" "fs_op op_unmount (m_fs (ms ! i)) = Some ramfs_unmount"
    using ms(2) nth_mem unfolding mounts_tab_def by blast
  have "ss = ps" using path_of_inject [OF u(1) ps] u(2) i(2) by simp
  then have ut: "u = t" using u(3) t by simp
  note g = tree_goodD [OF forest_rep_tree [OF fr t]]
  let ?k = "erase (v_kernel v) (set (nodes_of t)) (set (pays_of t))"
  have run: "run_unmount (m_fs (ms ! i)) (m_root (ms ! i)) (v_kernel v) = Some ?k"
    using u(4,5) ut ramfs_free_tree [OF g(1,3,4,2)]
    by (simp add: run_unmount_def ramfs_unmount_def ramfs_free_node_def)
  have "path_of ps \<noteq> ''/''" using path_of_inject [OF ps, of "[]"] ne by auto
  then have eq: "VFS_Unmount v target = Some (VFS_RES_OK, v\<lparr>s_mounts := Some (remove_nth i ms),
      v_cache := vfs_cache_remove_prefix (path_of ps) (v_cache v), v_kernel := ?k\<rparr>)" (is "_ = Some (_, ?v)")
    using init norm ms(1) fi i(2) run by (simp add: VFS_Unmount_def elems_def Let_def)
  have "cache_rep (vfs_cache_remove_prefix (path_of ps) (v_cache v)) (M(ps := None))"
  proof (rule cache_rep_transfer [OF cr remove_prefix_entries])
    fix qs assume "list_all plain_segment qs" "\<not> vfs_cache_path_is_under (path_of qs) (path_of ps)"
    then have "\<not> prefix ps qs" using under_prefix ps by blast
    from denotes_other [where M = M, OF this root] show "same_node (denotes M qs) (denotes (M(ps := None)) qs)" by simp
  qed
  then have "vfs_rep ?v (M(ps := None))"
    using v root ne mounts_tab_remove [OF ms(2) i ps] forest_rep_erase [OF fr t] by (simp add: vfs_rep_def)
  with eq that show thesis by blast
qed

section \<open>Sequences of calls\<close>

text \<open>The calls that change the name space, as the kernel makes them with in-memory file systems, with
  their result codes. \<open>VFS_Mount\<close> returns the mount or a null pointer, and \<open>VFS_Resolve\<close> also the
  node.\<close>

datatype vfs_call =
    Call_Create string VFSNodeType
  | Call_Remove string
  | Call_Resolve string
  | Call_Mount string
  | Call_Unmount string

datatype vfs_reply = Reply VFSResult | Reply_node VFSResult ptr | Reply_mounted bool

definition call_vfs ::
  "ramfs_heap kernel VFSFileSystem \<Rightarrow> ramfs_heap vfs \<Rightarrow> vfs_call \<Rightarrow> (vfs_reply \<times> ramfs_heap vfs) option" where
  "call_vfs fs v c =
     (case c of
        Call_Create path type \<Rightarrow> do { (r, v) \<leftarrow> VFS_Create ram_tbl v path type; Some (Reply r, v) }
      | Call_Remove path \<Rightarrow> do { (r, v) \<leftarrow> VFS_Remove ram_tbl v path; Some (Reply r, v) }
      | Call_Resolve path \<Rightarrow> do { ((r, n), v) \<leftarrow> VFS_Resolve ram_tbl v path; Some (Reply_node r n, v) }
      | Call_Mount target \<Rightarrow> do { (m, v) \<leftarrow> VFS_Mount v target (Some fs) None; Some (Reply_mounted (m \<noteq> None), v) }
      | Call_Unmount target \<Rightarrow> do { (r, v) \<leftarrow> VFS_Unmount v target; Some (Reply r, v) })"

fun calls_vfs ::
  "ramfs_heap kernel VFSFileSystem \<Rightarrow> ramfs_heap vfs \<Rightarrow> vfs_call list \<Rightarrow> (vfs_reply list \<times> ramfs_heap vfs) option" where
  "calls_vfs fs v [] = Some ([], v)"
| "calls_vfs fs v (c # cs) = do { (r, v) \<leftarrow> call_vfs fs v c; (rs, v) \<leftarrow> calls_vfs fs v cs; Some (r # rs, v) }"

text \<open>The same calls on forests, without caches and stores. A path is what normalisation makes of it:
  an error code or a list of segments. The addresses of new nodes are the only choice.\<close>

definition call_path :: "string \<Rightarrow> VFSResult + string list" where
  "call_path path = (case vfs_normalize_path path VFS_PATH_MAX of Inl r \<Rightarrow> Inl r | Inr p \<Rightarrow> Inr (segs p))"

inductive forest_call :: "forest \<Rightarrow> vfs_call \<Rightarrow> vfs_reply \<Rightarrow> forest \<Rightarrow> bool" where
  create_unknown: "forest_call M (Call_Create path VFS_NODE_UNKNOWN) (Reply VFS_RES_INVALID) M"
| create_path: "type \<noteq> VFS_NODE_UNKNOWN \<Longrightarrow> call_path path = Inl r \<Longrightarrow> forest_call M (Call_Create path type) (Reply r) M"
| create_root: "type \<noteq> VFS_NODE_UNKNOWN \<Longrightarrow> call_path path = Inr [] \<Longrightarrow>
    forest_call M (Call_Create path type) (Reply VFS_RES_EXISTS) M"
| create: "type \<noteq> VFS_NODE_UNKNOWN \<Longrightarrow> call_path path = Inr (pp @ [nm]) \<Longrightarrow> forest_create n p type M pp nm = (r, M') \<Longrightarrow>
    forest_call M (Call_Create path type) (Reply r) M'"
| remove_path: "call_path path = Inl r \<Longrightarrow> forest_call M (Call_Remove path) (Reply r) M"
| remove_root: "call_path path = Inr [] \<Longrightarrow> forest_call M (Call_Remove path) (Reply VFS_RES_BUSY) M"
| remove: "call_path path = Inr (pp @ [nm]) \<Longrightarrow> forest_remove M pp nm = (r, M') \<Longrightarrow>
    forest_call M (Call_Remove path) (Reply r) M'"
| resolve_path: "call_path path = Inl r \<Longrightarrow> forest_call M (Call_Resolve path) (Reply_node r NULL) M"
| resolve_absent: "call_path path = Inr ps \<Longrightarrow> denotes M ps = None \<Longrightarrow>
    forest_call M (Call_Resolve path) (Reply_node VFS_RES_NOT_FOUND NULL) M"
| resolve: "call_path path = Inr ps \<Longrightarrow> denotes M ps = Some u \<Longrightarrow>
    forest_call M (Call_Resolve path) (Reply_node VFS_RES_OK (t_node u)) M"
| mount_path: "call_path target = Inl r \<Longrightarrow> forest_call M (Call_Mount target) (Reply_mounted False) M"
| mount_busy: "call_path target = Inr ps \<Longrightarrow> M ps \<noteq> None \<Longrightarrow> forest_call M (Call_Mount target) (Reply_mounted False) M"
| mount: "call_path target = Inr ps \<Longrightarrow> M ps = None \<Longrightarrow>
    forest_call M (Call_Mount target) (Reply_mounted True) (M(ps \<mapsto> RTree n p [] VFS_NODE_DIRECTORY [] []))"
| unmount_path: "call_path target = Inl r \<Longrightarrow> forest_call M (Call_Unmount target) (Reply r) M"
| unmount_absent: "call_path target = Inr ps \<Longrightarrow> M ps = None \<Longrightarrow>
    forest_call M (Call_Unmount target) (Reply VFS_RES_NOT_FOUND) M"
| unmount_root: "call_path target = Inr [] \<Longrightarrow> M [] \<noteq> None \<Longrightarrow> forest_call M (Call_Unmount target) (Reply VFS_RES_BUSY) M"
| unmount: "call_path target = Inr ps \<Longrightarrow> ps \<noteq> [] \<Longrightarrow> M ps \<noteq> None \<Longrightarrow>
    forest_call M (Call_Unmount target) (Reply VFS_RES_OK) (M(ps := None))"

inductive forest_calls :: "forest \<Rightarrow> vfs_call list \<Rightarrow> vfs_reply list \<Rightarrow> forest \<Rightarrow> bool" where
  forest_calls_Nil: "forest_calls M [] [] M"
| forest_calls_Cons: "forest_call M c r M' \<Longrightarrow> forest_calls M' cs rs M'' \<Longrightarrow> forest_calls M (c # cs) (r # rs) M''"

lemma call_path_cases:
  obtains (bad) r where "vfs_normalize_path path VFS_PATH_MAX = Inl r" "call_path path = Inl r"
  | (good) ps where "vfs_normalize_path path VFS_PATH_MAX = Inr (path_of ps)" "call_path path = Inr ps" "list_all plain_segment ps"
proof (cases "vfs_normalize_path path VFS_PATH_MAX")
  case (Inl r)
  then show thesis using bad by (simp add: call_path_def)
next
  case (Inr out)
  with normalize_result [OF Inr] obtain ps where "list_all plain_segment ps" "out = path_of ps"
    by (auto simp: normal_path_def VFS_PATH_MAX_def)
  with Inr show thesis using good [of ps] plain_proper_list by (simp add: call_path_def)
qed

lemma vfs_rep_init: "vfs_rep v M \<Longrightarrow> s_vfs_initialized v \<and> s_root_mount v \<noteq> None"
  by (simp add: vfs_rep_def)

lemma create_refines:
  assumes "vfs_rep v M"
  shows "\<exists>r v' M'. VFS_Create ram_tbl v path type = Some (r, v') \<and> forest_call M (Call_Create path type) (Reply r) M' \<and> vfs_rep v' M'"
proof (cases "type = VFS_NODE_UNKNOWN")
  case True
  then show ?thesis using assms by (auto simp: VFS_Create_def intro: create_unknown)
next
  case ty: False
  have init: "s_vfs_initialized v" using assms by (simp add: vfs_rep_def)
  show ?thesis
  proof (cases path rule: call_path_cases)
    case (bad r)
    then show ?thesis using assms ty init by (auto simp: VFS_Create_def intro: create_path)
  next
    case (good ps)
    show ?thesis
    proof (cases ps rule: rev_cases)
      case Nil
      then show ?thesis using good assms ty init by (auto simp: VFS_Create_def intro: create_root)
    next
      case (snoc pp nm)
      obtain n p v' where "VFS_Create ram_tbl v path type = Some (fst (forest_create n p type M pp nm), v')"
        "vfs_rep v' (snd (forest_create n p type M pp nm))" using create_rep [OF assms _ _ ty] good snoc by metis
      with good(2) snoc ty show ?thesis using create by (metis prod.collapse)
    qed
  qed
qed

lemma remove_refines:
  assumes "vfs_rep v M"
  shows "\<exists>r v' M'. VFS_Remove ram_tbl v path = Some (r, v') \<and> forest_call M (Call_Remove path) (Reply r) M' \<and> vfs_rep v' M'"
proof (cases path rule: call_path_cases)
  case (bad r)
  then show ?thesis using assms vfs_rep_init [OF assms] by (auto simp: VFS_Remove_def intro: remove_path)
next
  case (good ps)
  show ?thesis
  proof (cases ps rule: rev_cases)
    case Nil
    then show ?thesis using good assms vfs_rep_init [OF assms] by (auto simp: VFS_Remove_def intro: remove_root)
  next
    case (snoc pp nm)
    obtain v' where "VFS_Remove ram_tbl v path = Some (fst (forest_remove M pp nm), v')"
      "vfs_rep v' (snd (forest_remove M pp nm))" using remove_rep [OF assms] good snoc by metis
    with good(2) snoc show ?thesis using remove by (metis prod.collapse)
  qed
qed

lemma resolve_refines:
  assumes "vfs_rep v M"
  shows "\<exists>r n v'. VFS_Resolve ram_tbl v path = Some ((r, n), v') \<and> forest_call M (Call_Resolve path) (Reply_node r n) M \<and> vfs_rep v' M"
proof (cases path rule: call_path_cases)
  case (bad r)
  then show ?thesis using assms vfs_rep_init [OF assms] by (auto simp: VFS_Resolve_def intro: resolve_path)
next
  case (good ps)
  then show ?thesis
    using resolve_rep [OF assms good(1,3)] resolve_absent resolve by (cases "denotes M ps") (auto, metis+)
qed

lemma mount_refines:
  assumes v: "vfs_rep v M" and fs: "fs_ops fs = Some s_ramfs_ops"
  shows "\<exists>m v' M'. VFS_Mount v target (Some fs) None = Some (m, v') \<and>
    forest_call M (Call_Mount target) (Reply_mounted (m \<noteq> None)) M' \<and> vfs_rep v' M'"
proof -
  from v obtain ms where init: "s_vfs_initialized v" and ms: "s_mounts v = Some ms" "mounts_tab ms M" and root: "M [] \<noteq> None"
    by (auto simp: vfs_rep_def)
  have op: "fs_op op_mount fs = Some ramfs_mount" using fs by (simp add: fs_op_def s_ramfs_ops_def)
  show ?thesis
  proof (cases target rule: call_path_cases)
    case (bad r)
    then show ?thesis using v init op by (auto simp: VFS_Mount_def intro: mount_path)
  next
    case (good ps)
    show ?thesis
    proof (cases "M ps")
      case None
      have tab: "vfs_tables v M" using v by (simp add: vfs_rep_tables)
      let ?n = "k_last (v_kernel v) + 1"
      let ?M = "M(ps \<mapsto> RTree ?n (?n + 1) [] VFS_NODE_DIRECTORY [] [])"
      obtain mount v' where m: "VFS_Mount v target (Some fs) None = Some (Some mount, v')" "vfs_tables v' ?M"
        "s_root_mount v' = (if ps = [] then Some mount else s_root_mount v)"
        using mount_rep [OF tab good(1,3) _ None fs] root by metis
      have "vfs_rep v' ?M" using m(2,3) v root by (auto simp: vfs_rep_tables)
      moreover have "forest_call M (Call_Mount target) (Reply_mounted True) ?M"
        by (rule forest_call.mount [where M = M, OF good(2) None])
      ultimately show ?thesis using m(1) by auto
    next
      case (Some t)
      then have "path_of ps \<in> m_path ` set ms" using mounts_tab_path [OF ms(2) good(3)] by simp
      then have "list_ex (\<lambda>m. m_path m = path_of ps) ms" by (auto simp: list_ex_iff)
      then have "VFS_Mount v target (Some fs) None = Some (None, v)"
        using init op good(1) ms(1) by (simp add: VFS_Mount_def elems_def)
      then show ?thesis using v mount_busy [where M = M, OF good(2)] Some by auto
    qed
  qed
qed

lemma unmount_refines:
  assumes v: "vfs_rep v M"
  shows "\<exists>r v' M'. VFS_Unmount v target = Some (r, v') \<and> forest_call M (Call_Unmount target) (Reply r) M' \<and> vfs_rep v' M'"
proof -
  from v obtain ms where init: "s_vfs_initialized v" and ms: "s_mounts v = Some ms" "mounts_tab ms M" and root: "M [] \<noteq> None"
    by (auto simp: vfs_rep_def)
  show ?thesis
  proof (cases target rule: call_path_cases)
    case (bad r)
    then show ?thesis using v init by (auto simp: VFS_Unmount_def intro: unmount_path)
  next
    case (good ps)
    note path = mounts_tab_path [OF ms(2) good(3)]
    show ?thesis
    proof (cases "first_index (\<lambda>m. m_path m = path_of ps) ms")
      case None
      then have "M ps = None" using path by (auto simp: find_index_from_None)
      then show ?thesis using v init ms(1) None good by (auto simp: VFS_Unmount_def elems_def intro: unmount_absent)
    next
      case (Some i)
      then have i: "i < length ms" "m_path (ms ! i) = path_of ps" by (auto dest: first_index_SomeD)
      then obtain t where t: "M ps = Some t" using path by (metis image_eqI not_None_eq nth_mem)
      show ?thesis
      proof (cases "ps = []")
        case True
        then show ?thesis using v init ms(1) Some good i(2) t by (auto simp: VFS_Unmount_def elems_def intro: unmount_root)
      next
        case False
        then show ?thesis using unmount_rep [OF v good(1,3) t] unmount [where M = M, OF good(2)] t by (metis option.distinct(1))
      qed
    qed
  qed
qed

lemma call_refines:
  assumes "vfs_rep v M" and "fs_ops fs = Some s_ramfs_ops"
  shows "\<exists>r v' M'. call_vfs fs v c = Some (r, v') \<and> forest_call M c r M' \<and> vfs_rep v' M'"
proof (cases c)
  case (Call_Create path type)
  with create_refines [OF assms(1), of path type] show ?thesis by (auto simp: call_vfs_def)
next
  case (Call_Remove path)
  with remove_refines [OF assms(1), of path] show ?thesis by (auto simp: call_vfs_def)
next
  case (Call_Resolve path)
  with resolve_refines [OF assms(1), of path] show ?thesis by (auto simp: call_vfs_def)
next
  case (Call_Mount target)
  with mount_refines [OF assms, of target] show ?thesis by (auto simp: call_vfs_def)
next
  case (Call_Unmount target)
  with unmount_refines [OF assms(1), of target] show ?thesis by (auto simp: call_vfs_def)
qed

lemma calls_refine:
  assumes "vfs_rep v M" and fs: "fs_ops fs = Some s_ramfs_ops"
  shows "\<exists>rs v' M'. calls_vfs fs v cs = Some (rs, v') \<and> forest_calls M cs rs M' \<and> vfs_rep v' M'"
  using assms(1)
proof (induction cs arbitrary: v M)
  case Nil
  then show ?case by (auto intro: forest_calls.intros)
next
  case (Cons c cs)
  obtain r v1 M1 where 1: "call_vfs fs v c = Some (r, v1)" "forest_call M c r M1" "vfs_rep v1 M1"
    using call_refines [OF Cons.prems fs] by blast
  obtain rs v' M' where "calls_vfs fs v1 cs = Some (rs, v')" "forest_calls M1 cs rs M'" "vfs_rep v' M'"
    using Cons.IH [OF 1(3)] by blast
  with 1 show ?case by (auto intro: forest_calls.intros)
qed

section \<open>From an uninitialised kernel\<close>

lemma init_tables:
  assumes "\<not> s_vfs_initialized v" and "k_mallocs (v_kernel v) = []" and "s_cache_entries (v_cache v) = None"
  shows "vfs_tables (VFS_Init v) Map.empty"
  using assms
  by (simp add: VFS_Init_def vfs_cache_init_def kmalloc_no_failure vfs_tables_def mounts_tab_def forest_rep_def
      cache_rep_entries entries_ok_def)

lemma boot_rep:
  assumes "\<not> s_vfs_initialized v" and "k_mallocs (v_kernel v) = []" and "s_cache_entries (v_cache v) = None"
    and fs: "fs_ops fs = Some s_ramfs_ops"
  obtains mount v' n p where "VFS_Mount (VFS_Init v) ''/'' (Some fs) None = Some (Some mount, v')"
    "vfs_rep v' [[] \<mapsto> RTree n p [] VFS_NODE_DIRECTORY [] []]"
proof -
  have norm: "vfs_normalize_path ''/'' VFS_PATH_MAX = Inr (path_of [])"
    using normalize_path_of [of "[]"] by (simp add: VFS_PATH_MAX_def)
  show thesis
    by (rule mount_rep [OF init_tables [OF assms(1-3)] norm _ _ _ fs, of None])
      (simp_all, rule that, assumption, unfold vfs_rep_tables, intro conjI, assumption, simp_all)
qed

section \<open>Contents of files\<close>

fun set_cont :: "byte list \<Rightarrow> rtree \<Rightarrow> rtree" where
  "set_cont bs (RTree n p nm ty _ ks) = RTree n p nm ty bs ks"

lemma set_cont_facts [simp]:
  "t_node (set_cont bs u) = t_node u" "t_name (set_cont bs u) = t_name u" "t_type (set_cont bs u) = t_type u"
  "t_cont (set_cont bs u) = bs" "t_kids (set_cont bs u) = t_kids u" "t_pay (set_cont bs u) = t_pay u"
  "nodes_of (set_cont bs u) = nodes_of u" "pays_of (set_cont bs u) = pays_of u" "names_ok (set_cont bs u) = names_ok u"
  by (cases u; simp)+

lemma child_set_cont [simp]: "child s (set_cont bs u) = child s u"
  by (simp add: child_def)

lemma tree_file:
  assumes "rtree_rep k par u" and "t_type u = VFS_NODE_REGULAR"
  shows "is_file k (t_node u) (t_pay u) (t_cont u)"
  using assms by (cases u) (auto simp: node_rep_def is_file_def)

lemma ramfs_write_last: "ramfs_write k node h off xs = Some (r, k') \<Longrightarrow> k_last k \<le> k_last k'"
  by (auto simp: ramfs_write_def ramfs_grow_buffer_def set_payload_def kmalloc.simps Let_def
      split: if_splits Option.bind_splits list.splits prod.splits)

lemma write_tree_rep:
  assumes rep: "rtree_rep k par u" and names: "names_ok u" and ty: "t_type u = VFS_NODE_REGULAR"
    and kn: "k_nodes k' = k_nodes k" and pl: "k_drv k (t_pay u) = Some pl"
    and kd: "k_drv k' = (k_drv k)(t_pay u \<mapsto> pl')" and ok: "file_ok pl'" "contents pl' = bs" "r_children pl' = r_children pl"
  shows "rtree_rep k' par (set_cont bs u)"
  using assms by (cases u) (auto simp: node_rep_def)

lemma write_at_rep:
  assumes v: "vfs_rep v M" and den: "denotes M ps = Some u" and ty: "t_type u = VFS_NODE_REGULAR"
    and h: "handle \<noteq> NULL" "v_handles v handle = Some h" "h_node h = t_node u" "vfs_handle_can_write h"
    and bs: "bs \<noteq> []" "off + length bs < 2 ^ 64"
  obtains v' where "VFS_WriteAt ram_tbl v handle off (Some bs) = Some (int64 (length bs), v')"
    "vfs_rep v' (put_at M ps (set_cont (pwrite (t_cont u) off bs) u))" "v_handles v' = v_handles v"
proof -
  have fr: "forest_rep (v_kernel v) M" and cr: "cache_rep (v_cache v) M" and root: "M [] \<noteq> None"
    using v by (auto simp: vfs_rep_def)
  obtain par where r: "rtree_rep (v_kernel v) par u" "names_ok u" "distinct (nodes_of u)" "distinct (pays_of u)"
    using denoted_rep [OF fr den] .
  obtain nd where nd: "k_nodes (v_kernel v) (t_node u) = Some nd" "n_ops nd = RAMFS_NODE_OPS"
    using r(1) by (rule node_denoted)
  have nz: "t_node u \<noteq> NULL" using rtree_rep_root [OF r(1)] by blast
  let ?u = "set_cont (pwrite (t_cont u) off bs) u"
  obtain k' pl pl' where w: "ramfs_write (v_kernel v) (t_node u) (h_driver_handle h) off bs = Some (int64 (length bs), k')"
      "k_nodes k' = k_nodes (v_kernel v)" "k_drv (v_kernel v) (t_pay u) = Some pl"
      "k_drv k' = (k_drv (v_kernel v))(t_pay u \<mapsto> pl')" "file_ok pl'"
      "contents pl' = pwrite (t_cont u) off bs" "r_children pl' = r_children pl" "k_mallocs k' = []"
    using tree_file [OF r(1) ty] bs(2)
    by (rule ramfs_write_file [where h = "h_driver_handle h"]) (use fr in \<open>auto simp: forest_rep_def\<close>)
  have f: "forest_rep k' (put_at M ps ?u)"
  proof (rule put_at_forest [OF fr den])
    show "rtree_rep (v_kernel v) par u \<Longrightarrow> rtree_rep k' par ?u" for par
      by (rule write_tree_rep [OF _ r(2) ty w(2-7)])
    show "k_last (v_kernel v) \<le> k_last k'" by (rule ramfs_write_last [OF w(1)])
    show "k_drv k' p = k_drv (v_kernel v) p" if "p \<notin> set (pays_of u)" for p
      using that w(4) by auto
  qed (use w r in simp_all)
  have "same_node (tree_at u xs) (tree_at ?u xs)" for xs by (cases xs) (auto simp: same_node_def)
  then have "same_node (denotes M qs) (denotes (put_at M ps ?u) qs)" for qs
    by (intro denotes_changed [OF fr root den]) simp_all
  then have "cache_rep (v_cache v) (put_at M ps ?u)"
    by (intro cache_rep_transfer [OF cr, where P = "\<lambda>_. True"]) (simp_all add: map_option_case split: option.split)
  from vfs_rep_put_at [OF v den _ _ f this] have "vfs_rep (v\<lparr>v_kernel := k'\<rparr>) (put_at M ps ?u)" by simp
  moreover have "VFS_WriteAt ram_tbl v handle off (Some bs) = Some (int64 (length bs), v\<lparr>v_kernel := k'\<rparr>)"
    using h bs(1) nz nd w(1) by (simp add: VFS_WriteAt_def handle_op_def s_ramfs_node_ops_def)
  ultimately show thesis using that by simp
qed

lemma read_at_rep:
  assumes v: "vfs_rep v M" and den: "denotes M ps = Some u" and ty: "t_type u = VFS_NODE_REGULAR"
    and h: "handle \<noteq> NULL" "v_handles v handle = Some h" "h_node h = t_node u" "vfs_handle_can_read h" and n: "n \<noteq> 0"
  shows "VFS_ReadAt ram_tbl v handle off True n =
    Some ((int64 (length (pread (t_cont u) off n)), pread (t_cont u) off n), v)"
proof -
  have fr: "forest_rep (v_kernel v) M" using v by (simp add: vfs_rep_def)
  obtain par where r: "rtree_rep (v_kernel v) par u" using denoted_rep [OF fr den] .
  obtain nd where nd: "k_nodes (v_kernel v) (t_node u) = Some nd" "n_ops nd = RAMFS_NODE_OPS"
    using r by (rule node_denoted)
  show ?thesis
    using h n nd rtree_rep_root [OF r] ramfs_read_file [OF tree_file [OF r ty]]
    by (simp add: VFS_ReadAt_def handle_op_def s_ramfs_node_ops_def)
qed

lemma open_rep:
  assumes v: "vfs_rep v M" and path: "call_path path = Inr ps" and den: "denotes M ps = Some u"
    and ty: "t_type u = VFS_NODE_REGULAR"
  obtains handle v' where "VFS_Open ram_tbl v path mode = Some (handle, v')" "handle \<noteq> NULL" "vfs_rep v' M"
    "v_handles v' handle = Some \<lparr>h_node = t_node u, h_driver_handle = NULL, h_mode = mode, h_offset = 0\<rparr>"
proof (cases path rule: call_path_cases)
  case (bad r)
  then show thesis using path by simp
next
  case (good qs)
  then have qs: "qs = ps" using path by simp
  obtain w where w: "VFS_Resolve ram_tbl v path = Some ((VFS_RES_OK, t_node u), w)" "vfs_rep w M"
    using resolve_rep [OF v good(1,3)] den qs by (metis option.simps(5))
  have fr: "forest_rep (v_kernel w) M" using w(2) by (simp add: vfs_rep_def)
  then have m: "k_mallocs (v_kernel w) = []" by (simp add: forest_rep_def)
  let ?k = "(v_kernel w)\<lparr>k_last := k_last (v_kernel w) + 1\<rparr>" and ?h = "k_last (v_kernel w) + 1"
  obtain par where r: "rtree_rep (v_kernel w) par u" using denoted_rep [OF fr den] .
  obtain nd where nd: "k_nodes (v_kernel w) (t_node u) = Some nd" "n_ops nd = RAMFS_NODE_OPS" "n_type nd = t_type u"
    using r by (cases u) (auto simp: node_rep_def)
  have nz: "t_node u \<noteq> NULL" using rtree_rep_root [OF r] by blast
  let ?v = "set_handle (w\<lparr>v_kernel := ?k\<rparr>) ?h (Some \<lparr>h_node = t_node u, h_driver_handle = NULL, h_mode = mode, h_offset = 0\<rparr>)"
  have "forest_rep ?k M" using fr m by (auto intro: forest_rep_alloc)
  then have "vfs_rep ?v M" using w(2) by (simp add: vfs_rep_def set_handle_def)
  moreover have "VFS_Open ram_tbl v path mode = Some (?h, ?v)"
    using w(1) nd ty nz m by (simp add: VFS_Open_def kmalloc_no_failure s_ramfs_node_ops_def ramfs_open_def Let_def)
  ultimately show thesis using that by (simp add: set_handle_def)
qed

text \<open>A new node is found under its path, and no other path changes its meaning.\<close>

lemma denotes_created:
  assumes fr: "forest_rep k M" and root: "M [] \<noteq> None" and den: "denotes M pp = Some u"
    and u: "t_type u = VFS_NODE_DIRECTORY" "child nm u = None" and free: "M (pp @ [nm]) = None" and new: "t_name new = nm"
  shows "denotes (put_at M pp (add_kid new u)) (pp @ [nm]) = Some new"
    and "same_node (denotes M qs) (denotes (put_at M pp (add_kid new u)) qs)"
proof -
  have "mount_point M (pp @ [nm]) = mount_point M pp" using free by (simp add: mount_point_def)
  from denotes_put_at(1) [where M = M and ps = pp and xs = "[nm]" and u' = "add_kid new u", OF fr root den _ _ this]
  show "denotes (put_at M pp (add_kid new u)) (pp @ [nm]) = Some new" using u new by (simp add: child_add_kid)
  show "same_node (denotes M qs) (denotes (put_at M pp (add_kid new u)) qs)"
    by (rule denotes_changed [OF fr root den]) (simp_all add: same_node_add_kid)
qed

text \<open>The nodes below a removed one are gone, whatever handles refer to them.\<close>

lemma remove_frees:
  assumes v: "vfs_rep v M" and path: "call_path path = Inr (pp @ [nm])" and den: "denotes M pp = Some u"
    and u: "t_type u = VFS_NODE_DIRECTORY" "child nm u = Some d"
  obtains v' where "VFS_Remove ram_tbl v path = Some (VFS_RES_OK, v')" "vfs_rep v' (put_at M pp (drop_kid nm u))"
    "v_handles v' = v_handles v" "\<forall>n \<in> set (nodes_of d). k_nodes (v_kernel v') n = None"
proof (cases path rule: call_path_cases)
  case (bad r)
  then show thesis using path by simp
next
  case (good qs)
  then have qs: "qs = pp @ [nm]" using path by simp
  note norm = good(1) [unfolded qs] and pp = good(3) [unfolded qs]
  obtain w where w: "VFS_Resolve ram_tbl v (path_of pp) =
      Some (case denotes M pp of None \<Rightarrow> (VFS_RES_NOT_FOUND, NULL) | Some u \<Rightarrow> (VFS_RES_OK, t_node u), w)"
    "vfs_rep w M" "same_files v w" "split_last (path_of (pp @ [nm])) = Inr (path_of pp, nm)" "path_of (pp @ [nm]) \<noteq> ''/''"
    "s_vfs_initialized v" using parent_resolved [OF v norm pp] .
  have fr: "forest_rep (v_kernel w) M" using w(2) by (simp add: vfs_rep_def)
  obtain par where r: "rtree_rep (v_kernel w) par u" using denoted_rep [OF fr den] .
  obtain nd where nd: "k_nodes (v_kernel w) (t_node u) = Some nd" "n_ops nd = RAMFS_NODE_OPS"
    using r by (rule node_denoted)
  let ?c = "vfs_cache_remove_prefix (path_of (pp @ [nm])) (v_cache w)"
  obtain k' where k': "ramfs_remove (v_kernel w) (t_node u) nm = Some (VFS_RES_OK, k')"
      "vfs_rep (w\<lparr>v_cache := ?c, v_kernel := k'\<rparr>) (put_at M pp (drop_kid nm u))"
      "\<forall>n \<in> set (nodes_of d). k_nodes k' n = None"
    using remove_child_rep [OF w(2) den pp u] .
  have "VFS_Remove ram_tbl v path = Some (VFS_RES_OK, w\<lparr>v_cache := ?c, v_kernel := k'\<rparr>)"
    using nd k'(1) w(1,4-6) norm den by (simp add: VFS_Remove_def Let_def s_ramfs_node_ops_def)
  moreover have "v_handles w = v_handles v"
  proof -
    have "w = v\<lparr>v_cache := v_cache w, v_kernel := v_kernel w\<rparr>" using w(3) by (simp add: same_files_def)
    then show ?thesis by (metis vfs.simps(6) vfs.surjective vfs.update_convs(5) vfs.update_convs(7))
  qed
  ultimately show thesis using that k'(2,3) by simp
qed

section \<open>A small system\<close>

definition demo_kernel :: "ramfs_heap kernel" where
  "demo_kernel = \<lparr>k_mallocs = [], k_last = 0, k_nodes = (\<lambda>_. None), k_drv = (\<lambda>_. None)\<rparr>"

definition demo_vfs :: "ramfs_heap vfs" where
  "demo_vfs = \<lparr>s_vfs_initialized = False, s_filesystems = None, s_mounts = None, s_root_mount = None,
     v_cache = \<lparr>s_cache_entries = None, s_cache_capacity = VFS_DEFAULT_CACHE_CAPACITY, s_cache_hits = 0, s_cache_misses = 0\<rparr>,
     v_handles = (\<lambda>_. None), v_kernel = demo_kernel\<rparr>"

definition demo_ramfs :: "ramfs_heap kernel VFSFileSystem" where
  "demo_ramfs = \<lparr>fs_name = Some ''ramfs'', fs_flags = 0, fs_ops = Some s_ramfs_ops, fs_context = 1\<rparr>"

lemma demo_ready:
  "\<not> s_vfs_initialized demo_vfs" "k_mallocs (v_kernel demo_vfs) = []" "s_cache_entries (v_cache demo_vfs) = None"
  "fs_ops demo_ramfs = Some s_ramfs_ops"
  by (simp_all add: demo_vfs_def demo_kernel_def demo_ramfs_def)

lemma demo_path: "call_path ''/f'' = Inr ([] @ [''f''])" "vfs_normalize_path ''/f'' VFS_PATH_MAX = Inr (path_of ([] @ [''f'']))"
  "list_all plain_segment ([] @ [''f''])"
  by code_simp+

lemma denotes_root: "denotes [[] \<mapsto> t] [] = Some t"
  by (simp add: denotes_def mount_point_def)

text \<open>The system after the file \<open>/f\<close> was created.\<close>

lemma demo_file_system:
  obtains mount v1 v M u d where "VFS_Mount (VFS_Init demo_vfs) ''/'' (Some demo_ramfs) None = Some (Some mount, v1)"
    "VFS_Create ram_tbl v1 ''/f'' VFS_NODE_REGULAR = Some (VFS_RES_OK, v)" "vfs_rep v M"
    "denotes M [] = Some u" "t_type u = VFS_NODE_DIRECTORY" "child ''f'' u = Some d"
    "denotes M [''f''] = Some d" "t_type d = VFS_NODE_REGULAR" "t_cont d = []"
proof -
  obtain mount v1 n p where v1: "VFS_Mount (VFS_Init demo_vfs) ''/'' (Some demo_ramfs) None = Some (Some mount, v1)"
    "vfs_rep v1 [[] \<mapsto> RTree n p [] VFS_NODE_DIRECTORY [] []]" using boot_rep [OF demo_ready] .
  let ?t = "RTree n p [] VFS_NODE_DIRECTORY [] []" and ?M = "[[] \<mapsto> RTree n p [] VFS_NODE_DIRECTORY [] []]"
  obtain a b v where v: "VFS_Create ram_tbl v1 ''/f'' VFS_NODE_REGULAR = Some (fst (forest_create a b VFS_NODE_REGULAR ?M [] ''f''), v)"
    "vfs_rep v (snd (forest_create a b VFS_NODE_REGULAR ?M [] ''f''))" using create_rep [OF v1(2) demo_path(2,3)] by blast
  let ?d = "RTree a b ''f'' VFS_NODE_REGULAR [] []"
  have m: "put_at ?M [] (add_kid ?d ?t) = [[] \<mapsto> add_kid ?d ?t]" by (simp add: put_at_def mount_point_def)
  have "forest_create a b VFS_NODE_REGULAR ?M [] ''f'' = (VFS_RES_OK, [[] \<mapsto> add_kid ?d ?t])"
    unfolding forest_create_def denotes_root using m by (simp add: child_def)
  moreover have "denotes [[] \<mapsto> add_kid ?d ?t] [''f''] = Some ?d"
    by (simp add: denotes_def mount_point_def child_def)
  ultimately show thesis
    using v1(1) v denotes_root [of "add_kid ?d ?t"] by (intro that [of mount v1 v "[[] \<mapsto> add_kid ?d ?t]" "add_kid ?d ?t" ?d]) (simp_all add: child_def)
qed

section \<open>Properties\<close>

text \<open>C27. From an uninitialised kernel that does not run out of memory, \<open>VFS_Init\<close> followed by mounting
  an in-memory file system at the root succeeds, and every sequence of creations, removals,
  resolutions, mounts and unmounts then runs to its end with the replies that the same calls give
  on a map from mount points to directory trees. The lookup cache, the mount table and the node
  stores do not show: the final state represents the final map.\<close>

theorem vfs_calls_refine:
  assumes "\<not> s_vfs_initialized v" and "k_mallocs (v_kernel v) = []" and "s_cache_entries (v_cache v) = None"
    and "fs_ops fs = Some s_ramfs_ops"
  shows "\<exists>mount v1 n p rs v' M'. VFS_Mount (VFS_Init v) ''/'' (Some fs) None = Some (Some mount, v1) \<and>
    calls_vfs fs v1 cs = Some (rs, v') \<and>
    forest_calls [[] \<mapsto> RTree n p [] VFS_NODE_DIRECTORY [] []] cs rs M' \<and> vfs_rep v' M'"
proof -
  obtain mount v1 n p where "VFS_Mount (VFS_Init v) ''/'' (Some fs) None = Some (Some mount, v1)"
    "vfs_rep v1 [[] \<mapsto> RTree n p [] VFS_NODE_DIRECTORY [] []]" using boot_rep [OF assms] .
  with calls_refine [OF this(2) assms(4), of cs] show ?thesis by blast
qed

theorem vfs_calls_refine_witness:
  "\<exists>mount v1 n p rs v' M'. VFS_Mount (VFS_Init demo_vfs) ''/'' (Some demo_ramfs) None = Some (Some mount, v1) \<and>
    calls_vfs demo_ramfs v1 [Call_Create ''/f'' VFS_NODE_REGULAR, Call_Resolve ''/f'', Call_Mount ''/m'', Call_Remove ''/f''] = Some (rs, v') \<and>
    forest_calls [[] \<mapsto> RTree n p [] VFS_NODE_DIRECTORY [] []]
      [Call_Create ''/f'' VFS_NODE_REGULAR, Call_Resolve ''/f'', Call_Mount ''/m'', Call_Remove ''/f''] rs M' \<and> vfs_rep v' M'"
  by (rule vfs_calls_refine [OF demo_ready])

text \<open>C28. Whatever the cache holds, \<open>VFS_Resolve\<close> returns the node that a path denotes in the tree of
  its longest mounted prefix, and \<open>VFS_RES_NOT_FOUND\<close> when there is none.\<close>

theorem vfs_resolve_denotes:
  assumes "vfs_rep v M" and "vfs_normalize_path path VFS_PATH_MAX = Inr (path_of ps)" and "list_all plain_segment ps"
  shows "\<exists>v'. VFS_Resolve ram_tbl v path =
      Some (case denotes M ps of None \<Rightarrow> (VFS_RES_NOT_FOUND, NULL) | Some u \<Rightarrow> (VFS_RES_OK, t_node u), v') \<and> vfs_rep v' M"
  using resolve_rep [OF assms] by metis

theorem vfs_resolve_denotes_witness:
  "\<exists>v n v'. VFS_Resolve ram_tbl v ''/f'' = Some ((VFS_RES_OK, n), v')"
proof -
  obtain v M d where v: "vfs_rep v M" "denotes M [''f''] = Some d" using demo_file_system by metis
  have p: "vfs_normalize_path ''/f'' VFS_PATH_MAX = Inr (path_of [''f''])" "list_all plain_segment [''f'']"
    using demo_path by simp_all
  from vfs_resolve_denotes [OF v(1) p] v(2) show ?thesis by auto
qed



text \<open>C30. Through a handle opened for reading and writing on a regular file, writing inside the 64-bit
  range stores all bytes at the offset, and reading then returns the bytes that the write leaves at
  any offset. The tree changes in the contents of that file only.\<close>

theorem vfs_open_write_read:
  assumes v: "vfs_rep v M" and path: "call_path path = Inr ps" and den: "denotes M ps = Some u"
    and ty: "t_type u = VFS_NODE_REGULAR" and mode: "mode AND VFS_OPEN_READ \<noteq> 0" "mode AND VFS_OPEN_WRITE \<noteq> 0"
    and bs: "bs \<noteq> []" "off + length bs < 2 ^ 64" and n: "n \<noteq> 0"
  shows "\<exists>h v1 v2. VFS_Open ram_tbl v path mode = Some (h, v1) \<and>
    VFS_WriteAt ram_tbl v1 h off (Some bs) = Some (int64 (length bs), v2) \<and>
    VFS_ReadAt ram_tbl v2 h off' True n =
      (let xs = pread (pwrite (t_cont u) off bs) off' n in Some ((int64 (length xs), xs), v2)) \<and>
    vfs_rep v2 (put_at M ps (set_cont (pwrite (t_cont u) off bs) u))"
proof -
  let ?u = "set_cont (pwrite (t_cont u) off bs) u"
  obtain h v1 where o: "VFS_Open ram_tbl v path mode = Some (h, v1)" "h \<noteq> NULL" "vfs_rep v1 M"
    "v_handles v1 h = Some \<lparr>h_node = t_node u, h_driver_handle = NULL, h_mode = mode, h_offset = 0\<rparr>"
    using open_rep [OF v path den ty] .
  obtain v2 where w: "VFS_WriteAt ram_tbl v1 h off (Some bs) = Some (int64 (length bs), v2)"
    "vfs_rep v2 (put_at M ps ?u)" "v_handles v2 = v_handles v1"
    using write_at_rep [OF o(3) den ty o(2,4) _ _ bs] mode(2) by (auto simp: vfs_handle_can_write_def)
  have fr: "forest_rep (v_kernel v) M" and root: "M [] \<noteq> None" using v by (auto simp: vfs_rep_def)
  have "denotes (put_at M ps ?u) (ps @ []) = tree_at ?u []"
    by (rule denotes_put_at(1) [where M = M, OF fr root den]) simp_all
  then have "VFS_ReadAt ram_tbl v2 h off' True n = Some ((int64 (length (pread (t_cont ?u) off' n)), pread (t_cont ?u) off' n), v2)"
    using o(2,4) w(2,3) mode(1) n ty
    by (intro read_at_rep [of v2 "put_at M ps ?u" ps, where h = "the (v_handles v1 h)"]) (simp_all add: vfs_handle_can_read_def)
  with o(1) w(1,2) show ?thesis by (auto simp: Let_def)
qed

theorem vfs_open_write_read_witness:
  "\<exists>v h v1 v2. VFS_Open ram_tbl v ''/f'' 3 = Some (h, v1) \<and> VFS_WriteAt ram_tbl v1 h 1 (Some [7, 8]) = Some (2, v2) \<and>
    VFS_ReadAt ram_tbl v2 h 0 True 4 = Some ((3, [0, 7, 8]), v2)"
proof -
  obtain v M d where v: "vfs_rep v M" "denotes M [''f''] = Some d" "t_type d = VFS_NODE_REGULAR" "t_cont d = []"
    using demo_file_system by metis
  have p: "call_path ''/f'' = Inr [''f'']" using demo_path by simp
  have m: "(3 :: u32) AND VFS_OPEN_READ \<noteq> 0" "(3 :: u32) AND VFS_OPEN_WRITE \<noteq> 0"
    by (simp_all add: VFS_OPEN_READ_def VFS_OPEN_WRITE_def)
  have "pwrite [] 1 [7, 8] = [0, 7, 8 :: byte]" "pread [0, 7, 8 :: byte] 0 4 = [0, 7, 8]"
    by (simp_all add: pwrite_def padded_def pread_def)
  with vfs_open_write_read [OF v(1) p v(2,3) m, of "[7, 8]" 1 4 0] v(4) show ?thesis
    by (auto simp: int64_small)
qed

text \<open>C31. \<open>VFS_Remove\<close> frees the node of a file that is open: it reports success, and the next read
  through the handle dereferences the freed node.\<close>

theorem vfs_remove_open_file:
  assumes v: "vfs_rep v M" and path: "call_path path = Inr (pp @ [nm])" and den: "denotes M pp = Some u"
    and u: "t_type u = VFS_NODE_DIRECTORY" "child nm u = Some d"
    and h: "handle \<noteq> NULL" "v_handles v handle = Some h" "h_node h = t_node d" "vfs_handle_can_read h" and n: "n \<noteq> 0"
  shows "\<exists>v'. VFS_Remove ram_tbl v path = Some (VFS_RES_OK, v') \<and> VFS_ReadAt ram_tbl v' handle off True n = None"
proof -
  obtain v' where v': "VFS_Remove ram_tbl v path = Some (VFS_RES_OK, v')"
    "v_handles v' = v_handles v" "\<forall>m \<in> set (nodes_of d). k_nodes (v_kernel v') m = None"
    using remove_frees [OF v path den u] .
  have fr: "forest_rep (v_kernel v) M" using v by (simp add: vfs_rep_def)
  obtain par where "rtree_rep (v_kernel v) par u" using denoted_rep [OF fr den] .
  then have "t_node d \<noteq> NULL" using child_rep(1) [OF _ u(2)] rtree_rep_root by blast
  then have "VFS_ReadAt ram_tbl v' handle off True n = None"
    using h n v'(2,3) by (simp add: VFS_ReadAt_def handle_op_def)
  with v'(1) show ?thesis by blast
qed

theorem vfs_remove_open_file_witness:
  "\<exists>v0 v h v'. VFS_Open ram_tbl v0 ''/f'' 1 = Some (h, v) \<and> h \<noteq> NULL \<and>
    VFS_Remove ram_tbl v ''/f'' = Some (VFS_RES_OK, v') \<and> VFS_ReadAt ram_tbl v' h 0 True 1 = None"
proof -
  obtain v M u d where v: "vfs_rep v M" "denotes M [] = Some u" "t_type u = VFS_NODE_DIRECTORY" "child ''f'' u = Some d"
    "denotes M [''f''] = Some d" "t_type d = VFS_NODE_REGULAR" using demo_file_system by metis
  have p: "call_path ''/f'' = Inr [''f'']" using demo_path by simp
  obtain h w where h: "VFS_Open ram_tbl v ''/f'' 1 = Some (h, w)" "h \<noteq> NULL" "vfs_rep w M"
    "v_handles w h = Some \<lparr>h_node = t_node d, h_driver_handle = NULL, h_mode = 1, h_offset = 0\<rparr>"
    using open_rep [OF v(1) p v(5,6)] by metis
  from vfs_remove_open_file [OF h(3) demo_path(1) v(2-4) h(2,4), of 1 0] h(1,2) show ?thesis
    by (simp add: vfs_handle_can_read_def VFS_OPEN_READ_def) blast
qed

end
