(* ===== verification/Block_Device.thy ===== *)
theory Block_Device
  imports Block_Spec Vfs_Types
begin

text \<open>
  Block devices, \<open>kernel/storage/BlockDevice.c\<close>: the registry and the calls through a driver's
  table. The drivers are parameters: a function of the table gets the device's context and gives
  back the blocks it put into the buffer, or \<open>None\<close> for a failed transfer. \<open>drives\<close> states what a
  driver promises, and with it every device meets the contract \<open>block_store\<close>.
\<close>

section \<open>Model\<close>

datatype BlockDeviceType = BLKDEV_TYPE_DISK | BLKDEV_TYPE_CDROM | BLKDEV_TYPE_VIRTUAL

record 's BlockDeviceOps =
  ops_read :: "(ptr \<Rightarrow> 's \<Rightarrow> nat \<Rightarrow> nat \<Rightarrow> byte list option \<times> 's) option"
  ops_write :: "(ptr \<Rightarrow> 's \<Rightarrow> nat \<Rightarrow> nat \<Rightarrow> byte list \<Rightarrow> bool \<times> 's) option"
  ops_flush :: "(ptr \<Rightarrow> 's \<Rightarrow> bool \<times> 's) option"

record 's BlockDevice =
  d_name :: "string option"
  d_type :: BlockDeviceType
  logical_block_size :: nat
  total_blocks :: nat
  d_ops :: "'s BlockDeviceOps option"
  driver_ctx :: ptr

definition dev_op :: "('s BlockDeviceOps \<Rightarrow> 'f option) \<Rightarrow> 's BlockDevice option \<Rightarrow> ('s BlockDevice \<times> 'f) option" where
  "dev_op f dev = do { d \<leftarrow> dev; ops \<leftarrow> d_ops d; g \<leftarrow> f ops; Some (d, g) }"

definition BlockDevice_Read :: "'s BlockDevice option \<Rightarrow> 's \<Rightarrow> nat \<Rightarrow> nat \<Rightarrow> byte list option \<times> 's" where
  "BlockDevice_Read dev s lba count =
     (case dev_op ops_read dev of
        None \<Rightarrow> (None, s)
      | Some (d, rd) \<Rightarrow> rd (driver_ctx d) s lba count)"

definition BlockDevice_Write :: "'s BlockDevice option \<Rightarrow> 's \<Rightarrow> nat \<Rightarrow> nat \<Rightarrow> byte list \<Rightarrow> bool \<times> 's" where
  "BlockDevice_Write dev s lba count buffer =
     (case dev_op ops_write dev of
        None \<Rightarrow> (False, s)
      | Some (d, wr) \<Rightarrow> wr (driver_ctx d) s lba count buffer)"

definition BlockDevice_Flush :: "'s BlockDevice option \<Rightarrow> 's \<Rightarrow> bool \<times> 's" where
  "BlockDevice_Flush dev s =
     (case dev_op ops_flush dev of
        None \<Rightarrow> (True, s)
      | Some (d, fl) \<Rightarrow> fl (driver_ctx d) s)"

text \<open>A transfer into a buffer of \<open>n\<close> bytes; one of another length leaves the buffer or part of it unset.\<close>

definition fill_buffer :: "nat \<Rightarrow> byte list option \<times> 's \<Rightarrow> (byte list option \<times> 's) option" where
  "fill_buffer n r =
     (case r of (None, s) \<Rightarrow> Some (None, s) | (Some bs, s) \<Rightarrow> if length bs = n then Some (Some bs, s) else None)"

text \<open>The registry. Devices never change once they are registered, so the list holds the structures.\<close>

record 'd blkdev_registry =
  s_blkdev_list :: "'d kernel BlockDevice list option"
  b_kernel :: "'d kernel"

definition BlockDevice_InitRegistry :: "('d, 'x) blkdev_registry_scheme \<Rightarrow> ('d, 'x) blkdev_registry_scheme" where
  "BlockDevice_InitRegistry r =
     (if s_blkdev_list r \<noteq> None then r
      else let (p, k) = kmalloc (b_kernel r)
      in r\<lparr>s_blkdev_list := (if p = NULL then None else Some []), b_kernel := k\<rparr>)"

definition BlockDevice_Register ::
  "('d, 'x) blkdev_registry_scheme \<Rightarrow> string option \<Rightarrow> BlockDeviceType \<Rightarrow> nat \<Rightarrow> nat \<Rightarrow> 'd kernel BlockDeviceOps option \<Rightarrow> ptr \<Rightarrow>
   'd kernel BlockDevice option \<times> ('d, 'x) blkdev_registry_scheme" where
  "BlockDevice_Register r name type block_size blocks ops ctx =
     (let r = (if s_blkdev_list r = None then BlockDevice_InitRegistry r else r)
      in if ops = None \<or> ops_read (the ops) = None then (None, r)
      else let (p, k) = kmalloc (b_kernel r); r = r\<lparr>b_kernel := k\<rparr>
      in if p = NULL then (None, r)
      else let d = \<lparr>d_name = name, d_type = type, logical_block_size = (if block_size \<noteq> 0 then block_size else 512),
                    total_blocks = blocks, d_ops = ops, driver_ctx = ctx\<rparr>
      in case s_blkdev_list r of
           None \<Rightarrow> (Some d, r)
         | Some ds \<Rightarrow> (let (ds, k) = list_add (b_kernel r) d ds
                      in (Some d, r\<lparr>s_blkdev_list := Some ds, b_kernel := k\<rparr>)))"

definition BlockDevice_Count :: "('d, 'x) blkdev_registry_scheme \<Rightarrow> nat" where
  "BlockDevice_Count r = (case s_blkdev_list r of None \<Rightarrow> 0 | Some ds \<Rightarrow> length ds)"

definition BlockDevice_GetAt :: "('d, 'x) blkdev_registry_scheme \<Rightarrow> nat \<Rightarrow> 'd kernel BlockDevice option" where
  "BlockDevice_GetAt r index =
     (case s_blkdev_list r of None \<Rightarrow> None | Some ds \<Rightarrow> if index < length ds then Some (ds ! index) else None)"

section \<open>Contract of a driver\<close>

text \<open>What the code relies on: with \<open>holds s img\<close> the device's image is \<open>img\<close>, made of as many blocks as
  the structure says, and the functions of the table transfer whole blocks.\<close>

definition drives :: "'s BlockDevice \<Rightarrow> ('s \<Rightarrow> image \<Rightarrow> bool) \<Rightarrow> bool" where
  "drives d holds \<longleftrightarrow> 0 < logical_block_size d \<and>
     (\<forall>s img. holds s img \<longrightarrow> length img = total_blocks d * logical_block_size d) \<and>
     (\<exists>ops rd wr. d_ops d = Some ops \<and> ops_read ops = Some rd \<and> ops_write ops = Some wr \<and>
       (\<forall>s img lba n. holds s img \<longrightarrow> 0 < n \<longrightarrow> n < 2 ^ 32 \<longrightarrow> lba + n \<le> total_blocks d \<longrightarrow>
          (\<exists>s'. rd (driver_ctx d) s lba n =
             (Some (span img (lba * logical_block_size d) (n * logical_block_size d)), s') \<and> holds s' img)) \<and>
       (\<forall>s img lba n xs. holds s img \<longrightarrow> 0 < n \<longrightarrow> n < 2 ^ 32 \<longrightarrow> length xs = n * logical_block_size d \<longrightarrow> lba + n \<le> total_blocks d \<longrightarrow>
          (\<exists>s'. wr (driver_ctx d) s lba n xs = (True, s') \<and> holds s' (patch img (lba * logical_block_size d) xs))) \<and>
       (\<forall>fl s img. ops_flush ops = Some fl \<longrightarrow> holds s img \<longrightarrow> (\<exists>ok s'. fl (driver_ctx d) s = (ok, s') \<and> holds s' img)))"

definition dev_holds :: "'s BlockDevice \<Rightarrow> ('s \<Rightarrow> image \<Rightarrow> bool) \<Rightarrow> 's \<Rightarrow> image \<Rightarrow> bool" where
  "dev_holds d holds s img \<longleftrightarrow> drives d holds \<and> holds s img"

lemma drivesE:
  assumes "drives d holds"
  obtains ops rd wr where "0 < logical_block_size d" "d_ops d = Some ops" "ops_read ops = Some rd" "ops_write ops = Some wr"
    "\<And>s img. holds s img \<Longrightarrow> length img = total_blocks d * logical_block_size d"
    "\<And>s img lba n. holds s img \<Longrightarrow> 0 < n \<Longrightarrow> n < 2 ^ 32 \<Longrightarrow> lba + n \<le> total_blocks d \<Longrightarrow>
          (\<exists>s'. rd (driver_ctx d) s lba n =
             (Some (span img (lba * logical_block_size d) (n * logical_block_size d)), s') \<and> holds s' img)"
    "\<And>s img lba n xs. holds s img \<Longrightarrow> 0 < n \<Longrightarrow> n < 2 ^ 32 \<Longrightarrow> length xs = n * logical_block_size d \<Longrightarrow> lba + n \<le> total_blocks d \<Longrightarrow>
          (\<exists>s'. wr (driver_ctx d) s lba n xs = (True, s') \<and> holds s' (patch img (lba * logical_block_size d) xs))"
    "\<And>fl s img. ops_flush ops = Some fl \<Longrightarrow> holds s img \<Longrightarrow> (\<exists>ok s'. fl (driver_ctx d) s = (ok, s') \<and> holds s' img)"
  using assms unfolding drives_def by blast

interpretation bd: block_store "dev_holds d holds" "logical_block_size d" "BlockDevice_Read (Some d)" "BlockDevice_Write (Some d)"
  for d holds
proof
  fix s img lba n and xs :: "byte list"
  assume h: "dev_holds d holds s img"
  then have dr: "drives d holds" and hs: "holds s img" by (simp_all add: dev_holds_def)
  from dr obtain ops rd wr where o: "0 < logical_block_size d" "d_ops d = Some ops" "ops_read ops = Some rd" "ops_write ops = Some wr"
    and len: "\<And>s img. holds s img \<Longrightarrow> length img = total_blocks d * logical_block_size d"
    and r: "\<And>s img lba n. holds s img \<Longrightarrow> 0 < n \<Longrightarrow> n < 2 ^ 32 \<Longrightarrow> lba + n \<le> total_blocks d \<Longrightarrow>
          (\<exists>s'. rd (driver_ctx d) s lba n =
             (Some (span img (lba * logical_block_size d) (n * logical_block_size d)), s') \<and> holds s' img)"
    and w: "\<And>s img lba n xs. holds s img \<Longrightarrow> 0 < n \<Longrightarrow> n < 2 ^ 32 \<Longrightarrow> length xs = n * logical_block_size d \<Longrightarrow> lba + n \<le> total_blocks d \<Longrightarrow>
          (\<exists>s'. wr (driver_ctx d) s lba n xs = (True, s') \<and> holds s' (patch img (lba * logical_block_size d) xs))"
    by (rule drivesE) blast
  show "0 < logical_block_size d \<and> length img mod logical_block_size d = 0" using o(1) len [OF hs] by simp
  show "\<exists>s'. BlockDevice_Read (Some d) s lba n =
      (Some (span img (lba * logical_block_size d) (n * logical_block_size d)), s') \<and> dev_holds d holds s' img"
    if "0 < n" "n < 2 ^ 32" "(lba + n) * logical_block_size d \<le> length img"
  proof -
    have "lba + n \<le> total_blocks d" using that(3) len [OF hs] o(1) by simp
    from r [OF hs that(1,2) this] show ?thesis using o dr by (auto simp: BlockDevice_Read_def dev_op_def dev_holds_def)
  qed
  show "\<exists>s'. BlockDevice_Write (Some d) s lba n xs = (True, s') \<and> dev_holds d holds s' (patch img (lba * logical_block_size d) xs)"
    if x: "0 < n" "n < 2 ^ 32" "length xs = n * logical_block_size d" "(lba + n) * logical_block_size d \<le> length img"
  proof -
    have "lba + n \<le> total_blocks d" using x(4) len [OF hs] o(1) by simp
    from w [OF hs x(1-3) this] show ?thesis using o dr by (auto simp: BlockDevice_Write_def dev_op_def dev_holds_def)
  qed
qed

text \<open>The image is part of the drivers' data, and the drivers do not run the kernel out of memory.\<close>

definition on_drv :: "('d \<Rightarrow> image \<Rightarrow> bool) \<Rightarrow> 'd kernel \<Rightarrow> image \<Rightarrow> bool" where
  "on_drv H k img \<longleftrightarrow> k_mallocs k = [] \<and> H (k_drv k) img"

lemma on_drv_alloc [simp]: "on_drv H (k\<lparr>k_last := p\<rparr>) img \<longleftrightarrow> on_drv H k img"
  by (simp add: on_drv_def)

lemma on_drv_mallocs [simp]: "on_drv H k img \<Longrightarrow> k_mallocs k = []"
  by (simp add: on_drv_def)

section \<open>A disk in memory\<close>

text \<open>A driver that keeps the contract: the image is the driver's data.\<close>

definition ram_disk :: "nat \<Rightarrow> nat \<Rightarrow> image kernel BlockDevice" where
  "ram_disk bs n = \<lparr>d_name = Some ''ram'', d_type = BLKDEV_TYPE_VIRTUAL, logical_block_size = bs, total_blocks = n,
     d_ops = Some \<lparr>ops_read = Some (\<lambda>_ k lba c. (Some (span (k_drv k) (lba * bs) (c * bs)), k)),
       ops_write = Some (\<lambda>_ k lba c xs. (True, k\<lparr>k_drv := patch (k_drv k) (lba * bs) xs\<rparr>)), ops_flush = None\<rparr>,
     driver_ctx = 0\<rparr>"

definition ram_kernel :: "image \<Rightarrow> image kernel" where
  "ram_kernel img = \<lparr>k_mallocs = [], k_last = 0, k_nodes = (\<lambda>_. None), k_drv = img\<rparr>"

lemma ram_disk_drives:
  assumes "0 < bs"
  shows "drives (ram_disk bs n) (on_drv (\<lambda>img i. i = img \<and> length img = n * bs))"
proof -
  have "lba * bs + c * bs \<le> n * bs" if "lba + c \<le> n" for lba c
    using that by (metis add_mult_distrib mult_le_mono1)
  then show ?thesis using assms by (auto simp: drives_def ram_disk_def on_drv_def)
qed

end
