(* ===== verification/Disk_Stream.thy ===== *)
theory Disk_Stream
  imports Block_Device
begin

text \<open>
  Byte access to block devices, \<open>kernel/stream/DiskStream.c\<close>. A stream is \<open>None\<close> when the pointer is
  null; its device is the one it was created with. A returned buffer is the bytes it holds, or
  \<open>None\<close> for the null pointer. \<open>None\<close> as the result of an operation is an undefined one: a division
  by a block size of zero, or a driver that fills a buffer beyond its end or not completely. Log
  output is left out.
\<close>

section \<open>Model\<close>

datatype DiskStreamDeviceType = DISKSTREAM_DEVICE_UNKNOWN | DISKSTREAM_DEVICE_BLOCK

record 's DiskStream =
  ds_device :: "'s BlockDevice"
  ds_device_type :: DiskStreamDeviceType
  isOpen :: bool
  readonly :: bool

definition DiskStream_CreateFromBlockDevice ::
  "'d kernel \<Rightarrow> 'd kernel BlockDevice option \<Rightarrow> 'd kernel DiskStream option \<times> 'd kernel" where
  "DiskStream_CreateFromBlockDevice k dev =
     (case dev of
        None \<Rightarrow> (None, k)
      | Some d \<Rightarrow> (let (p, k) = kmalloc k
                  in (if p = NULL then None
                      else Some \<lparr>ds_device = d, ds_device_type = DISKSTREAM_DEVICE_BLOCK, isOpen = False, readonly = True\<rparr>, k)))"

definition DiskStream_Open :: "'s DiskStream option \<Rightarrow> bool \<Rightarrow> 's BlockDevice option \<times> 's DiskStream option" where
  "DiskStream_Open stream ro =
     (case stream of
        None \<Rightarrow> (None, None)
      | Some st \<Rightarrow> if isOpen st then (Some (ds_device st), Some st)
                  else (Some (ds_device st), Some (st\<lparr>readonly := ro, isOpen := True\<rparr>)))"

definition DiskStream_Close :: "'s DiskStream option \<Rightarrow> 's DiskStream option" where
  "DiskStream_Close stream =
     (case stream of None \<Rightarrow> None | Some st \<Rightarrow> if \<not> isOpen st then Some st else Some (st\<lparr>isOpen := False\<rparr>))"

definition DiskStream_ReadSector ::
  "'d kernel DiskStream option \<Rightarrow> 'd kernel \<Rightarrow> nat \<Rightarrow> (byte list option \<times> 'd kernel) option" where
  "DiskStream_ReadSector stream k sector =
     (case stream of
        None \<Rightarrow> Some (None, k)
      | Some st \<Rightarrow>
          if \<not> isOpen st \<or> ds_device_type st \<noteq> DISKSTREAM_DEVICE_BLOCK then Some (None, k)
          else let dev = ds_device st; block_size = logical_block_size dev
          in if total_blocks dev \<noteq> 0 \<and> total_blocks dev \<le> sector then Some (None, k)
          else let (buffer, k) = kmalloc k
          in if buffer = NULL then Some (None, k)
          else fill_buffer block_size (BlockDevice_Read (Some dev) k sector 1))"

definition DiskStream_ReadSectors ::
  "'d kernel DiskStream option \<Rightarrow> 'd kernel \<Rightarrow> nat \<Rightarrow> nat \<Rightarrow> (byte list option \<times> 'd kernel) option" where
  "DiskStream_ReadSectors stream k sector count =
     (case stream of
        None \<Rightarrow> Some (None, k)
      | Some st \<Rightarrow>
          if \<not> isOpen st \<or> ds_device_type st \<noteq> DISKSTREAM_DEVICE_BLOCK \<or> count = 0 then Some (None, k)
          else let dev = ds_device st; block_size = logical_block_size dev
          in if total_blocks dev \<noteq> 0 \<and> (total_blocks dev \<le> sector \<or> total_blocks dev - sector < count) then Some (None, k)
          else if block_size = 0 then None
          else if (2 ^ 64 - 1) div block_size < count then Some (None, k)
          else if 2 ^ 32 - 1 < count then Some (None, k)
          else let (buffer, k) = kmalloc k
          in if buffer = NULL then Some (None, k)
          else fill_buffer (count * block_size) (BlockDevice_Read (Some dev) k sector count))"

text \<open>The loop of \<open>DiskStream_Read\<close> with \<open>n\<close> bytes left to copy from \<open>cur_offset\<close>, given the read of one
  block. The result is what the loop still appends to the output.\<close>

function read_loop ::
  "('s \<Rightarrow> nat \<Rightarrow> byte list option \<times> 's) \<Rightarrow> nat \<Rightarrow> nat \<Rightarrow> nat \<Rightarrow> 's \<Rightarrow> (byte list option \<times> 's) option" where
  "read_loop rd block_size cur_offset n s =
     (if n = 0 then Some (Some [], s)
      else if block_size = 0 then None
      else do {
        (block_buf, s) \<leftarrow> fill_buffer block_size (rd s (cur_offset div block_size));
        (case block_buf of
           None \<Rightarrow> Some (None, s)
         | Some blk \<Rightarrow>
             (let c = chunk block_size cur_offset n
              in do {
                (rest, s) \<leftarrow> read_loop rd block_size (cur_offset + c) (n - c) s;
                Some (map_option (\<lambda>rest. span blk (cur_offset mod block_size) c @ rest) rest, s) })) })"
  by pat_completeness auto
termination
  by (relation "measure (\<lambda>(rd, block_size, cur_offset, n, s). n)") (auto simp: chunk_bounds)

declare read_loop.simps [simp del]

text \<open>What \<open>DiskStream_Read\<close> and \<open>DiskStream_Write\<close> check of a range before the first transfer.\<close>

definition range_ok :: "'s BlockDevice \<Rightarrow> nat \<Rightarrow> nat \<Rightarrow> bool" where
  "range_ok dev offset n \<longleftrightarrow>
     (let block_size = logical_block_size dev; start_lba = offset div block_size; end_lba = (offset + n - 1) div block_size
      in offset \<le> 2 ^ 64 - 1 - (n - 1) \<and>
         (total_blocks dev \<noteq> 0 \<longrightarrow> start_lba < total_blocks dev \<and> end_lba < total_blocks dev))"

definition DiskStream_Read ::
  "'d kernel DiskStream option \<Rightarrow> 'd kernel \<Rightarrow> nat \<Rightarrow> nat \<Rightarrow> (byte list option \<times> 'd kernel) option" where
  "DiskStream_Read stream k offset n =
     (case stream of
        None \<Rightarrow> Some (None, k)
      | Some st \<Rightarrow>
          if \<not> isOpen st \<or> ds_device_type st \<noteq> DISKSTREAM_DEVICE_BLOCK \<or> n = 0 then Some (None, k)
          else let dev = ds_device st; block_size = logical_block_size dev
          in if block_size = 0 then None
          else if \<not> range_ok dev offset n then Some (None, k)
          else let (out, k) = kmalloc k
          in if out = NULL then Some (None, k)
          else let (block_buf, k) = kmalloc k
          in if block_buf = NULL then Some (None, k)
          else read_loop (\<lambda>k lba. BlockDevice_Read (Some dev) k lba 1) block_size offset n k)"

definition diskstream_can_write :: "'s DiskStream option \<Rightarrow> bool" where
  "diskstream_can_write stream \<longleftrightarrow>
     (case stream of
        None \<Rightarrow> False
      | Some st \<Rightarrow> isOpen st \<and> \<not> readonly st \<and> ds_device_type st = DISKSTREAM_DEVICE_BLOCK \<and>
          dev_op ops_write (Some (ds_device st)) \<noteq> None)"

text \<open>The body of the loop of \<open>DiskStream_Write\<close>: a full aligned block is written directly, a partial one
  is read, changed and written back.\<close>

definition write_chunk ::
  "('s \<Rightarrow> nat \<Rightarrow> byte list option \<times> 's) \<Rightarrow> ('s \<Rightarrow> nat \<Rightarrow> byte list \<Rightarrow> bool \<times> 's) \<Rightarrow> nat \<Rightarrow> nat \<Rightarrow> byte list \<Rightarrow> 's \<Rightarrow>
   (bool \<times> 's) option" where
  "write_chunk rd wr block_size cur_offset xs s =
     (let lba = cur_offset div block_size; intra = cur_offset mod block_size
      in if intra = 0 \<and> length xs = block_size then Some (wr s lba xs)
         else do {
           (block_buf, s) \<leftarrow> fill_buffer block_size (rd s lba);
           Some (case block_buf of None \<Rightarrow> (False, s) | Some blk \<Rightarrow> wr s lba (patch blk intra xs)) })"

text \<open>The loop, with the bytes left to write. It stops at the first transfer that fails; the result
  tells whether all bytes were written.\<close>

function write_loop ::
  "('s \<Rightarrow> nat \<Rightarrow> byte list option \<times> 's) \<Rightarrow> ('s \<Rightarrow> nat \<Rightarrow> byte list \<Rightarrow> bool \<times> 's) \<Rightarrow> nat \<Rightarrow> nat \<Rightarrow> byte list \<Rightarrow> 's \<Rightarrow>
   (bool \<times> 's) option" where
  "write_loop rd wr block_size cur_offset src s =
     (if src = [] then Some (True, s)
      else if block_size = 0 then None
      else let c = chunk block_size cur_offset (length src)
      in do {
        (ok, s) \<leftarrow> write_chunk rd wr block_size cur_offset (take c src) s;
        (if \<not> ok then Some (False, s)
         else write_loop rd wr block_size (cur_offset + c) (drop c src) s) })"
  by pat_completeness auto
termination
  by (relation "measure (\<lambda>(rd, wr, block_size, cur_offset, src, s). length src)") (auto simp: chunk_bounds)

declare write_loop.simps [simp del]

definition DiskStream_Write ::
  "'d kernel DiskStream option \<Rightarrow> 'd kernel \<Rightarrow> nat \<Rightarrow> byte list option \<Rightarrow> 'd kernel option" where
  "DiskStream_Write stream k offset data =
     (if \<not> diskstream_can_write stream then Some k
      else case data of
        None \<Rightarrow> Some k
      | Some src \<Rightarrow>
          if src = [] then Some k
          else let dev = ds_device (the stream); block_size = logical_block_size dev
          in if block_size = 0 then None
          else if \<not> range_ok dev offset (length src) then Some k
          else let (block_buf, k) = kmalloc k
          in if block_buf = NULL then Some k
          else do {
            (_, k) \<leftarrow> write_loop (\<lambda>k lba. BlockDevice_Read (Some dev) k lba 1) (\<lambda>k lba. BlockDevice_Write (Some dev) k lba 1)
              block_size offset src k;
            Some (snd (BlockDevice_Flush (Some dev) k)) })"

text \<open>The accessors of fixed size. A failed read gives zero.\<close>

definition read_value :: "nat \<Rightarrow> 'd kernel DiskStream option \<Rightarrow> 'd kernel \<Rightarrow> nat \<Rightarrow> (nat \<times> 'd kernel) option" where
  "read_value n stream k offset =
     do { (buf, k) \<leftarrow> DiskStream_Read stream k offset n;
          Some (case buf of None \<Rightarrow> 0 | Some bs \<Rightarrow> le_value bs, k) }"

definition DiskStream_Read8 where "DiskStream_Read8 = read_value 1"
definition DiskStream_Read16 where "DiskStream_Read16 = read_value 2"
definition DiskStream_Read32 where "DiskStream_Read32 = read_value 4"
definition DiskStream_Read64 where "DiskStream_Read64 = read_value 8"

definition DiskStream_Wrtie8 where "DiskStream_Wrtie8 stream k offset v = DiskStream_Write stream k offset (Some (le_bytes 1 v))"
definition DiskStream_Wrtie16 where "DiskStream_Wrtie16 stream k offset v = DiskStream_Write stream k offset (Some (le_bytes 2 v))"
definition DiskStream_Wrtie32 where "DiskStream_Wrtie32 stream k offset v = DiskStream_Write stream k offset (Some (le_bytes 4 v))"
definition DiskStream_Wrtie64 where "DiskStream_Wrtie64 stream k offset v = DiskStream_Write stream k offset (Some (le_bytes 8 v))"

section \<open>Bytes through blocks\<close>

text \<open>Over any store that meets the contract, the loops read and write ranges of the image.\<close>

context block_reader
begin

lemma read_loop_span:
  assumes "holds s img" and "off + n \<le> length img"
  shows "\<exists>s'. read_loop (\<lambda>s lba. rd s lba 1) bs off n s = Some (Some (span img off n), s') \<and> holds s' img"
  using assms
proof (induction n arbitrary: off s rule: less_induct)
  case (less n)
  show ?case
  proof (cases "n = 0")
    case True
    then show ?thesis using less.prems by (simp add: read_loop.simps)
  next
    case False
    have b: "0 < bs" "length img mod bs = 0" using blocks [OF less.prems(1)] by auto
    let ?c = "chunk bs off n"
    note c = chunk_bounds [OF b(1), of n off]
    have blk: "(off div bs + 1) * bs \<le> length img" using False less.prems by (intro block_in_image [OF _ b(2,1)]) simp
    then obtain s1 where s1: "rd s (off div bs) 1 = (Some (span img (off div bs * bs) bs), s1)" "holds s1 img"
      using rd_law [OF less.prems(1), of 1 "off div bs"] by auto
    have len: "length (span img (off div bs * bs) bs) = bs" using blk by (intro length_span) simp
    obtain s' where s': "read_loop (\<lambda>s lba. rd s lba 1) bs (off + ?c) (n - ?c) s1 = Some (Some (span img (off + ?c) (n - ?c)), s')"
      "holds s' img" using less.IH [OF _ s1(2), of "n - ?c" "off + ?c"] c False less.prems(2) by auto
    have "span img off ?c @ span img (off + ?c) (n - ?c) = span img off n"
      using span_add [of img off ?c "n - ?c"] c False by simp
    then show ?thesis
      using False b(1) s1(1) len s' span_chunk [OF b(1), of n img off]
      by (subst read_loop.simps) (simp add: fill_buffer_def Let_def)
  qed
qed

end

context block_store
begin

lemma write_chunk_patch:
  assumes h: "holds s img" and off: "off < length img" and xs: "length xs = chunk bs off n" "0 < n"
  shows "\<exists>s'. write_chunk (\<lambda>s lba. rd s lba 1) (\<lambda>s lba. wr s lba 1) bs off xs s = Some (True, s') \<and>
    holds s' (patch img off xs)"
proof -
  have b: "0 < bs" "length img mod bs = 0" using blocks [OF h] by auto
  have blk: "(off div bs + 1) * bs \<le> length img" by (rule block_in_image [OF off b(2,1)])
  show ?thesis
  proof (cases "off mod bs = 0 \<and> length xs = bs")
    case True
    then have "off div bs * bs = off" using div_mult_mod_eq [of off bs] by simp
    then show ?thesis
      using True wr_law [OF h, of 1 xs "off div bs"] blk by (auto simp: write_chunk_def)
  next
    case False
    obtain s1 where s1: "rd s (off div bs) 1 = (Some (span img (off div bs * bs) bs), s1)" "holds s1 img"
      using rd_law [OF h, of 1 "off div bs"] blk by auto
    have len: "length (span img (off div bs * bs) bs) = bs" using blk by (intro length_span) simp
    note c = chunk_bounds [OF b(1) xs(2), of off]
    let ?blk = "patch (span img (off div bs * bs) bs) (off mod bs) xs"
    have "length ?blk = bs" using c(3) xs(1) len by simp
    then obtain s2 where "wr s1 (off div bs) 1 ?blk = (True, s2)" "holds s2 (patch img (off div bs * bs) ?blk)"
      using wr_law [OF s1(2), of 1 ?blk "off div bs"] blk by auto
    moreover have "patch img (off div bs * bs) ?blk = patch img off xs"
      using patch_chunk [OF b(1) _ _ xs] blk c(1) xs(1) by simp
    ultimately show ?thesis using False s1(1) len by (auto simp: write_chunk_def fill_buffer_def Let_def)
  qed
qed

lemma write_loop_patch:
  assumes "holds s img" and "off + length src \<le> length img"
  shows "\<exists>s'. write_loop (\<lambda>s lba. rd s lba 1) (\<lambda>s lba. wr s lba 1) bs off src s = Some (True, s') \<and> holds s' (patch img off src)"
  using assms
proof (induction "length src" arbitrary: off src s img rule: less_induct)
  case less
  show ?case
  proof (cases "src = []")
    case True
    then show ?thesis using less.prems by (simp add: write_loop.simps)
  next
    case False
    have b: "0 < bs" using blocks [OF less.prems(1)] by simp
    let ?c = "chunk bs off (length src)"
    have n: "0 < length src" using False by simp
    note c = chunk_bounds [OF b n, of off]
    have lt: "length (take ?c src) = ?c" using c(2) by simp
    have off: "off < length img" using n less.prems(2) by linarith
    obtain s1 where s1: "write_chunk (\<lambda>s lba. rd s lba 1) (\<lambda>s lba. wr s lba 1) bs off (take ?c src) s = Some (True, s1)"
      "holds s1 (patch img off (take ?c src))" using write_chunk_patch [OF less.prems(1) off lt n] by blast
    have "off + length (take ?c src) \<le> length img" using lt c(2) less.prems(2) by simp
    then have l1: "length (patch img off (take ?c src)) = length img" by simp
    obtain s' where s': "write_loop (\<lambda>s lba. rd s lba 1) (\<lambda>s lba. wr s lba 1) bs (off + ?c) (drop ?c src) s1 = Some (True, s')"
      "holds s' (patch (patch img off (take ?c src)) (off + ?c) (drop ?c src))"
      using less.hyps [OF _ s1(2), of "drop ?c src" "off + ?c"] c less.prems(2) l1 n by fastforce
    have "patch (patch img off (take ?c src)) (off + ?c) (drop ?c src) = patch img off src"
      using patch_append [of off "take ?c src" "drop ?c src" img] lt less.prems(2) by simp
    then show ?thesis using False b s1(1) s' by (subst write_loop.simps) (simp add: Let_def)
  qed
qed

end

section \<open>Streams over devices\<close>

definition stream_on :: "'s BlockDevice \<Rightarrow> bool \<Rightarrow> 's DiskStream option" where
  "stream_on d ro = Some \<lparr>ds_device = d, ds_device_type = DISKSTREAM_DEVICE_BLOCK, isOpen = True, readonly = ro\<rparr>"

lemma range_ok_iff:
  assumes "0 < logical_block_size d" and "0 < n" and "total_blocks d * logical_block_size d < 2 ^ 64" and "total_blocks d \<noteq> 0"
  shows "range_ok d off n \<longleftrightarrow> off + n \<le> total_blocks d * logical_block_size d"
proof -
  let ?b = "logical_block_size d" and ?t = "total_blocks d"
  have "off div ?b < ?t \<longleftrightarrow> off < ?t * ?b" "(off + n - 1) div ?b < ?t \<longleftrightarrow> off + n - 1 < ?t * ?b"
    using assms(1) by (simp_all add: div_less_iff_less_mult)
  moreover have "off + n \<le> ?t * ?b \<Longrightarrow> off \<le> 2 ^ 64 - 1 - (n - 1)" using assms(2,3) by linarith
  ultimately show ?thesis using assms(2,4) unfolding range_ok_def Let_def by (auto; linarith)
qed

lemma read_stream:
  assumes d: "drives d (on_drv H)" and h: "on_drv H k img" and size: "length img < 2 ^ 64"
    and n: "0 < n" "off + n \<le> length img"
  obtains k' where "DiskStream_Read (stream_on d ro) k off n = Some (Some (span img off n), k')" "on_drv H k' img"
proof -
  have len: "length img = total_blocks d * logical_block_size d" and b: "0 < logical_block_size d" and m: "k_mallocs k = []"
    using d h by (auto simp: drives_def)
  let ?k = "k\<lparr>k_last := k_last k + 2\<rparr>"
  have "dev_holds d (on_drv H) ?k img" using d h by (simp add: dev_holds_def)
  from bd.read_loop_span [OF this n(2)] obtain k' where
    k': "read_loop (\<lambda>k lba. BlockDevice_Read (Some d) k lba 1) (logical_block_size d) off n ?k = Some (Some (span img off n), k')"
    "on_drv H k' img" by (auto simp: dev_holds_def)
  moreover have "total_blocks d \<noteq> 0" using len n by (cases "total_blocks d") auto
  then have "range_ok d off n" using range_ok_iff [OF b n(1), of off] len size n(2) by simp
  ultimately have "DiskStream_Read (stream_on d ro) k off n = Some (Some (span img off n), k')"
    using b n(1) m by (simp add: DiskStream_Read_def stream_on_def Let_def kmalloc_no_failure)
  with k'(2) that show thesis by blast
qed

lemma write_stream:
  assumes d: "drives d (on_drv H)" and h: "on_drv H k img" and size: "length img < 2 ^ 64"
    and n: "src \<noteq> []" "off + length src \<le> length img"
  obtains k' where "DiskStream_Write (stream_on d False) k off (Some src) = Some k'" "on_drv H k' (patch img off src)"
proof -
  obtain ops rd wr where o: "0 < logical_block_size d" "d_ops d = Some ops" "ops_write ops = Some wr"
    and fl: "\<And>fl s img. ops_flush ops = Some fl \<Longrightarrow> on_drv H s img \<Longrightarrow> \<exists>ok s'. fl (driver_ctx d) s = (ok, s') \<and> on_drv H s' img"
    using d by (rule drivesE) blast
  have len: "length img = total_blocks d * logical_block_size d" and m: "k_mallocs k = []"
    using d h by (auto simp: drives_def)
  let ?k = "k\<lparr>k_last := k_last k + 1\<rparr>"
  have "dev_holds d (on_drv H) ?k img" using d h by (simp add: dev_holds_def)
  from bd.write_loop_patch [OF this n(2)] obtain k1 where
    k1: "write_loop (\<lambda>k lba. BlockDevice_Read (Some d) k lba 1) (\<lambda>k lba. BlockDevice_Write (Some d) k lba 1)
      (logical_block_size d) off src ?k = Some (True, k1)" "on_drv H k1 (patch img off src)" by (auto simp: dev_holds_def)
  have "on_drv H (snd (BlockDevice_Flush (Some d) k1)) (patch img off src)"
    using fl [OF _ k1(2)] k1(2) o(2) by (cases "ops_flush ops") (auto simp: BlockDevice_Flush_def dev_op_def)
  moreover have "total_blocks d \<noteq> 0" using len n by (cases "total_blocks d") auto
  then have "range_ok d off (length src)" using range_ok_iff [OF o(1), of "length src" off] len size n by simp
  then have "DiskStream_Write (stream_on d False) k off (Some src) = Some (snd (BlockDevice_Flush (Some d) k1))"
    using o n(1) m k1(1)
    by (simp add: DiskStream_Write_def diskstream_can_write_def stream_on_def dev_op_def Let_def kmalloc_no_failure)
  ultimately show thesis using that by blast
qed

section \<open>Properties\<close>

text \<open>C33. On a device whose driver keeps its contract, \<open>DiskStream_Read\<close> returns the bytes of the range,
  however it lies across blocks. A range that does not lie in the device is refused before any
  transfer.\<close>

theorem diskstream_read_correct:
  assumes "drives d (on_drv H)" and "on_drv H k img" and "length img < 2 ^ 64" and "0 < n"
    and "img \<noteq> []"
  shows "if off + n \<le> length img
    then \<exists>k'. DiskStream_Read (stream_on d ro) k off n = Some (Some (span img off n), k') \<and> on_drv H k' img
    else DiskStream_Read (stream_on d ro) k off n = Some (None, k)"
proof (cases "off + n \<le> length img")
  case True
  then show ?thesis using read_stream [OF assms(1-4) True, of ro] by auto
next
  case False
  have len: "length img = total_blocks d * logical_block_size d" and b: "0 < logical_block_size d"
    using assms(1,2) by (auto simp: drives_def)
  moreover have "total_blocks d \<noteq> 0" using len assms(5) by (cases "total_blocks d") auto
  ultimately have "\<not> range_ok d off n" using range_ok_iff [OF b assms(4), of off] assms(3) False by simp
  then show ?thesis using False b assms(4) by (simp add: DiskStream_Read_def stream_on_def Let_def)
qed

theorem diskstream_read_correct_witness:
  "\<exists>k'. DiskStream_Read (stream_on (ram_disk 4 3) True) (ram_kernel [1, 2, 3, 4, 5, 6, 7, 8, 9, 10, 11, 12]) 3 6 =
    Some (Some [4, 5, 6, 7, 8, 9], k')"
  using diskstream_read_correct [OF ram_disk_drives [of 4 3], where k = "ram_kernel [1, 2, 3, 4, 5, 6, 7, 8, 9, 10, 11, 12]"
      and img = "[1, 2, 3, 4, 5, 6, 7, 8, 9, 10, 11, 12]" and n = 6 and off = 3 and ro = True]
  by (auto simp: ram_kernel_def span_def on_drv_def)

text \<open>C34. \<open>DiskStream_Write\<close> replaces exactly the bytes of the range: read back they are the ones
  written, and every range that does not meet it reads as before.\<close>

theorem diskstream_write_correct:
  assumes "drives d (on_drv H)" and "on_drv H k img" and "length img < 2 ^ 64"
    and "src \<noteq> []" and "off + length src \<le> length img"
  shows "\<exists>k' img'. DiskStream_Write (stream_on d False) k off (Some src) = Some k' \<and> on_drv H k' img' \<and>
    length img' = length img \<and> span img' off (length src) = src \<and>
    (\<forall>a n. a + n \<le> length img \<longrightarrow> a + n \<le> off \<or> off + length src \<le> a \<longrightarrow> span img' a n = span img a n)"
proof -
  obtain k' where "DiskStream_Write (stream_on d False) k off (Some src) = Some k'" "on_drv H k' (patch img off src)"
    using write_stream [OF assms] .
  moreover have "span (patch img off src) a n = span img a n"
    if "a + n \<le> length img" "a + n \<le> off \<or> off + length src \<le> a" for a n
    by (rule span_patch_other [OF assms(5) that])
  ultimately show ?thesis using span_patch_same [OF assms(5)] assms(5) by (intro exI [of _ k'] exI [of _ "patch img off src"]) simp
qed

theorem diskstream_write_correct_witness:
  "\<exists>k' img'. DiskStream_Write (stream_on (ram_disk 4 3) False) (ram_kernel (replicate 12 0)) 3 (Some [1, 2, 3, 4, 5, 6]) = Some k' \<and>
    k_drv k' = img' \<and> span img' 3 6 = [1, 2, 3, 4, 5, 6] \<and> span img' 9 3 = [0, 0, 0]"
proof -
  have z: "span (replicate 12 0) 9 3 = [0, 0, 0 :: byte]" by (simp add: span_def numeral_eq_Suc)
  have six: "Suc (Suc (Suc (Suc (Suc (Suc 0))))) = 6" by simp
  show ?thesis
    using diskstream_write_correct [OF ram_disk_drives [of 4 3], where k = "ram_kernel (replicate 12 0)"
        and img = "replicate 12 0" and src = "[1, 2, 3, 4, 5, 6]" and off = 3] z
    by (auto simp: ram_kernel_def six on_drv_def)
qed

end
