(* ===== verification/Volume.thy ===== *)
theory Volume
  imports Block_Device "HOL-Library.Char_ord"
begin

text \<open>
  Volumes, \<open>kernel/storage/VolumeManager.c\<close>: the list of volumes that the whole devices and their
  MBR and GPT partitions make up, and sector transfers relative to a volume. Structures are read
  from the bytes of the sectors; \<open>None\<close> as the result of a scan is an access outside a buffer, a read
  of bytes no transfer has written, or a name that leaves its buffer. Log output is left out, and
  with it the decoding of GPT labels, which are only logged.
\<close>

section \<open>Model\<close>

datatype VolumeType = VOLUME_TYPE_WHOLE_DEVICE | VOLUME_TYPE_MBR_PARTITION | VOLUME_TYPE_GPT_PARTITION

record 's Volume =
  vol_name :: "string option"
  vol_type :: VolumeType
  vol_device :: "'s BlockDevice"
  start_lba :: nat
  block_count :: nat
  block_size :: nat
  mbr_type :: nat
  attributes :: nat
  type_guid :: "byte list"
  unique_guid :: "byte list"

record 'd volume_manager = "'d blkdev_registry" +
  s_initialized :: bool
  s_volumes :: "'d kernel Volume list option"

definition volume_manager_ensure_init :: "'d volume_manager \<Rightarrow> 'd volume_manager" where
  "volume_manager_ensure_init st =
     (if s_initialized st then st
      else let st = BlockDevice_InitRegistry st; (p, k) = kmalloc (b_kernel st); st = st\<lparr>b_kernel := k\<rparr>
      in if p = NULL then st\<lparr>s_volumes := None\<rparr>
      else st\<lparr>s_volumes := Some [], s_initialized := True\<rparr>)"

definition VolumeManager_Init :: "'d volume_manager \<Rightarrow> 'd volume_manager" where
  "VolumeManager_Init st = volume_manager_ensure_init st"

text \<open>\<open>volume_allocate\<close>: the name is copied when there is one.\<close>

definition volume_allocate ::
  "'d kernel \<Rightarrow> 'd kernel BlockDevice \<Rightarrow> VolumeType \<Rightarrow> string option \<Rightarrow> nat \<Rightarrow> nat \<Rightarrow> nat \<Rightarrow> ('d kernel Volume option \<times> 'd kernel) option" where
  "volume_allocate k device type name start blocks bsize =
     (let (p, k) = kmalloc k
      in if p = NULL then Some (None, k)
      else do {
        k \<leftarrow> (if name = None then Some k else kstrdup k);
        Some (Some \<lparr>vol_name = name, vol_type = type, vol_device = device, start_lba = start, block_count = blocks,
                    block_size = bsize, mbr_type = 0, attributes = 0, type_guid = replicate 16 0,
                    unique_guid = replicate 16 0\<rparr>, k) })"

fun volume_clear_loop :: "'s Volume list \<Rightarrow> 's Volume list" where
  "volume_clear_loop [] = []"
| "volume_clear_loop (v # vs) = volume_clear_loop vs"

definition volume_manager_clear :: "'d volume_manager \<Rightarrow> 'd volume_manager" where
  "volume_manager_clear st = st\<lparr>s_volumes := map_option volume_clear_loop (s_volumes st)\<rparr>"

text \<open>The decimal digits that \<open>utoa\<close> writes.\<close>

fun decimal :: "nat \<Rightarrow> string" where
  "decimal n = (if n < 10 then [char_of (48 + n)] else decimal (n div 10) @ [char_of (48 + n mod 10)])"

declare decimal.simps [simp del]

text \<open>\<open>volume_base_name\<close> with an index, into a buffer of \<open>buffer_len\<close> characters. \<open>strncpy\<close> keeps the copy
  of the device's name inside, the two \<open>strcat\<close> may not.\<close>

definition volume_base_name :: "'s BlockDevice \<Rightarrow> nat \<Rightarrow> nat \<Rightarrow> string option" where
  "volume_base_name device buffer_len index =
     (let dev_name = (case d_name device of None \<Rightarrow> ''block'' | Some n \<Rightarrow> n);
          name = take (buffer_len - 1) dev_name @ ''p'' @ decimal (index mod 2 ^ 32)
      in if buffer_len \<le> length name then None else Some name)"

definition volume_manager_add :: "'d volume_manager \<Rightarrow> 'd kernel Volume \<Rightarrow> 'd volume_manager" where
  "volume_manager_add st volume =
     (case s_volumes st of
        None \<Rightarrow> st
      | Some vs \<Rightarrow> (let (vs, k) = list_add (b_kernel st) volume vs in st\<lparr>s_volumes := Some vs, b_kernel := k\<rparr>))"

text \<open>The common part of the two scans for one partition: allocate the volume, set the fields the entry
  gives, name it after the device and its index, and list it. The result says whether it was.\<close>

definition add_partition ::
  "'d volume_manager \<Rightarrow> 'd kernel BlockDevice \<Rightarrow> VolumeType \<Rightarrow> nat \<Rightarrow> nat \<Rightarrow> nat \<Rightarrow> ('d kernel Volume \<Rightarrow> 'd kernel Volume) \<Rightarrow> nat \<Rightarrow>
   (bool \<times> 'd volume_manager) option" where
  "add_partition st device type first blocks bsize set_fields index =
     do {
       (volume, k) \<leftarrow> volume_allocate (b_kernel st) device type None first blocks bsize;
       (let st = st\<lparr>b_kernel := k\<rparr>
        in case volume of
             None \<Rightarrow> Some (False, st)
           | Some volume \<Rightarrow> do {
               name \<leftarrow> volume_base_name device 64 index;
               k \<leftarrow> kstrdup (b_kernel st);
               Some (True, volume_manager_add (st\<lparr>b_kernel := k\<rparr>) ((set_fields volume)\<lparr>vol_name := Some name\<rparr>)) }) }"

definition GPT_ENTRY_SIZE :: nat where "GPT_ENTRY_SIZE = 128"

text \<open>The loop over the entries of a partition table, in \<open>entries\<close>.\<close>

function gpt_loop ::
  "'d kernel BlockDevice \<Rightarrow> nat \<Rightarrow> byte list \<Rightarrow> nat \<Rightarrow> nat \<Rightarrow> nat \<Rightarrow> nat \<Rightarrow> 'd volume_manager \<Rightarrow> 'd volume_manager option" where
  "gpt_loop device bsize entries entry_size entry_count i partition_index st =
     (if entry_count \<le> i then Some st
      else let base = i * entry_size
      in if length entries < base + 16 then None
      else let guid = span entries base 16
      in if list_all (\<lambda>b. b = 0) guid then gpt_loop device bsize entries entry_size entry_count (i + 1) partition_index st
      else if length entries < base + GPT_ENTRY_SIZE then None
      else let first_lba = le_value (span entries (base + 32) 8); last_lba = le_value (span entries (base + 40) 8);
               blocks = add64 (sub64 last_lba first_lba) 1
      in if last_lba < first_lba \<or> blocks = 0
         then gpt_loop device bsize entries entry_size entry_count (i + 1) partition_index st
      else do {
        (added, st) \<leftarrow> add_partition st device VOLUME_TYPE_GPT_PARTITION first_lba blocks bsize
          (\<lambda>v. v\<lparr>type_guid := guid, unique_guid := span entries (base + 16) 16,
                 attributes := le_value (span entries (base + 48) 8), mbr_type := 238\<rparr>) partition_index;
        gpt_loop device bsize entries entry_size entry_count (i + 1) (if added then partition_index + 1 else partition_index) st })"
  by pat_completeness auto
termination
  by (relation "measure (\<lambda>(device, bsize, entries, entry_size, entry_count, i, partition_index, st). entry_count - i)") auto

declare gpt_loop.simps [simp del]

text \<open>\<open>"EFI PART"\<close>\<close>

definition GPT_SIGNATURE :: "byte list" where
  "GPT_SIGNATURE = [69, 70, 73, 32, 80, 65, 82, 84]"

definition volume_scan_gpt :: "'d kernel BlockDevice \<Rightarrow> nat \<Rightarrow> 'd volume_manager \<Rightarrow> 'd volume_manager option" where
  "volume_scan_gpt device bsize st =
     (let (p, k) = kmalloc (b_kernel st); st = st\<lparr>b_kernel := k\<rparr>
      in if p = NULL then Some st
      else let (header, k) = BlockDevice_Read (Some device) k 1 1; st = st\<lparr>b_kernel := k\<rparr>
      in case header of
           None \<Rightarrow> Some st
         | Some header \<Rightarrow>
             if length header \<noteq> bsize \<or> bsize < 8 then None
             else if span header 0 8 \<noteq> GPT_SIGNATURE then Some st
             else do {
               entry_size \<leftarrow> get_le 4 header 84;
               entry_count \<leftarrow> get_le 4 header 80;
               entry_lba \<leftarrow> get_le 8 header 72;
               (if entry_size < GPT_ENTRY_SIZE \<or> entry_count = 0 then Some st
                else let table_size_bytes = entry_size * entry_count;
                         blocks_to_read = (table_size_bytes + bsize - 1) div bsize;
                         (p, k) = kmalloc (b_kernel st); st = st\<lparr>b_kernel := k\<rparr>
                in if p = NULL then Some st
                else let (entries, k) = BlockDevice_Read (Some device) k entry_lba (blocks_to_read mod 2 ^ 32); st = st\<lparr>b_kernel := k\<rparr>
                in case entries of
                     None \<Rightarrow> Some st
                   | Some entries \<Rightarrow>
                       if mul64 blocks_to_read bsize < length entries then None
                       else gpt_loop device bsize entries entry_size entry_count 0 1 st) })"

text \<open>The four entries of an MBR: type, first sector and number of sectors.\<close>

definition mbr_entry :: "byte list \<Rightarrow> nat \<Rightarrow> nat \<times> nat \<times> nat" where
  "mbr_entry sector i = (let e = 446 + 16 * i in
     (le_value (span sector (e + 4) 1), le_value (span sector (e + 8) 4), le_value (span sector (e + 12) 4)))"

fun mbr_loop :: "'d kernel BlockDevice \<Rightarrow> nat \<Rightarrow> byte list \<Rightarrow> nat list \<Rightarrow> 'd volume_manager \<Rightarrow> 'd volume_manager option" where
  "mbr_loop device bsize sector [] st = Some st"
| "mbr_loop device bsize sector (i # is) st =
     (let (part_type, first_lba, sector_count) = mbr_entry sector i
      in if part_type = 0 \<or> sector_count = 0 then mbr_loop device bsize sector is st
      else do {
        (_, st) \<leftarrow> add_partition st device VOLUME_TYPE_MBR_PARTITION first_lba sector_count bsize
          (\<lambda>v. v\<lparr>mbr_type := part_type\<rparr>) (i + 1);
        mbr_loop device bsize sector is st })"

definition volume_scan_mbr :: "'d kernel BlockDevice \<Rightarrow> nat \<Rightarrow> 'd volume_manager \<Rightarrow> 'd volume_manager option" where
  "volume_scan_mbr device bsize st =
     (let (p, k) = kmalloc (b_kernel st); st = st\<lparr>b_kernel := k\<rparr>
      in if p = NULL then Some st
      else let (sector, k) = BlockDevice_Read (Some device) k 0 1; st = st\<lparr>b_kernel := k\<rparr>
      in case sector of
           None \<Rightarrow> Some st
         | Some sector \<Rightarrow>
             if length sector \<noteq> bsize \<or> bsize < 512 then None
             else if \<not> (sector ! 510 = 85 \<and> sector ! 511 = 170) then Some st
             else if list_ex (\<lambda>i. fst (mbr_entry sector i) = 238) [0, 1, 2, 3] then volume_scan_gpt device bsize st
             else mbr_loop device bsize sector [0, 1, 2, 3] st)"

fun rebuild_loop :: "'d kernel BlockDevice list \<Rightarrow> 'd volume_manager \<Rightarrow> 'd volume_manager option" where
  "rebuild_loop [] st = Some st"
| "rebuild_loop (device # ds) st =
     (let bsize = (if logical_block_size device \<noteq> 0 then logical_block_size device else 512);
          base_name = (case d_name device of None \<Rightarrow> ''disk'' | Some n \<Rightarrow> n)
      in do {
        (whole, k) \<leftarrow> volume_allocate (b_kernel st) device VOLUME_TYPE_WHOLE_DEVICE (Some base_name) 0 (total_blocks device) bsize;
        (let st = st\<lparr>b_kernel := k\<rparr>;
             st = (case whole of None \<Rightarrow> st | Some whole \<Rightarrow> volume_manager_add st (whole\<lparr>mbr_type := 0\<rparr>))
         in do {
           st \<leftarrow> (if d_type device \<noteq> BLKDEV_TYPE_CDROM then volume_scan_mbr device bsize st else Some st);
           rebuild_loop ds st }) })"

definition VolumeManager_Rebuild :: "'d volume_manager \<Rightarrow> 'd volume_manager option" where
  "VolumeManager_Rebuild st =
     (let st = volume_manager_ensure_init st
      in if s_volumes st = None then Some st
      else rebuild_loop (case s_blkdev_list st of None \<Rightarrow> [] | Some ds \<Rightarrow> ds) (volume_manager_clear st))"

definition VolumeManager_Count :: "'d volume_manager \<Rightarrow> nat" where
  "VolumeManager_Count st = (case s_volumes st of None \<Rightarrow> 0 | Some vs \<Rightarrow> length vs)"

definition VolumeManager_GetAt :: "'d volume_manager \<Rightarrow> nat \<Rightarrow> 'd kernel Volume option" where
  "VolumeManager_GetAt st index =
     (case s_volumes st of None \<Rightarrow> None | Some vs \<Rightarrow> if index < length vs then Some (vs ! index) else None)"

definition Volume_Name :: "'s Volume option \<Rightarrow> string option" where
  "Volume_Name volume = Option.bind volume vol_name"

definition Volume_BlockSize :: "'s Volume option \<Rightarrow> nat" where
  "Volume_BlockSize volume = (case volume of None \<Rightarrow> 0 | Some v \<Rightarrow> block_size v)"

definition Volume_Length :: "'s Volume option \<Rightarrow> nat" where
  "Volume_Length volume = (case volume of None \<Rightarrow> 0 | Some v \<Rightarrow> block_count v)"

definition Volume_StartLBA :: "'s Volume option \<Rightarrow> nat" where
  "Volume_StartLBA volume = (case volume of None \<Rightarrow> 0 | Some v \<Rightarrow> start_lba v)"

text \<open>The sector a volume-relative transfer starts at on the device, when the check lets it pass.\<close>

definition volume_range :: "'s Volume \<Rightarrow> nat \<Rightarrow> nat \<Rightarrow> nat option" where
  "volume_range v lba count =
     (let absolute_lba = add64 (start_lba v) lba
      in if add64 (start_lba v) (block_count v) < add64 absolute_lba count then None else Some absolute_lba)"

definition Volume_ReadSectors :: "'s Volume option \<Rightarrow> 's \<Rightarrow> nat \<Rightarrow> nat \<Rightarrow> byte list option \<times> 's" where
  "Volume_ReadSectors volume s lba count =
     (case volume of
        None \<Rightarrow> (None, s)
      | Some v \<Rightarrow>
          if count = 0 then (None, s)
          else (case volume_range v lba count of
                  None \<Rightarrow> (None, s)
                | Some absolute_lba \<Rightarrow> BlockDevice_Read (Some (vol_device v)) s absolute_lba count))"

definition Volume_WriteSectors :: "'s Volume option \<Rightarrow> 's \<Rightarrow> nat \<Rightarrow> nat \<Rightarrow> byte list \<Rightarrow> bool \<times> 's" where
  "Volume_WriteSectors volume s lba count buffer =
     (case volume of
        None \<Rightarrow> (False, s)
      | Some v \<Rightarrow>
          if count = 0 then (False, s)
          else (case volume_range v lba count of
                  None \<Rightarrow> (False, s)
                | Some absolute_lba \<Rightarrow> BlockDevice_Write (Some (vol_device v)) s absolute_lba count buffer))"

section \<open>A volume as a block store\<close>

text \<open>The volume's part of the device, between the blocks before and behind it.\<close>

definition vol_holds :: "'s Volume \<Rightarrow> ('s \<Rightarrow> image \<Rightarrow> bool) \<Rightarrow> image \<Rightarrow> image \<Rightarrow> 's \<Rightarrow> image \<Rightarrow> bool" where
  "vol_holds v holds pre post s img \<longleftrightarrow> dev_holds (vol_device v) holds s (pre @ img @ post) \<and>
     block_size v = logical_block_size (vol_device v) \<and> length pre = start_lba v * block_size v \<and>
     length img = block_count v * block_size v \<and> total_blocks (vol_device v) < 2 ^ 64"

lemma volume_range_inside:
  assumes "start_lba v + block_count v < 2 ^ 64" and "lba + n \<le> block_count v"
  shows "volume_range v lba n = Some (start_lba v + lba)"
  using assms by (simp add: volume_range_def Let_def add64_small)

lemma span_inner: "length pre = a \<Longrightarrow> off + n \<le> length img \<Longrightarrow> span (pre @ img @ post) (a + off) n = span img off n"
  by (simp add: span_def)

lemma patch_inner:
  "length pre = a \<Longrightarrow> off + length xs \<le> length img \<Longrightarrow> patch (pre @ img @ post) (a + off) xs = pre @ patch img off xs @ post"
  by (simp add: patch_def)

interpretation vol: block_store "vol_holds v holds pre post" "block_size v" "Volume_ReadSectors (Some v)" "Volume_WriteSectors (Some v)"
  for v holds pre post
proof
  fix s img lba n and xs :: "byte list"
  let ?d = "vol_device v" and ?b = "block_size v"
  assume h: "vol_holds v holds pre post s img"
  then have d: "dev_holds ?d holds s (pre @ img @ post)" and b: "?b = logical_block_size ?d"
    and pre: "length pre = start_lba v * ?b" and img: "length img = block_count v * ?b" and t: "total_blocks ?d < 2 ^ 64"
    by (simp_all add: vol_holds_def)
  have b0: "0 < ?b" using bd.blocks [OF d] b by simp
  have "length (pre @ img @ post) = total_blocks ?d * ?b" using d b unfolding dev_holds_def drives_def by metis
  then have "(start_lba v + block_count v) * ?b \<le> total_blocks ?d * ?b" using pre img by (simp add: add_mult_distrib)
  then have fit: "start_lba v + block_count v \<le> total_blocks ?d" using b0 by simp
  show "0 < ?b \<and> length img mod ?b = 0" using b0 img by simp
  have off: "lba * ?b + n * ?b \<le> length img" "(start_lba v + lba) * ?b = start_lba v * ?b + lba * ?b"
    "(start_lba v + lba + n) * ?b \<le> length (pre @ img @ post)"
    if "(lba + n) * ?b \<le> length img" using that pre img b0 by (simp_all add: add_mult_distrib)
  have cnt: "lba + n \<le> block_count v" if "(lba + n) * ?b \<le> length img" using that img b0 by simp
  show "\<exists>s'. Volume_ReadSectors (Some v) s lba n = (Some (span img (lba * ?b) (n * ?b)), s') \<and> vol_holds v holds pre post s' img"
    if n: "0 < n" "n < 2 ^ 32" "(lba + n) * ?b \<le> length img"
  proof -
    note o = off [OF n(3)] cnt [OF n(3)]
    have r: "volume_range v lba n = Some (start_lba v + lba)" using o(4) fit t by (intro volume_range_inside) auto
    obtain s' where "BlockDevice_Read (Some ?d) s (start_lba v + lba) n =
        (Some (span (pre @ img @ post) ((start_lba v + lba) * ?b) (n * ?b)), s')" "dev_holds ?d holds s' (pre @ img @ post)"
      using bd.rd_law [OF d n(1,2)] o(3) b by metis
    then show ?thesis
      using r n(1) h span_inner [OF pre o(1), of post] by (simp add: Volume_ReadSectors_def vol_holds_def o(2))
  qed
  show "\<exists>s'. Volume_WriteSectors (Some v) s lba n xs = (True, s') \<and> vol_holds v holds pre post s' (patch img (lba * ?b) xs)"
    if n: "0 < n" "n < 2 ^ 32" "length xs = n * ?b" "(lba + n) * ?b \<le> length img"
  proof -
    note o = off [OF n(4)] cnt [OF n(4)]
    have r: "volume_range v lba n = Some (start_lba v + lba)" using o(4) fit t by (intro volume_range_inside) auto
    obtain s' where "BlockDevice_Write (Some ?d) s (start_lba v + lba) n xs = (True, s')"
        "dev_holds ?d holds s' (patch (pre @ img @ post) ((start_lba v + lba) * ?b) xs)"
      using bd.wr_law [OF d n(1,2)] o(3) n(3) b by metis
    moreover have "lba * ?b + length xs \<le> length img" using o(1) n(3) by simp
    ultimately show ?thesis
      using r n(1) h patch_inner [OF pre, of "lba * ?b" xs img post] by (simp add: Volume_WriteSectors_def vol_holds_def o(2))
  qed
qed

section \<open>What the scans find\<close>

definition base_label :: "'s BlockDevice \<Rightarrow> string" where
  "base_label d = (case d_name d of None \<Rightarrow> ''block'' | Some n \<Rightarrow> n)"

definition blank_volume :: "'s BlockDevice \<Rightarrow> VolumeType \<Rightarrow> nat \<Rightarrow> nat \<Rightarrow> nat \<Rightarrow> 's Volume" where
  "blank_volume d type first blocks bsize =
     \<lparr>vol_name = None, vol_type = type, vol_device = d, start_lba = first, block_count = blocks, block_size = bsize,
      mbr_type = 0, attributes = 0, type_guid = replicate 16 0, unique_guid = replicate 16 0\<rparr>"

definition part_name :: "'s BlockDevice \<Rightarrow> nat \<Rightarrow> string" where
  "part_name d index = base_label d @ ''p'' @ decimal index"

definition mbr_used :: "byte list \<Rightarrow> nat \<Rightarrow> bool" where
  "mbr_used sector i \<longleftrightarrow> fst (mbr_entry sector i) \<noteq> 0 \<and> snd (snd (mbr_entry sector i)) \<noteq> 0"

definition mbr_volume :: "'s BlockDevice \<Rightarrow> nat \<Rightarrow> byte list \<Rightarrow> nat \<Rightarrow> 's Volume" where
  "mbr_volume d bsize sector i =
     (let (type, first, count) = mbr_entry sector i
      in (blank_volume d VOLUME_TYPE_MBR_PARTITION first count bsize)\<lparr>mbr_type := type, vol_name := Some (part_name d (i + 1))\<rparr>)"

text \<open>An entry of a GPT is used when its type is not all zero and its range is not empty.\<close>

definition gpt_first :: "byte list \<Rightarrow> nat \<Rightarrow> nat \<Rightarrow> nat" where
  "gpt_first entries entry_size i = le_value (span entries (i * entry_size + 32) 8)"

definition gpt_last :: "byte list \<Rightarrow> nat \<Rightarrow> nat \<Rightarrow> nat" where
  "gpt_last entries entry_size i = le_value (span entries (i * entry_size + 40) 8)"

definition gpt_used :: "byte list \<Rightarrow> nat \<Rightarrow> nat \<Rightarrow> bool" where
  "gpt_used entries entry_size i \<longleftrightarrow> \<not> list_all (\<lambda>b. b = 0) (span entries (i * entry_size) 16) \<and>
     gpt_first entries entry_size i \<le> gpt_last entries entry_size i \<and>
     gpt_last entries entry_size i - gpt_first entries entry_size i + 1 < 2 ^ 64"

definition gpt_volume :: "'s BlockDevice \<Rightarrow> nat \<Rightarrow> byte list \<Rightarrow> nat \<Rightarrow> nat \<Rightarrow> nat \<Rightarrow> 's Volume" where
  "gpt_volume d bsize entries entry_size i index =
     (blank_volume d VOLUME_TYPE_GPT_PARTITION (gpt_first entries entry_size i)
        (gpt_last entries entry_size i - gpt_first entries entry_size i + 1) bsize)
     \<lparr>type_guid := span entries (i * entry_size) 16, unique_guid := span entries (i * entry_size + 16) 16,
      attributes := le_value (span entries (i * entry_size + 48) 8), mbr_type := 238,
      vol_name := Some (part_name d index)\<rparr>"

fun gpt_volumes :: "'s BlockDevice \<Rightarrow> nat \<Rightarrow> byte list \<Rightarrow> nat \<Rightarrow> nat list \<Rightarrow> nat \<Rightarrow> 's Volume list" where
  "gpt_volumes d bsize entries entry_size [] index = []"
| "gpt_volumes d bsize entries entry_size (i # is) index =
     gpt_volume d bsize entries entry_size i index # gpt_volumes d bsize entries entry_size is (index + 1)"

text \<open>\<open>adds st vs st'\<close>: the list of volumes grew by \<open>vs\<close>, the drivers' data is the same.\<close>

definition adds :: "'d volume_manager \<Rightarrow> 'd kernel Volume list \<Rightarrow> 'd volume_manager \<Rightarrow> bool" where
  "adds st vs st' \<longleftrightarrow> (\<exists>ws. s_volumes st = Some ws \<and> s_volumes st' = Some (ws @ vs)) \<and>
     k_mallocs (b_kernel st') = [] \<and> k_drv (b_kernel st') = k_drv (b_kernel st)"

lemma adds_trans: "adds st vs st' \<Longrightarrow> adds st' ws st'' \<Longrightarrow> adds st (vs @ ws) st''"
  by (auto simp: adds_def)

lemma adds_refl: "s_volumes st \<noteq> None \<Longrightarrow> k_mallocs (b_kernel st) = [] \<Longrightarrow> adds st [] st"
  by (auto simp: adds_def)

lemma adds_ready: "adds st vs st' \<Longrightarrow> s_volumes st' \<noteq> None \<and> k_mallocs (b_kernel st') = []"
  by (auto simp: adds_def)

lemma length_decimal: "n < 10 ^ Suc k \<Longrightarrow> length (decimal n) \<le> Suc k"
proof (induction k arbitrary: n)
  case 0
  then show ?case by (simp add: decimal.simps)
next
  case (Suc k)
  then have "length (decimal (n div 10)) \<le> Suc k" by (intro Suc.IH) (simp add: div_less_iff_less_mult mult.commute)
  then show ?case by (subst decimal.simps) simp
qed

lemma base_name_fits:
  assumes "length (base_label d) \<le> 52" and "index < 2 ^ 32"
  shows "volume_base_name d 64 index = Some (part_name d index)"
proof -
  have "length (decimal index) \<le> Suc 9" using assms(2) by (intro length_decimal) simp
  then show ?thesis
    using assms unfolding volume_base_name_def part_name_def base_label_def [symmetric] Let_def by simp
qed

lemma add_partition_adds:
  assumes m: "k_mallocs (b_kernel st) = []" and v: "s_volumes st \<noteq> None"
    and name: "length (base_label d) \<le> 52" "index < 2 ^ 32"
  obtains st' where "add_partition st d type first blocks bsize set_fields index = Some (True, st')"
    "adds st [(set_fields (blank_volume d type first blocks bsize))\<lparr>vol_name := Some (part_name d index)\<rparr>] st'"
proof -
  obtain ws where ws: "s_volumes st = Some ws" using v by auto
  let ?k = "b_kernel st"
  show thesis
    by (rule that [of "st\<lparr>s_volumes := Some (ws @ [(set_fields (blank_volume d type first blocks bsize))\<lparr>vol_name := Some (part_name d index)\<rparr>]),
        b_kernel := ?k\<lparr>k_last := k_last ?k + 3\<rparr>\<rparr>"])
      (use m ws base_name_fits [OF name] in \<open>simp_all add: add_partition_def volume_allocate_def volume_manager_add_def
        list_add_def kstrdup_def kmalloc_no_failure adds_def blank_volume_def\<close>)
qed

lemma mbr_loop_adds:
  assumes "k_mallocs (b_kernel st) = []" and "s_volumes st \<noteq> None" and name: "length (base_label d) \<le> 52"
    and "\<forall>i \<in> set is. i < 4"
  shows "\<exists>st'. mbr_loop d bsize sector is st = Some st' \<and> adds st (map (mbr_volume d bsize sector) (filter (mbr_used sector) is)) st'"
  using assms
proof (induction "is" arbitrary: st)
  case Nil
  then show ?case by (simp add: adds_refl)
next
  case (Cons i "is")
  obtain type first count where e: "mbr_entry sector i = (type, first, count)" by (cases "mbr_entry sector i") auto
  show ?case
  proof (cases "mbr_used sector i")
    case False
    then show ?thesis using Cons e by (auto simp: mbr_used_def)
  next
    case True
    have "i + 1 < 2 ^ 32" using Cons.prems(4) by auto
    then obtain st1 where s1: "add_partition st d VOLUME_TYPE_MBR_PARTITION first count bsize (\<lambda>v. v\<lparr>mbr_type := type\<rparr>) (i + 1) = Some (True, st1)"
      "adds st [(blank_volume d VOLUME_TYPE_MBR_PARTITION first count bsize)\<lparr>mbr_type := type, vol_name := Some (part_name d (i + 1))\<rparr>] st1"
      using add_partition_adds [OF Cons.prems(1,2) name] by metis
    obtain st2 where s2: "mbr_loop d bsize sector is st1 = Some st2"
      "adds st1 (map (mbr_volume d bsize sector) (filter (mbr_used sector) is)) st2"
      using Cons.IH [of st1] adds_ready [OF s1(2)] name Cons.prems(4) by auto
    have "mbr_volume d bsize sector i = (blank_volume d VOLUME_TYPE_MBR_PARTITION first count bsize)\<lparr>mbr_type := type, vol_name := Some (part_name d (i + 1))\<rparr>"
      by (simp add: mbr_volume_def e)
    moreover have "type \<noteq> 0" "count \<noteq> 0" using True e by (simp_all add: mbr_used_def)
    ultimately show ?thesis using adds_trans [OF s1(2) s2(2)] s1(1) s2(1) True e by simp
  qed
qed

lemma le_value_bound: "le_value bs < 256 ^ length bs"
proof (induction bs)
  case (Cons b bs)
  have "unat b < 256" using unsigned_less [of b] by simp
  with Cons show ?case by simp
qed simp

lemma gpt_field_bound: "gpt_first entries esz i < 2 ^ 64" "gpt_last entries esz i < 2 ^ 64"
proof -
  have "le_value (span entries a 8) < 2 ^ 64" for a
  proof -
    have "length (span entries a 8) \<le> 8" by (simp add: span_def)
    then have "(256 :: nat) ^ length (span entries a 8) \<le> 256 ^ 8" by (intro power_increasing) simp_all
    moreover have "(256 :: nat) ^ 8 = 2 ^ 64" by simp
    ultimately show ?thesis using le_value_bound [of "span entries a 8"] by linarith
  qed
  then show "gpt_first entries esz i < 2 ^ 64" "gpt_last entries esz i < 2 ^ 64"
    by (simp_all only: gpt_first_def gpt_last_def)
qed

lemma gpt_blocks:
  assumes "first \<le> last'" and "last' < 2 ^ 64"
  shows "add64 (sub64 last' first) 1 = (if last' - first + 1 < 2 ^ 64 then last' - first + 1 else 0)"
proof -
  have "sub64 last' first = last' - first" using assms by (simp add: sub64_le)
  moreover have "(last' - first + 1) mod 2 ^ 64 = (if last' - first + 1 < 2 ^ 64 then last' - first + 1 else 0)"
  proof (cases "last' - first + 1 < 2 ^ 64")
    case False
    then have "last' - first + 1 = 2 ^ 64" using assms by linarith
    then show ?thesis by (simp only: mod_self) simp
  qed (simp only: mod_less if_True)
  ultimately show ?thesis by (simp only: add64_def)
qed

lemma gpt_loop_adds:
  assumes "k_mallocs (b_kernel st) = []" and "s_volumes st \<noteq> None" and name: "length (base_label d) \<le> 52"
    and len: "entry_count * entry_size \<le> length entries" and esz: "GPT_ENTRY_SIZE \<le> entry_size"
    and idx: "i \<le> entry_count" "index + (entry_count - i) < 2 ^ 32"
  shows "\<exists>st'. gpt_loop d bsize entries entry_size entry_count i index st = Some st' \<and>
    adds st (gpt_volumes d bsize entries entry_size (filter (gpt_used entries entry_size) [i..<entry_count]) index) st'"
  using assms(1,2) idx
proof (induction "entry_count - i" arbitrary: i index st)
  case 0
  then show ?case by (simp add: gpt_loop.simps adds_refl)
next
  case (Suc n)
  then have i: "i < entry_count" by simp
  then have "(i + 1) * entry_size \<le> length entries" using len by (metis Suc_eq_plus1 Suc_leI le_trans mult_le_mono1)
  then have fit: "i * entry_size + GPT_ENTRY_SIZE \<le> length entries" "i * entry_size + 16 \<le> length entries"
    using esz by (auto simp: GPT_ENTRY_SIZE_def)
  have upt: "[i..<entry_count] = i # [i + 1..<entry_count]" using i by (simp add: upt_rec)
  have n: "n = entry_count - (i + 1)" and n': "i + 1 \<le> entry_count" "index + (entry_count - (i + 1)) < 2 ^ 32"
    "index + 1 + (entry_count - (i + 1)) < 2 ^ 32" using Suc.hyps(2) Suc.prems(4) i by linarith+
  let ?first = "gpt_first entries entry_size i" and ?last = "gpt_last entries entry_size i"
  note fl = gpt_first_def [of entries entry_size i, symmetric] gpt_last_def [of entries entry_size i, symmetric]
  note step = gpt_loop.simps [of d bsize entries entry_size entry_count i index st]
  show ?case
  proof (cases "gpt_used entries entry_size i")
    case False
    have "gpt_loop d bsize entries entry_size entry_count i index st = gpt_loop d bsize entries entry_size entry_count (i + 1) index st"
      using False i fit gpt_blocks [OF _ gpt_field_bound(2), of ?first entries entry_size i]
      unfolding step Let_def unfolding fl gpt_used_def by (auto simp: not_le)
    moreover obtain st' where "gpt_loop d bsize entries entry_size entry_count (i + 1) index st = Some st'"
      "adds st (gpt_volumes d bsize entries entry_size (filter (gpt_used entries entry_size) [i + 1..<entry_count]) index) st'"
      using Suc.hyps(1) [OF n Suc.prems(1,2) n'(1), of index] n'(2) by auto
    ultimately show ?thesis using False by (simp add: upt)
  next
    case True
    then have u: "\<not> list_all (\<lambda>b. b = 0) (span entries (i * entry_size) 16)" "?first \<le> ?last" "?last - ?first + 1 < 2 ^ 64"
      by (auto simp: gpt_used_def)
    have blocks: "add64 (sub64 ?last ?first) 1 = ?last - ?first + 1"
      using gpt_blocks [OF u(2) gpt_field_bound(2)] u(3) by simp
    let ?set = "\<lambda>v. v\<lparr>type_guid := span entries (i * entry_size) 16, unique_guid := span entries (i * entry_size + 16) 16,
      attributes := le_value (span entries (i * entry_size + 48) 8), mbr_type := 238\<rparr>"
    have ix: "index < 2 ^ 32" using Suc.prems(4) by simp
    obtain st1 where s1: "add_partition st d VOLUME_TYPE_GPT_PARTITION ?first (?last - ?first + 1) bsize ?set index = Some (True, st1)"
      "adds st [(?set (blank_volume d VOLUME_TYPE_GPT_PARTITION ?first (?last - ?first + 1) bsize))\<lparr>vol_name := Some (part_name d index)\<rparr>] st1"
      using add_partition_adds [OF Suc.prems(1,2) name ix, of VOLUME_TYPE_GPT_PARTITION ?first "?last - ?first + 1" bsize ?set] .
    then have a1: "adds st [gpt_volume d bsize entries entry_size i index] st1" by (simp add: gpt_volume_def)
    obtain st' where s': "gpt_loop d bsize entries entry_size entry_count (i + 1) (index + 1) st1 = Some st'"
      "adds st1 (gpt_volumes d bsize entries entry_size (filter (gpt_used entries entry_size) [i + 1..<entry_count]) (index + 1)) st'"
      using Suc.hyps(1) [OF n _ _ n'(1), of st1 "index + 1"] adds_ready [OF a1] n'(3) by auto
    have "gpt_loop d bsize entries entry_size entry_count i index st = Some st'"
      using i fit u s1(1) s'(1) blocks unfolding step Let_def unfolding fl by (simp add: not_le not_less)
    with adds_trans [OF a1 s'(2)] True show ?thesis by (simp add: upt)
  qed
qed

section \<open>Scanning a device\<close>

text \<open>\<open>found H img st vs st'\<close>: a scan of the device with image \<open>img\<close> has listed \<open>vs\<close>.\<close>

definition found :: "('d \<Rightarrow> image \<Rightarrow> bool) \<Rightarrow> image \<Rightarrow> 'd volume_manager \<Rightarrow> 'd kernel Volume list \<Rightarrow> 'd volume_manager \<Rightarrow> bool" where
  "found H img st vs st' \<longleftrightarrow> (\<exists>ws. s_volumes st = Some ws \<and> s_volumes st' = Some (ws @ vs)) \<and> on_drv H (b_kernel st') img"

lemma found_adds:
  "s_volumes st1 = s_volumes st \<Longrightarrow> on_drv H (b_kernel st1) img \<Longrightarrow> adds st1 vs st' \<Longrightarrow> found H img st vs st'"
  by (auto simp: found_def adds_def on_drv_def)

lemma read_block:
  assumes "drives d (on_drv H)" and "on_drv H k img" and "(lba + n) * logical_block_size d \<le> length img" and "0 < n" and "n < 2 ^ 32"
  obtains k' where "BlockDevice_Read (Some d) k lba n = (Some (span img (lba * logical_block_size d) (n * logical_block_size d)), k')"
    "on_drv H k' img"
  using bd.rd_law [of d "on_drv H" k img n lba] assms by (auto simp: dev_holds_def)

definition gpt_entry_size :: "image \<Rightarrow> nat \<Rightarrow> nat" where
  "gpt_entry_size img bsize = le_value (span img (bsize + 84) 4)"

definition gpt_entry_count :: "image \<Rightarrow> nat \<Rightarrow> nat" where
  "gpt_entry_count img bsize = le_value (span img (bsize + 80) 4)"

definition gpt_entries :: "image \<Rightarrow> nat \<Rightarrow> byte list" where
  "gpt_entries img bsize = span img (le_value (span img (bsize + 72) 8) * bsize)
     ((gpt_entry_size img bsize * gpt_entry_count img bsize + bsize - 1) div bsize * bsize)"

text \<open>A partition table that a scan accepts: the signature, entries of at least the standard size, and the
  table inside the device.\<close>

definition gpt_valid :: "image \<Rightarrow> nat \<Rightarrow> bool" where
  "gpt_valid img bsize \<longleftrightarrow> span img bsize 8 = GPT_SIGNATURE \<and> GPT_ENTRY_SIZE \<le> gpt_entry_size img bsize \<and>
     0 < gpt_entry_count img bsize \<and>
     (gpt_entry_size img bsize * gpt_entry_count img bsize + bsize - 1) div bsize < 2 ^ 32 \<and>
     (le_value (span img (bsize + 72) 8) + (gpt_entry_size img bsize * gpt_entry_count img bsize + bsize - 1) div bsize) * bsize
       \<le> length img \<and> length img < 2 ^ 64 \<and> gpt_entry_count img bsize < 2 ^ 32 - 1"

definition gpt_found :: "'s BlockDevice \<Rightarrow> image \<Rightarrow> 's Volume list" where
  "gpt_found d img = (let bsize = logical_block_size d; es = gpt_entries img bsize; sz = gpt_entry_size img bsize
     in gpt_volumes d bsize es sz (filter (gpt_used es sz) [0..<gpt_entry_count img bsize]) 1)"

lemma table_fits: "0 < b \<Longrightarrow> n \<le> (n + b - 1) div b * (b :: nat)"
  using div_mult_mod_eq [of "n + b - 1" b] mod_less_divisor [of b "n + b - 1"] by linarith

lemma volume_scan_gpt_found:
  assumes d: "drives d (on_drv H)" and h: "on_drv H (b_kernel st) img" and v: "s_volumes st \<noteq> None"
    and name: "length (base_label d) \<le> 52" and bs: "512 \<le> logical_block_size d"
    and two: "2 * logical_block_size d \<le> length img" and gpt: "gpt_valid img (logical_block_size d)"
  shows "\<exists>st'. volume_scan_gpt d (logical_block_size d) st = Some st' \<and> found H img st (gpt_found d img) st'"
proof -
  let ?b = "logical_block_size d"
  let ?k = "b_kernel st"
  let ?header = "span img ?b ?b"
  let ?sz = "gpt_entry_size img ?b" and ?n = "gpt_entry_count img ?b" and ?lba = "le_value (span img (?b + 72) 8)"
  let ?blocks = "(?sz * ?n + ?b - 1) div ?b"
  have b0: "0 < ?b" using bs by simp
  have cnt: "?n < 2 ^ 32 - 1" using gpt by (simp add: gpt_valid_def)
  obtain k1 where k1: "BlockDevice_Read (Some d) (?k\<lparr>k_last := k_last ?k + 1\<rparr>) 1 1 = (Some ?header, k1)" "on_drv H k1 img"
    using read_block [OF d, of "?k\<lparr>k_last := k_last ?k + 1\<rparr>" img 1 1] h two by auto
  have hl: "length ?header = ?b" using two by (simp add: length_span)
  have fields: "span ?header 0 8 = span img ?b 8" "span ?header 84 4 = span img (?b + 84) 4"
    "span ?header 80 4 = span img (?b + 80) 4" "span ?header 72 8 = span img (?b + 72) 8"
    using bs span_span [of _ _ ?b img ?b] by simp_all
  have blocks: "0 < ?blocks" "?blocks < 2 ^ 32" "(?lba + ?blocks) * ?b \<le> length img" "length img < 2 ^ 64"
  proof -
    have "0 < ?sz * ?n" using gpt by (auto simp: gpt_valid_def GPT_ENTRY_SIZE_def)
    then have "?b \<le> ?sz * ?n + ?b - 1" by linarith
    then show "0 < ?blocks" using b0 by (simp add: div_greater_zero_iff)
    show "?blocks < 2 ^ 32" "(?lba + ?blocks) * ?b \<le> length img" "length img < 2 ^ 64"
      using gpt by (simp_all add: gpt_valid_def)
  qed
  let ?k1 = "k1\<lparr>k_last := k_last k1 + 1\<rparr>"
  obtain k2 where k2: "BlockDevice_Read (Some d) ?k1 ?lba ?blocks = (Some (gpt_entries img ?b), k2)" "on_drv H k2 img"
    using read_block [OF d, of ?k1 img ?lba ?blocks] k1(2) blocks by (auto simp: gpt_entries_def)
  have el: "length (gpt_entries img ?b) = ?blocks * ?b"
    unfolding gpt_entries_def using blocks(3) by (intro length_span) (simp add: add_mult_distrib)
  have small: "mul64 ?blocks ?b = ?blocks * ?b"
  proof -
    have "?blocks * ?b \<le> (?lba + ?blocks) * ?b" by simp
    also have "\<dots> < 2 ^ 64" using blocks(3,4) by simp
    finally show ?thesis by (rule mul64_small)
  qed
  let ?st = "st\<lparr>b_kernel := k2\<rparr>"
  have fit: "?n * ?sz \<le> length (gpt_entries img ?b)" using table_fits [OF b0, of "?sz * ?n"] el by (simp add: mult.commute)
  have sz: "GPT_ENTRY_SIZE \<le> ?sz" using gpt by (simp add: gpt_valid_def)
  obtain st' where st': "gpt_loop d ?b (gpt_entries img ?b) ?sz ?n 0 1 ?st = Some st'" "adds ?st (gpt_found d img) st'"
    using gpt_loop_adds [of ?st d ?n ?sz "gpt_entries img ?b" 0 1 ?b] k2(2) v name fit sz cnt by (auto simp: gpt_found_def Let_def)
  have "volume_scan_gpt d ?b st = Some st'"
    using h k1 k2(1) hl el small st'(1) bs gpt sz blocks(2)
    by (simp add: volume_scan_gpt_def Let_def kmalloc_no_failure get_le_def fields gpt_valid_def
        flip: gpt_entry_size_def gpt_entry_count_def)
  moreover have "found H img st (gpt_found d img) st'" using found_adds [OF _ _ st'(2)] k2(2) by simp
  ultimately show ?thesis by blast
qed

text \<open>What the first sector decides: no partitions without a signature, a GPT behind a protective entry,
  otherwise the used entries.\<close>

definition partitions :: "'s BlockDevice \<Rightarrow> image \<Rightarrow> 's Volume list" where
  "partitions d img =
     (let bsize = logical_block_size d; sector = span img 0 bsize
      in if \<not> (sector ! 510 = 85 \<and> sector ! 511 = 170) then []
         else if list_ex (\<lambda>i. fst (mbr_entry sector i) = 238) [0, 1, 2, 3] then gpt_found d img
         else map (mbr_volume d bsize sector) (filter (mbr_used sector) [0, 1, 2, 3]))"

definition protective :: "image \<Rightarrow> nat \<Rightarrow> bool" where
  "protective img bsize \<longleftrightarrow> list_ex (\<lambda>i. fst (mbr_entry (span img 0 bsize) i) = 238) [0, 1, 2, 3]"

lemma volume_scan_mbr_found:
  assumes d: "drives d (on_drv H)" and h: "on_drv H (b_kernel st) img" and v: "s_volumes st \<noteq> None"
    and name: "length (base_label d) \<le> 52" and bs: "512 \<le> logical_block_size d"
    and two: "2 * logical_block_size d \<le> length img"
    and gpt: "protective img (logical_block_size d) \<Longrightarrow> gpt_valid img (logical_block_size d)"
  shows "\<exists>st'. volume_scan_mbr d (logical_block_size d) st = Some st' \<and> found H img st (partitions d img) st'"
proof -
  let ?b = "logical_block_size d" and ?k = "b_kernel st"
  let ?s = "span img 0 ?b"
  obtain k1 where k1: "BlockDevice_Read (Some d) (?k\<lparr>k_last := k_last ?k + 1\<rparr>) 0 1 = (Some ?s, k1)" "on_drv H k1 img"
    using read_block [OF d, of "?k\<lparr>k_last := k_last ?k + 1\<rparr>" img 0 1] h two by auto
  let ?st = "st\<lparr>b_kernel := k1\<rparr>"
  have len: "length ?s = ?b" using two by (simp add: length_span)
  have run: "volume_scan_mbr d ?b st =
      (if \<not> (?s ! 510 = 85 \<and> ?s ! 511 = 170) then Some ?st
       else if list_ex (\<lambda>i. fst (mbr_entry ?s i) = 238) [0, 1, 2, 3] then volume_scan_gpt d ?b ?st
       else mbr_loop d ?b ?s [0, 1, 2, 3] ?st)"
    using h k1(1) len bs by (simp add: volume_scan_mbr_def Let_def kmalloc_no_failure)
  consider "\<not> (?s ! 510 = 85 \<and> ?s ! 511 = 170)"
    | "?s ! 510 = 85 \<and> ?s ! 511 = 170" "list_ex (\<lambda>i. fst (mbr_entry ?s i) = 238) [0, 1, 2, 3]"
    | "?s ! 510 = 85 \<and> ?s ! 511 = 170" "\<not> list_ex (\<lambda>i. fst (mbr_entry ?s i) = 238) [0, 1, 2, 3]" by blast
  then show ?thesis
  proof cases
    case 1
    then have "partitions d img = []" by (simp add: partitions_def Let_def)
    then show ?thesis using run 1 v k1(2) by (auto simp: found_def)
  next
    case 2
    then have "gpt_valid img ?b" using gpt by (simp add: protective_def)
    then obtain st' where "volume_scan_gpt d ?b ?st = Some st'" "found H img ?st (gpt_found d img) st'"
      using volume_scan_gpt_found [OF d _ _ name bs two, of ?st] k1(2) v by auto
    moreover have "partitions d img = gpt_found d img" using 2 by (simp add: partitions_def Let_def)
    ultimately show ?thesis using run 2 by (simp add: found_def)
  next
    case 3
    obtain st' where st': "mbr_loop d ?b ?s [0, 1, 2, 3] ?st = Some st'"
      "adds ?st (map (mbr_volume d ?b ?s) (filter (mbr_used ?s) [0, 1, 2, 3])) st'"
      using mbr_loop_adds [of ?st d "[0, 1, 2, 3]" ?b ?s] k1(2) v name by auto
    have "partitions d img = map (mbr_volume d ?b ?s) (filter (mbr_used ?s) [0, 1, 2, 3])"
      using 3 by (simp add: partitions_def Let_def)
    then show ?thesis using run 3 st' found_adds [OF _ _ st'(2), of st H img] k1(2) by auto
  qed
qed

definition whole_volume :: "'s BlockDevice \<Rightarrow> 's Volume" where
  "whole_volume d = (blank_volume d VOLUME_TYPE_WHOLE_DEVICE 0 (total_blocks d) (logical_block_size d))
     \<lparr>vol_name := Some (case d_name d of None \<Rightarrow> ''disk'' | Some n \<Rightarrow> n)\<rparr>"

lemma volume_clear_loop_eq [simp]: "volume_clear_loop vs = []"
  by (induction vs) auto

lemma le_value_zeroes [simp]: "le_value (replicate n 0) = 0"
  by (induction n) simp_all

text \<open>A disk of two sectors with one partition.\<close>

definition demo_disk :: image where
  "demo_disk = replicate 446 0 @ [128, 0, 0, 0, 6, 0, 0, 0, 1, 0, 0, 0, 1, 0, 0, 0] @ replicate 48 0 @ [85, 170] @ replicate 512 0"

definition demo_manager :: "image volume_manager" where
  "demo_manager = \<lparr>s_blkdev_list = Some [ram_disk 512 2], b_kernel = ram_kernel demo_disk, s_initialized = True, s_volumes = Some []\<rparr>"

definition demo_volume :: "image kernel Volume" where
  "demo_volume = blank_volume (ram_disk 4 3) VOLUME_TYPE_MBR_PARTITION 1 2 4"

lemma demo_volume_holds:
  "vol_holds demo_volume (on_drv (\<lambda>img i. i = img \<and> length img = 3 * 4)) [1, 2, 3, 4] [] (ram_kernel [1, 2, 3, 4, 5, 6, 7, 8, 9, 10, 11, 12])
     [5, 6, 7, 8, 9, 10, 11, 12]"
  using ram_disk_drives [of 4 3]
  by (simp add: vol_holds_def dev_holds_def demo_volume_def blank_volume_def ram_kernel_def on_drv_def) (simp add: ram_disk_def)

section \<open>Properties\<close>

text \<open>C35. \<open>VolumeManager_Rebuild\<close> on a disk lists the whole device and then exactly the partitions that its
  first sector and, behind a protective entry, its GPT describe, in their order and with their
  bounds; volumes listed before are gone.\<close>

theorem volume_rebuild_finds_partitions:
  assumes d: "drives d (on_drv H)" and h: "on_drv H (b_kernel st) img"
    and st: "s_initialized st" "s_volumes st \<noteq> None" "s_blkdev_list st = Some [d]"
    and name: "length (base_label d) \<le> 52" and bs: "512 \<le> logical_block_size d" and disk: "d_type d \<noteq> BLKDEV_TYPE_CDROM"
    and two: "2 \<le> total_blocks d" and gpt: "protective img (logical_block_size d) \<Longrightarrow> gpt_valid img (logical_block_size d)"
  shows "\<exists>st'. VolumeManager_Rebuild st = Some st' \<and> s_volumes st' = Some (whole_volume d # partitions d img)"
proof -
  have len: "length img = total_blocks d * logical_block_size d" using d h by (auto simp: drives_def)
  then have two': "2 * logical_block_size d \<le> length img" using two by simp
  obtain ws where ws: "s_volumes st = Some ws" using st(2) by auto
  let ?k = "b_kernel st"
  let ?st = "st\<lparr>s_volumes := Some [whole_volume d], b_kernel := ?k\<lparr>k_last := Suc (Suc (Suc (k_last ?k)))\<rparr>\<rparr>"
  obtain st' where st': "volume_scan_mbr d (logical_block_size d) ?st = Some st'" "found H img ?st (partitions d img) st'"
    using volume_scan_mbr_found [OF d _ _ name bs two' gpt, of ?st] h by auto
  have "VolumeManager_Rebuild st = Some st'"
    using st ws h bs disk st'(1)
    by (simp add: VolumeManager_Rebuild_def volume_manager_ensure_init_def volume_manager_clear_def Let_def
        volume_allocate_def kmalloc_no_failure kstrdup_def volume_manager_add_def list_add_def whole_volume_def blank_volume_def)
  with st'(2) show ?thesis by (auto simp: found_def)
qed

theorem volume_rebuild_finds_partitions_witness:
  "\<exists>st' v. VolumeManager_Rebuild demo_manager = Some st' \<and> s_volumes st' = Some [whole_volume (ram_disk 512 2), v] \<and>
    vol_name v = Some ''ramp1'' \<and> start_lba v = 1 \<and> block_count v = 1 \<and> mbr_type v = 6"
proof -
  let ?d = "ram_disk 512 2" and ?s = "span demo_disk 0 512"
  have e: "map (mbr_entry ?s) [0, 1, 2, 3] = [(6, 1, 1), (0, 0, 0), (0, 0, 0), (0, 0, 0)]"
    by (simp add: mbr_entry_def Let_def span_def demo_disk_def)
  have sig: "?s ! 510 = 85 \<and> ?s ! 511 = 170" by (simp add: span_def demo_disk_def nth_append)
  have len: "length demo_disk = 2 * 512" by (simp add: demo_disk_def)
  have d: "drives ?d (on_drv (\<lambda>img i. i = img \<and> length img = 2 * 512))" by (rule ram_disk_drives) simp
  have label: "base_label ?d = ''ram''" by (simp add: base_label_def ram_disk_def)
  have "partitions ?d demo_disk = [mbr_volume ?d 512 ?s 0]"
    using e sig by (simp add: partitions_def ram_disk_def mbr_used_def)
  moreover have "mbr_volume ?d 512 ?s 0 = (blank_volume ?d VOLUME_TYPE_MBR_PARTITION 1 1 512)\<lparr>mbr_type := 6, vol_name := Some (part_name ?d 1)\<rparr>"
    using e by (simp add: mbr_volume_def)
  moreover have "part_name ?d 1 = ''ramp1''" by (simp add: part_name_def label decimal.simps char_of_def bit_0)
  moreover have "\<not> protective demo_disk 512" using e by (simp add: protective_def)
  moreover have "on_drv (\<lambda>img i. i = img \<and> length img = 2 * 512) (b_kernel demo_manager) demo_disk"
    using len by (simp add: demo_manager_def ram_kernel_def on_drv_def)
  moreover have "s_initialized demo_manager" "s_volumes demo_manager \<noteq> None" "s_blkdev_list demo_manager = Some [?d]"
    "logical_block_size ?d = 512" "d_type ?d \<noteq> BLKDEV_TYPE_CDROM" "total_blocks ?d = 2"
    by (simp_all add: demo_manager_def ram_disk_def)
  ultimately obtain st' where "VolumeManager_Rebuild demo_manager = Some st'"
    "s_volumes st' = Some [whole_volume ?d, (blank_volume ?d VOLUME_TYPE_MBR_PARTITION 1 1 512)\<lparr>mbr_type := 6, vol_name := Some ''ramp1''\<rparr>]"
    using volume_rebuild_finds_partitions [OF d, of demo_manager demo_disk] label by auto
  then show ?thesis by (intro exI conjI) (assumption | simp add: blank_volume_def)+
qed

text \<open>C36. Sectors of a volume that fits its device are sectors of the device behind its start: what is
  written through \<open>Volume_WriteSectors\<close> is read back through \<open>Volume_ReadSectors\<close>, and the device
  outside the volume is left as it is.\<close>

theorem volume_write_read:
  assumes h: "vol_holds v holds pre post s img" and n: "0 < n" "n < 2 ^ 32" "(lba + n) * block_size v \<le> length img"
    and xs: "length xs = n * block_size v"
  shows "\<exists>s1 s2. Volume_WriteSectors (Some v) s lba n xs = (True, s1) \<and>
    Volume_ReadSectors (Some v) s1 lba n = (Some xs, s2) \<and>
    vol_holds v holds pre post s2 (patch img (lba * block_size v) xs)"
proof -
  obtain s1 where s1: "Volume_WriteSectors (Some v) s lba n xs = (True, s1)" "vol_holds v holds pre post s1 (patch img (lba * block_size v) xs)"
    using vol.wr_law [OF h n(1,2) xs n(3)] by blast
  have fit: "lba * block_size v + length xs \<le> length img" using n(3) xs by (simp add: add_mult_distrib)
  obtain s2 where s2: "Volume_ReadSectors (Some v) s1 lba n = (Some (span (patch img (lba * block_size v) xs) (lba * block_size v) (n * block_size v)), s2)"
    "vol_holds v holds pre post s2 (patch img (lba * block_size v) xs)"
    using vol.rd_law [OF s1(2) n(1,2), of lba] n(3) fit by auto
  then show ?thesis using s1(1) span_patch_same [OF fit] xs by auto
qed

theorem volume_write_read_witness:
  "\<exists>s1 s2. Volume_WriteSectors (Some demo_volume) (ram_kernel [1, 2, 3, 4, 5, 6, 7, 8, 9, 10, 11, 12]) 1 1 [0, 0, 0, 1] = (True, s1) \<and>
    Volume_ReadSectors (Some demo_volume) s1 1 1 = (Some [0, 0, 0, 1], s2)"
  using volume_write_read [OF demo_volume_holds, of 1 1 "[0, 0, 0, 1]"] by (auto simp: demo_volume_def blank_volume_def)

text \<open>The check of \<open>Volume_ReadSectors\<close> adds in 64 bits: a sector number just below \<open>2 ^ 64\<close> makes
  it read any sector of the device in front of the volume.\<close>

theorem volume_read_escapes:
  assumes "0 < n" and "j + n \<le> start_lba v" and "start_lba v + block_count v < 2 ^ 64"
  shows "Volume_ReadSectors (Some v) s (2 ^ 64 - start_lba v + j) n = BlockDevice_Read (Some (vol_device v)) s j n"
proof -
  have "add64 (start_lba v) (2 ^ 64 - start_lba v + j) = j"
    using assms by (simp add: add64_def)
  then show ?thesis using assms by (simp add: Volume_ReadSectors_def volume_range_def Let_def add64_small)
qed

theorem volume_read_escapes_witness:
  "Volume_ReadSectors (Some demo_volume) (ram_kernel [1, 2, 3, 4, 5, 6, 7, 8, 9, 10, 11, 12]) (2 ^ 64 - 1) 1 =
    (Some [1, 2, 3, 4], ram_kernel [1, 2, 3, 4, 5, 6, 7, 8, 9, 10, 11, 12])"
proof -
  have v: "start_lba demo_volume = 1" "block_count demo_volume = 2" "vol_device demo_volume = ram_disk 4 3"
    by (simp_all add: demo_volume_def blank_volume_def)
  show ?thesis
    using volume_read_escapes [of 1 0 demo_volume "ram_kernel [1, 2, 3, 4, 5, 6, 7, 8, 9, 10, 11, 12]"]
    by (simp add: v BlockDevice_Read_def dev_op_def) (simp add: ram_disk_def ram_kernel_def span_def)
qed

end
