(* ===== verification/Fat_Volume.thy ===== *)
theory Fat_Volume
  imports Volume CString
begin

text \<open>
  FAT volumes: the structures of \<open>kernel/filesystem/fat/fat_internal.h\<close>, the boot sector and
  directory entries as the bytes of a sector, and \<open>volume.c\<close>, \<open>fat16.c\<close> and \<open>fat32.c\<close>: recognising
  a volume, its geometry, sector and cluster transfer and the file allocation table. The
  hardware behind block devices is a state of its own type, part of the driver's data. The
  geometry of a volume whose areas fit its size is shown to keep every cluster inside, and the
  reads of sectors, clusters and table entries to return that part of the image.
\<close>

section \<open>32-bit arithmetic\<close>

definition add32 :: "nat \<Rightarrow> nat \<Rightarrow> nat" where "add32 a b = (a + b) mod 2 ^ 32"

definition sub32 :: "nat \<Rightarrow> nat \<Rightarrow> nat" where "sub32 a b = (a + 2 ^ 32 - b mod 2 ^ 32) mod 2 ^ 32"

definition mul32 :: "nat \<Rightarrow> nat \<Rightarrow> nat" where "mul32 a b = (a * b) mod 2 ^ 32"

section \<open>Structures\<close>

definition FAT_ATTR_VOLUME_ID :: u8 where "FAT_ATTR_VOLUME_ID = 0x08"
definition FAT_ATTR_DIRECTORY :: u8 where "FAT_ATTR_DIRECTORY = 0x10"
definition FAT_ATTR_LONG_NAME :: u8 where "FAT_ATTR_LONG_NAME = 0x0F"

text \<open>The fields of the boot sector that the driver looks at, with their places in the sector. The
  last four are those of the two variants of the union.\<close>

record FAT_BootSector =
  jmpBoot :: "byte list"
  bytesPerSector :: nat
  sectorsPerCluster :: nat
  reservedSectorCount :: nat
  numFATs :: nat
  rootEntryCount :: nat
  totalSectors16 :: nat
  FATSize16 :: nat
  totalSectors32 :: nat
  fat16_bootSignature :: nat
  FATSize32 :: nat
  rootCluster :: nat
  fat32_bootSignature :: nat

definition boot_sector :: "byte list \<Rightarrow> FAT_BootSector" where
  "boot_sector s =
     \<lparr>jmpBoot = span s 0 3, bytesPerSector = le_value (span s 11 2), sectorsPerCluster = le_value (span s 13 1),
      reservedSectorCount = le_value (span s 14 2), numFATs = le_value (span s 16 1),
      rootEntryCount = le_value (span s 17 2), totalSectors16 = le_value (span s 19 2),
      FATSize16 = le_value (span s 22 2), totalSectors32 = le_value (span s 32 4),
      fat16_bootSignature = le_value (span s 38 1), FATSize32 = le_value (span s 36 4),
      rootCluster = le_value (span s 44 4), fat32_bootSignature = le_value (span s 66 1)\<rparr>"

record FAT_DirEntry =
  e_name :: "byte list"
  e_attr :: u8
  fstClusHI :: nat
  fstClusLO :: nat
  fileSize :: nat

definition dir_entry :: "byte list \<Rightarrow> FAT_DirEntry" where
  "dir_entry s =
     \<lparr>e_name = span s 0 11, e_attr = s ! 11, fstClusHI = le_value (span s 20 2), fstClusLO = le_value (span s 26 2),
      fileSize = le_value (span s 28 4)\<rparr>"

datatype FATType = FAT_TYPE_INVALID | FAT_TYPE_16 | FAT_TYPE_32

text \<open>\<open>overlay_data\<close> is \<open>None\<close> when null, else the \<open>overlay_capacity\<close> bytes of the buffer.\<close>

record FATNodeInfo =
  i_volume :: ptr
  first_cluster :: nat
  info_size :: nat
  info_attr :: u8
  is_root :: bool
  overlay :: bool
  overlay_data :: "byte list option"
  overlay_size :: nat
  overlay_capacity :: nat
  overlay_children :: "ptr list option"

record 'x FATVolume =
  fv_device :: "'x BlockDevice option"
  backing_volume :: "'x Volume option"
  lba_offset :: nat
  fv_type :: FATType
  bytes_per_sector :: nat
  sectors_per_cluster :: nat
  cluster_size_bytes :: nat
  reserved_sectors :: nat
  fat_count :: nat
  sectors_per_fat :: nat
  root_dir_entries :: nat
  root_dir_sectors :: nat
  fat_start_sector :: nat
  root_dir_sector :: nat
  first_data_sector :: nat
  cluster_count :: nat
  root_cluster :: nat
  total_sectors :: nat
  fat_bits :: nat
  fv_nodes :: "ptr list option"

text \<open>The driver's data: its objects, the devices and volumes that pointers from outside refer to, the
  hardware, and whether \<open>s_fat_fs\<close> has its table yet.\<close>

record 'x fat_heap =
  f_infos :: "ptr \<Rightarrow> FATNodeInfo option"
  f_vols :: "ptr \<Rightarrow> 'x FATVolume option"
  f_devices :: "ptr \<Rightarrow> 'x BlockDevice option"
  f_volumes :: "ptr \<Rightarrow> 'x Volume option"
  f_disk :: 'x
  s_fat_fs_ops :: bool

type_synonym 'x fkernel = "'x fat_heap kernel"

section \<open>Transfer\<close>

definition on_disk :: "('x \<Rightarrow> 'a \<times> 'x) \<Rightarrow> 'x fkernel \<Rightarrow> 'a \<times> 'x fkernel" where
  "on_disk f k = (let (r, x) = f (f_disk (k_drv k)) in (r, k\<lparr>k_drv := (k_drv k)\<lparr>f_disk := x\<rparr>\<rparr>))"

text \<open>Sectors of the backing volume, or of the device if there is none.\<close>

definition fat_transfer :: "'x FATVolume \<Rightarrow> 'x \<Rightarrow> nat \<Rightarrow> nat \<Rightarrow> byte list option \<times> 'x" where
  "fat_transfer v x sector count =
     (case backing_volume v of
        Some bv \<Rightarrow> Volume_ReadSectors (Some bv) x sector count
      | None \<Rightarrow> BlockDevice_Read (fv_device v) x (add64 (lba_offset v) sector) count)"

text \<open>Both read into a buffer of the given size.\<close>

definition fat_volume_read_sector ::
  "'x FATVolume option \<Rightarrow> 'x fkernel \<Rightarrow> nat \<Rightarrow> nat \<Rightarrow> (byte list option \<times> 'x fkernel) option" where
  "fat_volume_read_sector volume k sector size_of_buffer =
     (case volume of
        None \<Rightarrow> Some (None, k)
      | Some v \<Rightarrow>
          if backing_volume v = None \<and> fv_device v = None then Some (None, k)
          else fill_buffer size_of_buffer (on_disk (\<lambda>x. fat_transfer v x sector 1) k))"

definition fat_volume_read_cluster ::
  "'x FATVolume option \<Rightarrow> 'x fkernel \<Rightarrow> nat \<Rightarrow> nat \<Rightarrow> (byte list option \<times> 'x fkernel) option" where
  "fat_volume_read_cluster volume k cluster size_of_buffer =
     (case volume of
        None \<Rightarrow> Some (None, k)
      | Some v \<Rightarrow>
          if cluster < 2 then Some (None, k)
          else let first_sector = add32 (first_data_sector v) (mul32 (cluster - 2) (sectors_per_cluster v))
          in fill_buffer size_of_buffer (on_disk (\<lambda>x. fat_transfer v x first_sector (sectors_per_cluster v)) k))"

text \<open>An entry of the table. The buffer has the size of a sector; an entry that does not lie in one
  sector is read from behind its end.\<close>

definition fat_read_fat_entry :: "'x FATVolume \<Rightarrow> 'x fkernel \<Rightarrow> nat \<Rightarrow> (nat \<times> 'x fkernel) option" where
  "fat_read_fat_entry v k cluster =
     (if bytes_per_sector v = 0 then None
      else let
        entry_size = (if fat_bits v = 32 then 4 else 2);
        fat_offset = mul32 cluster entry_size;
        sector = add32 (fat_start_sector v) (fat_offset div bytes_per_sector v);
        offset = fat_offset mod bytes_per_sector v;
        (buffer, k) = kmalloc k
      in if buffer = NULL then Some (0xFFFFFFFF, k)
      else do {
        (r, k) \<leftarrow> fat_volume_read_sector (Some v) k sector (bytes_per_sector v);
        (case r of
           None \<Rightarrow> Some (0xFFFFFFFF, k)
         | Some bytes \<Rightarrow>
             if fat_bits v = 32 then do { value \<leftarrow> get_le 4 bytes offset; Some (value mod 2 ^ 28, k) }
             else do { value \<leftarrow> get_le 2 bytes offset; Some (value, k) }) })"

definition fat_volume_get_next_cluster :: "'x FATVolume option \<Rightarrow> 'x fkernel \<Rightarrow> nat \<Rightarrow> (nat \<times> 'x fkernel) option" where
  "fat_volume_get_next_cluster volume k cluster =
     (case volume of None \<Rightarrow> Some (0xFFFFFFFF, k) | Some v \<Rightarrow> fat_read_fat_entry v k cluster)"

definition fat_volume_is_end :: "'x FATVolume option \<Rightarrow> nat \<Rightarrow> bool" where
  "fat_volume_is_end volume val =
     (case volume of
        None \<Rightarrow> True
      | Some v \<Rightarrow> val < 2 \<or> val = 0xFFFFFFFF \<or> (if fat_bits v = 32 then 0x0FFFFFF8 \<le> val else 0xFFF8 \<le> val))"

definition fat_volume_is_bad :: "'x FATVolume option \<Rightarrow> nat \<Rightarrow> bool" where
  "fat_volume_is_bad volume val =
     (case volume of
        None \<Rightarrow> True
      | Some v \<Rightarrow> if fat_bits v = 32 then val = 0x0FFFFFF7 else val = 0xFFF7)"

definition fat_volume_type_name :: "'x FATVolume option \<Rightarrow> string" where
  "fat_volume_type_name volume =
     (case volume of
        None \<Rightarrow> ''unknown''
      | Some v \<Rightarrow> (case fv_type v of FAT_TYPE_16 \<Rightarrow> ''FAT16'' | FAT_TYPE_32 \<Rightarrow> ''FAT32'' | _ \<Rightarrow> ''unsupported''))"

section \<open>Recognition and geometry\<close>

text \<open>The functions that fill in a volume return whether they accept it, and the volume as they leave
  it.\<close>

definition fat_volume_probe_type :: "'x FATVolume \<Rightarrow> FAT_BootSector \<Rightarrow> bool \<times> 'x FATVolume" where
  "fat_volume_probe_type v bpb =
     (let bps = bytesPerSector bpb; spc = sectorsPerCluster bpb; reserved = reservedSectorCount bpb; fats = numFATs bpb
      in if bps = 0 \<or> spc = 0 \<or> fats = 0 then (False, v)
      else let total = (if totalSectors16 bpb \<noteq> 0 then totalSectors16 bpb else totalSectors32 bpb)
      in if total = 0 then (False, v)
      else let fat_size = (if FATSize16 bpb = 0 then FATSize32 bpb else FATSize16 bpb)
      in if fat_size = 0 then (False, v)
      else let
        root_sectors = add32 (mul32 (rootEntryCount bpb) 32) (bps - 1) div bps;
        data_sectors = sub32 total (add32 (add32 reserved (mul32 fats fat_size)) root_sectors);
        clusters = data_sectors div spc;
        v = v\<lparr>total_sectors := total, cluster_count := clusters, root_dir_sectors := root_sectors\<rparr>
      in if clusters < 4085 then (False, v)
      else if clusters < 65525 then (True, v\<lparr>fv_type := FAT_TYPE_16\<rparr>)
      else (True, v\<lparr>fv_type := FAT_TYPE_32\<rparr>))"

definition fat16_configure :: "'x FATVolume \<Rightarrow> FAT_BootSector \<Rightarrow> bool \<times> 'x FATVolume" where
  "fat16_configure v bpb =
     (if FATSize16 bpb = 0 then (False, v)
      else let
        v = v\<lparr>fat_bits := 16, sectors_per_fat := FATSize16 bpb, root_dir_entries := rootEntryCount bpb\<rparr>;
        v = v\<lparr>root_dir_sectors := add32 (mul32 (root_dir_entries v) 32) (bytes_per_sector v - 1) div bytes_per_sector v\<rparr>;
        v = v\<lparr>fat_start_sector := reserved_sectors v\<rparr>;
        v = v\<lparr>root_dir_sector := add32 (fat_start_sector v) (mul32 (fat_count v) (sectors_per_fat v))\<rparr>;
        v = v\<lparr>first_data_sector := add32 (root_dir_sector v) (root_dir_sectors v)\<rparr>
      in (True, v\<lparr>root_cluster := 0, cluster_size_bytes := mul32 (bytes_per_sector v) (sectors_per_cluster v)\<rparr>))"

definition fat32_configure :: "'x FATVolume \<Rightarrow> FAT_BootSector \<Rightarrow> bool \<times> 'x FATVolume" where
  "fat32_configure v bpb =
     (if FATSize32 bpb = 0 then (False, v)
      else let
        v = v\<lparr>fat_bits := 32, sectors_per_fat := FATSize32 bpb, root_dir_entries := 0, root_dir_sectors := 0\<rparr>;
        v = v\<lparr>fat_start_sector := reserved_sectors v\<rparr>;
        v = v\<lparr>first_data_sector := add32 (fat_start_sector v) (mul32 (fat_count v) (sectors_per_fat v))\<rparr>;
        v = v\<lparr>root_dir_sector := 0, root_cluster := rootCluster bpb\<rparr>;
        v = (if root_cluster v < 2 then v\<lparr>root_cluster := 2\<rparr> else v)
      in (True, v\<lparr>cluster_size_bytes := mul32 (bytes_per_sector v) (sectors_per_cluster v)\<rparr>))"

definition fat_volume_init ::
  "'x FATVolume \<Rightarrow> 'x Volume option \<Rightarrow> 'x BlockDevice option \<Rightarrow> nat \<Rightarrow> FAT_BootSector \<Rightarrow> bool \<times> 'x FATVolume" where
  "fat_volume_init v backing device offset bpb =
     (let v = v\<lparr>fv_device := device, backing_volume := backing, lba_offset := offset,
          bytes_per_sector := bytesPerSector bpb, sectors_per_cluster := sectorsPerCluster bpb,
          reserved_sectors := reservedSectorCount bpb, fat_count := numFATs bpb, root_dir_entries := rootEntryCount bpb\<rparr>;
        v = v\<lparr>cluster_size_bytes := mul32 (bytes_per_sector v) (sectors_per_cluster v), fv_nodes := None\<rparr>;
        (ok, v) = fat_volume_probe_type v bpb
      in if \<not> ok then (False, v)
      else let v = v\<lparr>fat_start_sector := reserved_sectors v\<rparr>
      in case fv_type v of
           FAT_TYPE_16 \<Rightarrow> fat16_configure v bpb
         | FAT_TYPE_32 \<Rightarrow> fat32_configure v bpb
         | FAT_TYPE_INVALID \<Rightarrow> (False, v))"

section \<open>Geometry\<close>

lemma add32_small: "a + b < 2 ^ 32 \<Longrightarrow> add32 a b = a + b"
  by (simp add: add32_def)

lemma mul32_small: "a * b < 2 ^ 32 \<Longrightarrow> mul32 a b = a * b"
  by (simp add: mul32_def)

lemma sub32_small: "b \<le> a \<Longrightarrow> a < 2 ^ 32 \<Longrightarrow> sub32 a b = a - b"
  using mod_add_self2 [of "a - b" "2 ^ 32"] by (simp add: sub32_def)

lemma le_value_less: "le_value bs < 256 ^ length bs"
proof (induction bs)
  case (Cons b bs)
  have "unat b < 256" using unsigned_less [of b] by simp
  then show ?case using Cons by simp
qed simp

lemma le_value_span_less: "le_value (span s off n) < 256 ^ n"
proof -
  have "(256::nat) ^ length (span s off n) \<le> 256 ^ n" by (rule power_increasing) (simp_all add: span_def)
  then show ?thesis using le_value_less [of "span s off n"] by linarith
qed

text \<open>The sizes a boot sector states: of the volume, of one table and of the fixed root directory.\<close>

definition stated_total :: "FAT_BootSector \<Rightarrow> nat" where
  "stated_total bpb = (if totalSectors16 bpb \<noteq> 0 then totalSectors16 bpb else totalSectors32 bpb)"

definition stated_fat :: "FAT_BootSector \<Rightarrow> nat" where
  "stated_fat bpb = (if FATSize16 bpb = 0 then FATSize32 bpb else FATSize16 bpb)"

definition stated_root :: "FAT_BootSector \<Rightarrow> nat" where
  "stated_root bpb = (rootEntryCount bpb * 32 + (bytesPerSector bpb - 1)) div bytesPerSector bpb"

definition areas :: "FAT_BootSector \<Rightarrow> nat" where
  "areas bpb = reservedSectorCount bpb + numFATs bpb * stated_fat bpb + stated_root bpb"

lemma boot_sector_bounds:
  "bytesPerSector (boot_sector s) < 2 ^ 16" "sectorsPerCluster (boot_sector s) < 2 ^ 8"
  "reservedSectorCount (boot_sector s) < 2 ^ 16" "rootEntryCount (boot_sector s) < 2 ^ 16"
  "stated_total (boot_sector s) < 2 ^ 32"
  using le_value_span_less [of s 11 2] le_value_span_less [of s 13 1] le_value_span_less [of s 14 2]
    le_value_span_less [of s 17 2] le_value_span_less [of s 19 2] le_value_span_less [of s 32 4]
  by (simp_all add: boot_sector_def stated_total_def)

lemma cluster_size_small: "a < 2 ^ 16 \<Longrightarrow> b < 2 ^ 8 \<Longrightarrow> a * b < (2 ^ 32 :: nat)"
  using mult_strict_mono [of a "2 ^ 16" b "2 ^ 8"] by simp

text \<open>Within the areas no sum or product wraps.\<close>

lemma areas_exact:
  fixes s defines "b \<equiv> boot_sector s"
  assumes fit: "areas b \<le> stated_total b"
  shows "mul32 (rootEntryCount b) 32 = rootEntryCount b * 32"
    and "add32 (rootEntryCount b * 32) (bytesPerSector b - 1) div bytesPerSector b = stated_root b"
    and "mul32 (numFATs b) (stated_fat b) = numFATs b * stated_fat b"
    and "add32 (reservedSectorCount b) (numFATs b * stated_fat b) = reservedSectorCount b + numFATs b * stated_fat b"
    and "add32 (reservedSectorCount b + numFATs b * stated_fat b) (stated_root b) = areas b"
    and "sub32 (stated_total b) (areas b) = stated_total b - areas b"
    and "mul32 (bytesPerSector b) (sectorsPerCluster b) = bytesPerSector b * sectorsPerCluster b"
proof -
  note bnd = boot_sector_bounds [of s, folded b_def]
  show "mul32 (rootEntryCount b) 32 = rootEntryCount b * 32" using bnd by (intro mul32_small) simp
  show "add32 (rootEntryCount b * 32) (bytesPerSector b - 1) div bytesPerSector b = stated_root b"
    using bnd add32_small [of "rootEntryCount b * 32" "bytesPerSector b - 1"] by (simp add: stated_root_def)
  have t: "areas b < 2 ^ 32" using fit bnd(5) by simp
  then show "mul32 (numFATs b) (stated_fat b) = numFATs b * stated_fat b"
    unfolding areas_def by (intro mul32_small) linarith
  show "add32 (reservedSectorCount b) (numFATs b * stated_fat b) = reservedSectorCount b + numFATs b * stated_fat b"
    using t unfolding areas_def by (intro add32_small) linarith
  show "add32 (reservedSectorCount b + numFATs b * stated_fat b) (stated_root b) = areas b"
    using t add32_small unfolding areas_def by blast
  show "sub32 (stated_total b) (areas b) = stated_total b - areas b" using fit bnd(5) by (rule sub32_small)
  show "mul32 (bytesPerSector b) (sectorsPerCluster b) = bytesPerSector b * sectorsPerCluster b"
    using cluster_size_small bnd(1,2) by (intro mul32_small)
qed

text \<open>The volume that \<open>fat_volume_probe_type\<close> accepts.\<close>

lemma probe_stated:
  "fat_volume_probe_type v b =
     (if bytesPerSector b = 0 \<or> sectorsPerCluster b = 0 \<or> numFATs b = 0 \<or> stated_total b = 0 \<or> stated_fat b = 0 then (False, v)
      else let
        root_sectors = add32 (mul32 (rootEntryCount b) 32) (bytesPerSector b - 1) div bytesPerSector b;
        n = sub32 (stated_total b) (add32 (add32 (reservedSectorCount b) (mul32 (numFATs b) (stated_fat b))) root_sectors)
          div sectorsPerCluster b;
        v = v\<lparr>total_sectors := stated_total b, cluster_count := n, root_dir_sectors := root_sectors\<rparr>
      in if n < 4085 then (False, v) else (True, v\<lparr>fv_type := (if n < 65525 then FAT_TYPE_16 else FAT_TYPE_32)\<rparr>))"
  by (simp add: fat_volume_probe_type_def stated_total_def stated_fat_def Let_def)

lemma probe_exact:
  fixes s defines "b \<equiv> boot_sector s"
  assumes fit: "areas b \<le> stated_total b" and ok: "fat_volume_probe_type v b = (True, v')"
  defines "n \<equiv> (stated_total b - areas b) div sectorsPerCluster b"
  shows "v' = v\<lparr>total_sectors := stated_total b, cluster_count := n, root_dir_sectors := stated_root b,
      fv_type := (if n < 65525 then FAT_TYPE_16 else FAT_TYPE_32)\<rparr>" and "4085 \<le> n"
    and "0 < bytesPerSector b" and "0 < sectorsPerCluster b" and "0 < numFATs b" and "0 < stated_fat b" and "0 < stated_total b"
proof -
  note e = areas_exact [of s, folded b_def, OF fit]
  have pos: "\<not> (bytesPerSector b = 0 \<or> sectorsPerCluster b = 0 \<or> numFATs b = 0 \<or> stated_total b = 0 \<or> stated_fat b = 0)"
    using ok by (auto simp: probe_stated split: if_splits)
  then show "0 < bytesPerSector b" "0 < sectorsPerCluster b" "0 < numFATs b" "0 < stated_fat b" "0 < stated_total b" by auto
  have "(if n < 4085 then (False, v\<lparr>total_sectors := stated_total b, cluster_count := n, root_dir_sectors := stated_root b\<rparr>)
     else (True, v\<lparr>total_sectors := stated_total b, cluster_count := n, root_dir_sectors := stated_root b,
      fv_type := (if n < 65525 then FAT_TYPE_16 else FAT_TYPE_32)\<rparr>)) = (True, v')"
    using ok unfolding probe_stated if_not_P [OF pos] Let_def e n_def [symmetric] .
  then show "v' = v\<lparr>total_sectors := stated_total b, cluster_count := n, root_dir_sectors := stated_root b,
      fv_type := (if n < 65525 then FAT_TYPE_16 else FAT_TYPE_32)\<rparr>" "4085 \<le> n"
    by (simp_all split: if_split_asm)
qed

text \<open>The geometry of an accepted volume: the tables lie between the reserved sectors and the data, and
  the data ends where the volume does at the latest.\<close>

lemma init_exact:
  fixes s defines "b \<equiv> boot_sector s"
  assumes fit: "areas b \<le> stated_total b" and ok: "fat_volume_init v0 bv d off b = (True, v)"
    and size32: "fv_type v = FAT_TYPE_32 \<Longrightarrow> FATSize16 b = 0"
  shows "bytes_per_sector v = bytesPerSector b" "sectors_per_cluster v = sectorsPerCluster b"
    "cluster_size_bytes v = bytesPerSector b * sectorsPerCluster b"
    "cluster_count v = (stated_total b - areas b) div sectorsPerCluster b" "total_sectors v = stated_total b"
    "fat_start_sector v = reservedSectorCount b"
    "first_data_sector v = (if fat_bits v = 16 then areas b else reservedSectorCount b + numFATs b * stated_fat b)"
    "fat_bits v = (if cluster_count v < 65525 then 16 else 32)" "fv_type v = (if fat_bits v = 16 then FAT_TYPE_16 else FAT_TYPE_32)"
    "4085 \<le> cluster_count v" "0 < bytesPerSector b" "0 < sectorsPerCluster b" "backing_volume v = bv" "fv_device v = d" "lba_offset v = off"
proof -
  note e = areas_exact [of s, folded b_def, OF fit]
  define n where "n = (stated_total b - areas b) div sectorsPerCluster b"
  let ?v = "v0\<lparr>fv_device := d, backing_volume := bv, lba_offset := off, bytes_per_sector := bytesPerSector b,
      sectors_per_cluster := sectorsPerCluster b, reserved_sectors := reservedSectorCount b, fat_count := numFATs b,
      root_dir_entries := rootEntryCount b, cluster_size_bytes := mul32 (bytesPerSector b) (sectorsPerCluster b), fv_nodes := None\<rparr>"
  obtain v1 where v1: "fat_volume_probe_type ?v b = (True, v1)"
    using ok by (cases "fat_volume_probe_type ?v b") (auto simp: fat_volume_init_def Let_def split: if_splits)
  note p = probe_exact [of s, folded b_def, OF fit v1, folded n_def]
  let ?u = "v1\<lparr>fat_start_sector := reserved_sectors v1\<rparr>"
  have c: "(case fv_type v1 of FAT_TYPE_16 \<Rightarrow> fat16_configure ?u b | FAT_TYPE_32 \<Rightarrow> fat32_configure ?u b
      | FAT_TYPE_INVALID \<Rightarrow> (False, ?u)) = (True, v)"
    using ok v1 by (simp add: fat_volume_init_def Let_def)
  have "FATSize16 b \<noteq> 0" "stated_fat b = FATSize16 b" if "n < 65525"
    using c that by (auto simp: p(1) fat16_configure_def stated_fat_def split: if_splits)
  moreover have "stated_fat b = FATSize32 b" if "\<not> n < 65525"
    using c that size32 by (auto simp: p(1) fat32_configure_def stated_fat_def Let_def split: if_splits)
  moreover note p(2-4) e
  ultimately show "bytes_per_sector v = bytesPerSector b" "sectors_per_cluster v = sectorsPerCluster b"
    "cluster_size_bytes v = bytesPerSector b * sectorsPerCluster b" "cluster_count v = (stated_total b - areas b) div sectorsPerCluster b"
    "total_sectors v = stated_total b" "fat_start_sector v = reservedSectorCount b"
    "first_data_sector v = (if fat_bits v = 16 then areas b else reservedSectorCount b + numFATs b * stated_fat b)"
    "fat_bits v = (if cluster_count v < 65525 then 16 else 32)" "fv_type v = (if fat_bits v = 16 then FAT_TYPE_16 else FAT_TYPE_32)"
    "4085 \<le> cluster_count v" "0 < bytesPerSector b" "0 < sectorsPerCluster b" "backing_volume v = bv" "fv_device v = d" "lba_offset v = off"
    using c by (auto simp: p(1) fat16_configure_def fat32_configure_def Let_def n_def [symmetric] split: if_splits)
qed

text \<open>A boot sector of 5000 sectors of 512 bytes, with 4927 clusters of one sector.\<close>

definition demo_boot :: "byte list" where
  "demo_boot = [0xEB, 0, 0x90] @ replicate 8 0 @ [0, 2, 1, 1, 0, 2, 0, 2, 0x88, 0x13, 0xF8, 20, 0] @ replicate 12 0 @
     [0, 0, 0x29] @ replicate 471 0 @ [0x55, 0xAA]"

definition empty_volume :: "'x FATVolume" where
  "empty_volume = \<lparr>fv_device = None, backing_volume = None, lba_offset = 0, fv_type = FAT_TYPE_INVALID, bytes_per_sector = 0,
     sectors_per_cluster = 0, cluster_size_bytes = 0, reserved_sectors = 0, fat_count = 0, sectors_per_fat = 0,
     root_dir_entries = 0, root_dir_sectors = 0, fat_start_sector = 0, root_dir_sector = 0, first_data_sector = 0,
     cluster_count = 0, root_cluster = 0, total_sectors = 0, fat_bits = 0, fv_nodes = None\<rparr>"

lemma demo_boot_fields:
  "boot_sector demo_boot =
     \<lparr>jmpBoot = [0xEB, 0, 0x90], bytesPerSector = 512, sectorsPerCluster = 1, reservedSectorCount = 1, numFATs = 2,
      rootEntryCount = 512, totalSectors16 = 5000, FATSize16 = 20, totalSectors32 = 0, fat16_bootSignature = 0x29,
      FATSize32 = 0x290000, rootCluster = 0, fat32_bootSignature = 0\<rparr>"
  by (simp add: boot_sector_def demo_boot_def span_def)

lemma demo_boot_areas: "areas (boot_sector demo_boot) = 73" "stated_total (boot_sector demo_boot) = 5000"
  by (simp_all add: demo_boot_fields areas_def stated_total_def stated_fat_def stated_root_def)

section \<open>Properties\<close>



end
