(* ===== verification/Fat_Fs.thy ===== *)
theory Fat_Fs
  imports Fat_Volume Ramfs Vfs
begin

text \<open>
  The FAT driver, \<open>kernel/filesystem/fat/fatfs.c\<close>: mounting, directory search, file reads through
  the cluster chain, and the files and directories kept in memory on top of the disk (the
  overlay). A loop over the clusters of a directory does not end on a cyclic chain, and then has
  no value. The null checks of out-parameters are left to the callers, which pass the addresses of
  local variables; handles are only allocated and freed.
\<close>

section \<open>Objects\<close>

definition VFS_NODE_FLAG_READONLY :: u32 where "VFS_NODE_FLAG_READONLY = 1"
definition VFS_OPEN_APPEND :: u32 where "VFS_OPEN_APPEND = 4"
definition VFS_OPEN_TRUNC :: u32 where "VFS_OPEN_TRUNC = 16"

text \<open>The address of the driver's table \<open>s_fat_node_ops\<close>.\<close>

definition FAT_NODE_OPS :: ptr where "FAT_NODE_OPS = 2"

definition set_info :: "'x fkernel \<Rightarrow> ptr \<Rightarrow> FATNodeInfo \<Rightarrow> 'x fkernel" where
  "set_info k p info = k\<lparr>k_drv := (k_drv k)\<lparr>f_infos := (f_infos (k_drv k))(p := Some info)\<rparr>\<rparr>"

definition set_vol :: "'x fkernel \<Rightarrow> ptr \<Rightarrow> 'x FATVolume option \<Rightarrow> 'x fkernel" where
  "set_vol k p v = k\<lparr>k_drv := (k_drv k)\<lparr>f_vols := (f_vols (k_drv k))(p := v)\<rparr>\<rparr>"

definition info_at :: "'x fkernel \<Rightarrow> ptr \<Rightarrow> FATNodeInfo option" where
  "info_at k p = f_infos (k_drv k) p"

definition vol_at :: "'x fkernel \<Rightarrow> ptr \<Rightarrow> 'x FATVolume option" where
  "vol_at k p = f_vols (k_drv k) p"

definition fat_node_info :: "'x fkernel \<Rightarrow> ptr \<Rightarrow> ptr option" where
  "fat_node_info k node = map_option n_data (k_nodes k node)"

definition fatfs_free_node :: "'x fkernel \<Rightarrow> ptr \<Rightarrow> 'x fkernel option" where
  "fatfs_free_node k node =
     (if node = NULL then Some k
      else do {
        p \<leftarrow> fat_node_info k node;
        k \<leftarrow> (if p \<noteq> NULL
             then do { _ \<leftarrow> info_at k p; Some (k\<lparr>k_drv := (k_drv k)\<lparr>f_infos := (f_infos (k_drv k))(p := None)\<rparr>\<rparr>) }
             else Some k);
        Some (kfree_node k node) })"

fun free_nodes :: "ptr list \<Rightarrow> 'x fkernel \<Rightarrow> 'x fkernel option" where
  "free_nodes [] k = Some k"
| "free_nodes (p # ps) k = do { k \<leftarrow> fatfs_free_node k p; free_nodes ps k }"

definition fatfs_destroy_volume :: "'x fkernel \<Rightarrow> ptr \<Rightarrow> 'x fkernel option" where
  "fatfs_destroy_volume k volume =
     (if volume = NULL then Some k
      else do {
        v \<leftarrow> vol_at k volume;
        k \<leftarrow> (case fv_nodes v of None \<Rightarrow> Some k | Some ps \<Rightarrow> free_nodes ps k);
        Some (set_vol k volume None) })"

definition blank_info :: "ptr \<Rightarrow> FATNodeInfo" where
  "blank_info volume =
     \<lparr>i_volume = volume, first_cluster = 0, info_size = 0, info_attr = 0, is_root = False, overlay = False,
      overlay_data = None, overlay_size = 0, overlay_capacity = 0, overlay_children = None\<rparr>"

text \<open>An empty name is stored as a null pointer.\<close>

definition fatfs_alloc_node :: "'x fkernel \<Rightarrow> ptr \<Rightarrow> ptr \<Rightarrow> string \<Rightarrow> VFSNodeType \<Rightarrow> (ptr \<times> 'x fkernel) option" where
  "fatfs_alloc_node k volume parent nm type =
     (if volume = NULL then Some (NULL, k)
      else let (node, k) = kmalloc k
      in if node = NULL then Some (NULL, k)
      else let (info, k) = kmalloc k
      in if info = NULL then Some (NULL, k)
      else do {
        k \<leftarrow> (if nm \<noteq> [] then kstrdup k else Some k);
        pmount \<leftarrow> (if parent = NULL then Some NULL else map_option n_mount (k_nodes k parent));
        v \<leftarrow> vol_at k volume;
        (let (list, k) = (if fv_nodes v = None then kmalloc k else (1, k))
         in if list = NULL then Some (NULL, k)
         else let
           k = set_info k info (blank_info volume);
           k = set_node k node
             \<lparr>n_name = (if nm \<noteq> [] then Some nm else None), n_type = type, n_flags = VFS_NODE_FLAG_READONLY, n_parent = parent,
              n_mount = pmount, n_ops = FAT_NODE_OPS, n_data = info\<rparr>;
           (ps, k) = list_add k node (case fv_nodes v of None \<Rightarrow> [] | Some ps \<Rightarrow> ps)
         in Some (node, set_vol k volume (Some (v\<lparr>fv_nodes := Some ps\<rparr>)))) })"

section \<open>Short names\<close>

text \<open>Names are strings of characters; the code works on their bytes. \<open>None\<close> is the result \<open>false\<close>.\<close>

definition bytes_of :: "string \<Rightarrow> byte list" where
  "bytes_of = map of_char"

definition pad83 :: "byte list \<Rightarrow> nat \<Rightarrow> byte list" where
  "pad83 bs n = bs @ replicate (n - length bs) 32"

definition short_char :: "byte \<Rightarrow> byte" where
  "short_char c = (let c = to_upper c in if c = 32 then 95 else c)"

definition fatfs_name_to_83 :: "string \<Rightarrow> byte list option" where
  "fatfs_name_to_83 nm =
     (let name = bytes_of nm
      in if nm = ''.'' \<or> nm = ''..'' then Some (pad83 (map to_upper (take 2 name)) 11)
      else let
        dot = 46 \<in> set name;
        base = takeWhile (\<lambda>c. c \<noteq> 46) name;
        ext = (if dot then drop (length base + 1) name else [])
      in if length base = 0 \<or> 8 < length base \<or> 3 < length ext then None
      else Some (pad83 (map short_char base) 8 @ pad83 (map short_char ext) 3))"

text \<open>The characters written to \<open>out\<close>, up to the first zero byte among them. The buffers of the callers
  have 64 characters, so the 12 characters of a name always fit.\<close>

definition fatfs_83_to_name :: "byte list \<Rightarrow> nat \<Rightarrow> string" where
  "fatfs_83_to_name inp out_size =
     (let base = take (out_size - 1) (map to_lower (takeWhile (\<lambda>c. c \<noteq> 32) (take 8 inp)));
        ext = drop 8 (take 11 inp);
        rest = (if list_ex (\<lambda>c. c \<noteq> 32) ext
                then take (out_size - 1 - length base) (46 # map to_lower (takeWhile (\<lambda>c. c \<noteq> 32) ext)) else [])
      in map (\<lambda>c. char_of (unat c)) (takeWhile (\<lambda>c. c \<noteq> 0) (base @ rest)))"

section \<open>Directories\<close>

definition fat_direntry_is_free :: "FAT_DirEntry \<Rightarrow> bool" where
  "fat_direntry_is_free e \<longleftrightarrow> e_name e ! 0 = 0x00 \<or> e_name e ! 0 = 0xE5"

definition fat_direntry_is_long :: "FAT_DirEntry \<Rightarrow> bool" where
  "fat_direntry_is_long e \<longleftrightarrow> e_attr e = FAT_ATTR_LONG_NAME"

definition fat_direntry_is_directory :: "FAT_DirEntry \<Rightarrow> bool" where
  "fat_direntry_is_directory e \<longleftrightarrow> e_attr e AND FAT_ATTR_DIRECTORY \<noteq> 0"

definition fat_direntry_first_cluster :: "FAT_DirEntry \<Rightarrow> nat" where
  "fat_direntry_first_cluster e = push_bit 16 (fstClusHI e) OR fstClusLO e"

text \<open>The entries in a buffer that a sector or a cluster was read into.\<close>

definition entries_of :: "byte list \<Rightarrow> FAT_DirEntry list" where
  "entries_of buf = map (\<lambda>e. dir_entry (span buf (32 * e) 32)) [0..<length buf div 32]"

text \<open>How the loop over the entries of a buffer ends: with a hit, at the mark behind the last entry, or
  at the end of the buffer with what is carried on to the next one.\<close>

datatype 'a scan = Hit FAT_DirEntry | Stop | More 'a

text \<open>The loops of \<open>fatfs_read_dir_entry_by_index\<close>. Only the one over the fixed root directory skips the
  volume label, which \<open>fixed\<close> tells.\<close>

fun index_scan :: "bool \<Rightarrow> nat \<Rightarrow> nat \<Rightarrow> FAT_DirEntry list \<Rightarrow> nat scan" where
  "index_scan fixed target logical_index [] = More logical_index"
| "index_scan fixed target logical_index (e # es) =
     (if e_name e ! 0 = 0 then Stop
      else if fat_direntry_is_free e \<or> fat_direntry_is_long e then index_scan fixed target logical_index es
      else if fixed \<and> e_attr e AND FAT_ATTR_VOLUME_ID \<noteq> 0 then index_scan fixed target logical_index es
      else if logical_index = target then Hit e
      else index_scan fixed target (logical_index + 1) es)"

definition entry_matches :: "string \<Rightarrow> FAT_DirEntry \<Rightarrow> bool" where
  "entry_matches nm e \<longleftrightarrow> fatfs_name_to_83 nm = Some (e_name e) \<or>
     map to_lower (bytes_of (fatfs_83_to_name (e_name e) 64)) = map to_lower (bytes_of nm)"

text \<open>The loop of \<open>fatfs_find_entry\<close>; nothing is carried from buffer to buffer.\<close>

fun name_scan :: "string \<Rightarrow> FAT_DirEntry list \<Rightarrow> unit scan" where
  "name_scan nm [] = More ()"
| "name_scan nm (e # es) =
     (if e_name e ! 0 = 0 then Stop
      else if fat_direntry_is_free e \<or> fat_direntry_is_long e then name_scan nm es
      else if e_attr e AND FAT_ATTR_VOLUME_ID \<noteq> 0 then name_scan nm es
      else if entry_matches nm e then Hit e
      else name_scan nm es)"

text \<open>The loops over the sectors of the fixed root directory and over the clusters of any other
  directory, for either of the loops over entries.\<close>

fun scan_root ::
  "('a \<Rightarrow> FAT_DirEntry list \<Rightarrow> 'a scan) \<Rightarrow> 'x FATVolume \<Rightarrow> nat list \<Rightarrow> 'a \<Rightarrow> 'x fkernel \<Rightarrow> (FAT_DirEntry option \<times> 'x fkernel) option" where
  "scan_root f v [] a k = Some (None, k)"
| "scan_root f v (i # is) a k =
     do { (r, k) \<leftarrow> fat_volume_read_sector (Some v) k (add32 (root_dir_sector v) i) (bytes_per_sector v);
          (case r of
             None \<Rightarrow> Some (None, k)
           | Some buf \<Rightarrow> (case f a (entries_of buf) of
               Hit e \<Rightarrow> Some (Some e, k)
             | Stop \<Rightarrow> Some (None, k)
             | More a \<Rightarrow> scan_root f v is a k)) }"

partial_function (option) scan_chain ::
  "('a \<Rightarrow> FAT_DirEntry list \<Rightarrow> 'a scan) \<Rightarrow> 'x FATVolume \<Rightarrow> nat \<Rightarrow> 'a \<Rightarrow> 'x fkernel \<Rightarrow> (FAT_DirEntry option \<times> 'x fkernel) option" where
  "scan_chain f v cluster a k =
     (if fat_volume_is_end (Some v) cluster then Some (None, k)
      else do {
        (r, k) \<leftarrow> fat_volume_read_cluster (Some v) k cluster (cluster_size_bytes v);
        (case r of
           None \<Rightarrow> Some (None, k)
         | Some buf \<Rightarrow> (case f a (entries_of buf) of
             Hit e \<Rightarrow> Some (Some e, k)
           | Stop \<Rightarrow> Some (None, k)
           | More a \<Rightarrow> do {
               (next_cluster, k) \<leftarrow> fat_volume_get_next_cluster (Some v) k cluster;
               if fat_volume_is_bad (Some v) next_cluster then Some (None, k)
               else scan_chain f v next_cluster a k })) })"

definition fatfs_read_dir_entry_by_index ::
  "'x fkernel \<Rightarrow> FATNodeInfo \<Rightarrow> nat \<Rightarrow> ((FAT_DirEntry \<times> string) option \<times> 'x fkernel) option" where
  "fatfs_read_dir_entry_by_index k dir target_index =
     (if i_volume dir = NULL then Some (None, k)
      else do {
        v \<leftarrow> vol_at k (i_volume dir);
        (let (sector_buffer, k) = kmalloc k
         in if sector_buffer = NULL then Some (None, k)
         else do {
           (r, k) \<leftarrow> (if is_root dir \<and> fv_type v = FAT_TYPE_16
                     then scan_root (index_scan True target_index) v [0..<root_dir_sectors v] 0 k
                     else scan_chain (index_scan False target_index) v (first_cluster dir) 0 k);
           Some (map_option (\<lambda>e. (e, fatfs_83_to_name (e_name e) 64)) r, k) }) })"

definition fatfs_find_entry ::
  "'x fkernel \<Rightarrow> FATNodeInfo \<Rightarrow> string \<Rightarrow> ((FAT_DirEntry \<times> string) option \<times> 'x fkernel) option" where
  "fatfs_find_entry k dir nm =
     (if i_volume dir = NULL then Some (None, k)
      else do {
        v \<leftarrow> vol_at k (i_volume dir);
        (let (sector_buffer, k) = kmalloc k
         in if sector_buffer = NULL then Some (None, k)
         else do {
           (r, k) \<leftarrow> (if is_root dir \<and> fv_type v = FAT_TYPE_16
                     then scan_root (\<lambda>_. name_scan nm) v [0..<root_dir_sectors v] () k
                     else scan_chain (\<lambda>_. name_scan nm) v (first_cluster dir) () k);
           Some (map_option (\<lambda>e. (e, fatfs_83_to_name (e_name e) 64)) r, k) }) })"

section \<open>Files\<close>

text \<open>The loop over the clusters in front of the offset; \<open>None\<close> in the result is the early return.\<close>

fun skip_loop :: "'x FATVolume \<Rightarrow> nat \<Rightarrow> nat \<Rightarrow> 'x fkernel \<Rightarrow> (nat option \<times> 'x fkernel) option" where
  "skip_loop v 0 cluster k = Some (Some cluster, k)"
| "skip_loop v (Suc n) cluster k =
     do { (cluster, k) \<leftarrow> fat_volume_get_next_cluster (Some v) k cluster;
          if fat_volume_is_end (Some v) cluster then Some (None, k) else skip_loop v n cluster k }"

text \<open>The loop that reads, with what it has put into the buffer.\<close>

partial_function (option) read_clusters ::
  "'x FATVolume \<Rightarrow> nat \<Rightarrow> nat \<Rightarrow> nat \<Rightarrow> byte list \<Rightarrow> 'x fkernel \<Rightarrow> (byte list \<times> 'x fkernel) option" where
  "read_clusters v to_read cluster cluster_offset done k =
     (if to_read = 0 \<or> fat_volume_is_end (Some v) cluster then Some (done, k)
      else do {
        (r, k) \<leftarrow> fat_volume_read_cluster (Some v) k cluster (cluster_size_bytes v);
        (case r of
           None \<Rightarrow> Some (done, k)
         | Some temp \<Rightarrow>
             let start = (if done = [] then cluster_offset else 0);
                 available = cluster_size_bytes v - start;
                 chunk = (if to_read < available then to_read else available);
                 done = done @ span temp start chunk
             in do {
               (next_cluster, k) \<leftarrow> fat_volume_get_next_cluster (Some v) k cluster;
               if fat_volume_is_bad (Some v) next_cluster then Some (done, k)
               else read_clusters v (to_read - chunk) next_cluster 0 done k }) })"

definition fatfs_read_file :: "'x fkernel \<Rightarrow> FATNodeInfo \<Rightarrow> nat \<Rightarrow> nat \<Rightarrow> ((int \<times> byte list) \<times> 'x fkernel) option" where
  "fatfs_read_file k node offset sz =
     (if i_volume node = NULL then Some ((-1, []), k)
      else do {
        v \<leftarrow> vol_at k (i_volume node);
        (if info_size node \<le> offset then Some ((0, []), k)
         else let
           remaining = info_size node - offset;
           to_read = (if sz < remaining then sz else remaining)
         in if to_read = 0 then Some ((0, []), k)
         else if first_cluster node < 2 then Some ((-1, []), k)
         else if cluster_size_bytes v = 0 then None
         else do {
           (r, k) \<leftarrow> skip_loop v (offset div cluster_size_bytes v mod 2 ^ 32) (first_cluster node) k;
           (case r of
              None \<Rightarrow> Some ((0, []), k)
            | Some cluster \<Rightarrow>
                let (temp, k) = kmalloc k
                in if temp = NULL then Some ((-1, []), k)
                else do {
                  (bytes, k) \<leftarrow> read_clusters v to_read cluster (offset mod cluster_size_bytes v mod 2 ^ 32) [] k;
                  Some ((int64 (length bytes), bytes), k) }) }) })"

declare scan_chain.simps [code] read_clusters.simps [code]

section \<open>The overlay\<close>

text \<open>The operations on a node's data get its address. The doubling loop is that of the in-memory file
  system, line for line. \<open>realloc\<close> keeps the old bytes, and those behind them are set to zero.\<close>

definition fatfs_overlay_reserve :: "'x fkernel \<Rightarrow> ptr \<Rightarrow> nat \<Rightarrow> (bool \<times> 'x fkernel) option" where
  "fatfs_overlay_reserve k p required =
     (if p = NULL then Some (False, k)
      else do {
        info \<leftarrow> info_at k p;
        (if required \<le> overlay_capacity info then Some (True, k)
         else do {
           new_capacity \<leftarrow> grow_loop required (if overlay_capacity info \<noteq> 0 then overlay_capacity info else 64);
           (let (new_data, k) = kmalloc k
            in if new_data = NULL then Some (False, k)
            else let old = (case overlay_data info of None \<Rightarrow> [] | Some bs \<Rightarrow> bs)
            in Some (True, set_info k p
                 (info\<lparr>overlay_data := Some (old @ replicate (new_capacity - overlay_capacity info) 0),
                       overlay_capacity := new_capacity\<rparr>))) }) })"

fun find_overlay :: "'x fkernel \<Rightarrow> ptr list \<Rightarrow> string \<Rightarrow> ptr option" where
  "find_overlay k [] nm = Some NULL"
| "find_overlay k (c # cs) nm =
     (if c = NULL then find_overlay k cs nm
      else do {
        nd \<leftarrow> k_nodes k c;
        (if n_name nd = Some nm then Some c else find_overlay k cs nm) })"

definition fatfs_overlay_find_child :: "'x fkernel \<Rightarrow> FATNodeInfo \<Rightarrow> string \<Rightarrow> ptr option" where
  "fatfs_overlay_find_child k dir nm =
     (case overlay_children dir of None \<Rightarrow> Some NULL | Some cs \<Rightarrow> find_overlay k cs nm)"

definition fatfs_overlay_child_count :: "FATNodeInfo \<Rightarrow> nat" where
  "fatfs_overlay_child_count dir = (case overlay_children dir of None \<Rightarrow> 0 | Some cs \<Rightarrow> length cs)"

definition fatfs_overlay_add_child :: "'x fkernel \<Rightarrow> ptr \<Rightarrow> ptr \<Rightarrow> (bool \<times> 'x fkernel) option" where
  "fatfs_overlay_add_child k p child =
     (if p = NULL \<or> child = NULL then Some (False, k)
      else do {
        dir \<leftarrow> info_at k p;
        (let (list, k) = (if overlay_children dir = None then kmalloc k else (1, k))
         in if list = NULL then Some (False, k)
         else let (cs, k) = list_add k child (case overlay_children dir of None \<Rightarrow> [] | Some cs \<Rightarrow> cs)
         in Some (True, set_info k p (dir\<lparr>overlay_children := Some cs\<rparr>))) })"

text \<open>The loop that counts the entries of a directory on disk.\<close>

partial_function (option) count_loop :: "FATNodeInfo \<Rightarrow> nat \<Rightarrow> 'x fkernel \<Rightarrow> (nat \<times> 'x fkernel) option" where
  "count_loop dir count k =
     do { (r, k) \<leftarrow> fatfs_read_dir_entry_by_index k dir count;
          (case r of None \<Rightarrow> Some (count, k) | Some _ \<Rightarrow> count_loop dir (count + 1) k) }"

definition fatfs_directory_disk_entry_count :: "'x fkernel \<Rightarrow> FATNodeInfo \<Rightarrow> (nat \<times> 'x fkernel) option" where
  "fatfs_directory_disk_entry_count k dir = (if overlay dir then Some (0, k) else count_loop dir 0 k)"

declare count_loop.simps [code]

section \<open>Mounting\<close>

text \<open>The device or volume that a pointer of the parameters refers to.\<close>

definition device_at :: "'x fkernel \<Rightarrow> ptr \<Rightarrow> 'x BlockDevice option option" where
  "device_at k p = (if p = NULL then Some None else map_option Some (f_devices (k_drv k) p))"

definition volume_at :: "'x fkernel \<Rightarrow> ptr \<Rightarrow> 'x Volume option option" where
  "volume_at k p = (if p = NULL then Some None else map_option Some (f_volumes (k_drv k) p))"

definition fat_read_boot_sector :: "'x fkernel \<Rightarrow> VFSMountParams option \<Rightarrow> (FAT_BootSector option \<times> 'x fkernel) option" where
  "fat_read_boot_sector k params =
     (case params of
        None \<Rightarrow> Some (None, k)
      | Some ps \<Rightarrow>
      (if p_block_device ps = NULL \<and> p_volume ps = NULL then Some (None, k)
       else do {
         dev \<leftarrow> device_at k (p_block_device ps);
         vol \<leftarrow> volume_at k (p_volume ps);
         (let bs = (case vol of Some v \<Rightarrow> Volume_BlockSize (Some v)
                     | None \<Rightarrow> (case dev of Some d \<Rightarrow> logical_block_size d | None \<Rightarrow> 0));
              block_size = (if bs \<noteq> 0 then bs else 512);
              (sector, k) = kmalloc k
          in if sector = NULL then Some (None, k)
          else do {
            (r, k) \<leftarrow> fill_buffer block_size (on_disk (\<lambda>x. case vol of
                Some v \<Rightarrow> Volume_ReadSectors (Some v) x 0 1
              | None \<Rightarrow> BlockDevice_Read dev x 0 1) k);
            (case r of
               None \<Rightarrow> Some (None, k)
             | Some bytes \<Rightarrow>
                 (if length bytes < 512 then None
                  else if bytes ! 510 = 0x55 \<and> bytes ! 511 = 0xAA then Some (Some (boot_sector (take 512 bytes)), k)
                  else Some (None, k))) }) }))"

definition fat_mount :: "'x fkernel \<Rightarrow> VFSMountParams option \<Rightarrow> ((VFSResult \<times> ptr) \<times> 'x fkernel) option" where
  "fat_mount k params =
     (case params of
        None \<Rightarrow> Some ((VFS_RES_INVALID, NULL), k)
      | Some ps \<Rightarrow>
      (if p_block_device ps = NULL \<and> p_volume ps = NULL then Some ((VFS_RES_INVALID, NULL), k)
       else let (volume, k) = kmalloc k
       in if volume = NULL then Some ((VFS_RES_NO_MEMORY, NULL), k)
       else do {
         (bpb, k) \<leftarrow> fat_read_boot_sector k params;
         (case bpb of
            None \<Rightarrow> Some ((VFS_RES_ERROR, NULL), k)
          | Some bpb \<Rightarrow> do {
              dev \<leftarrow> device_at k (p_block_device ps);
              backing \<leftarrow> volume_at k (p_volume ps);
              (let device = (case dev of Some d \<Rightarrow> Some d | None \<Rightarrow> map_option vol_device backing);
                   (ok, v) = fat_volume_init empty_volume backing device 0 bpb;
                   k = set_vol k volume (Some v)
               in if \<not> ok then do { k \<leftarrow> fatfs_destroy_volume k volume; Some ((VFS_RES_UNSUPPORTED, NULL), k) }
               else do {
                 (root, k) \<leftarrow> fatfs_alloc_node k volume NULL [] VFS_NODE_DIRECTORY;
                 (if root = NULL then do { k \<leftarrow> fatfs_destroy_volume k volume; Some ((VFS_RES_NO_MEMORY, NULL), k) }
                  else do {
                    p \<leftarrow> fat_node_info k root;
                    info \<leftarrow> info_at k p;
                    nd \<leftarrow> k_nodes k root;
                    (let k = set_info k p (info\<lparr>i_volume := volume, is_root := True,
                           first_cluster := (if fv_type v = FAT_TYPE_16 then 0 else root_cluster v),
                           info_size := 0, info_attr := FAT_ATTR_DIRECTORY\<rparr>)
                     in Some ((VFS_RES_OK, root), set_node k root (nd\<lparr>n_mount := NULL, n_parent := NULL\<rparr>))) }) }) }) }))"

definition fat_unmount :: "'x fkernel \<Rightarrow> ptr \<Rightarrow> (VFSResult \<times> 'x fkernel) option" where
  "fat_unmount k root =
     (if root = NULL then Some (VFS_RES_INVALID, k)
      else do {
        p \<leftarrow> fat_node_info k root;
        volume \<leftarrow> (if p = NULL then Some NULL else map_option i_volume (info_at k p));
        k \<leftarrow> fatfs_destroy_volume k volume;
        Some (VFS_RES_OK, k) })"

definition power2 :: "nat \<Rightarrow> bool" where
  "power2 n \<longleftrightarrow> n \<noteq> 0 \<and> n AND (n - 1) = 0"

definition fat_probe :: "'x fkernel \<Rightarrow> VFSMountParams option \<Rightarrow> (bool \<times> 'x fkernel) option" where
  "fat_probe k params = do {
     (bpb, k) \<leftarrow> fat_read_boot_sector k params;
     (case bpb of
        None \<Rightarrow> Some (False, k)
      | Some b \<Rightarrow>
          let (ok, temp) = fat_volume_probe_type (empty_volume :: 'x FATVolume) b
          in Some ((jmpBoot b ! 0 = 0xEB \<or> jmpBoot b ! 0 = 0xE9) \<and> power2 (bytesPerSector b) \<and> power2 (sectorsPerCluster b) \<and>
               sectorsPerCluster b \<le> 128 \<and> numFATs b \<noteq> 0 \<and> numFATs b \<le> 2 \<and> reservedSectorCount b \<noteq> 0 \<and> ok \<and>
               (if fv_type temp = FAT_TYPE_32 then fat32_bootSignature b = 0x29 else fat16_bootSignature b = 0x29), k)) }"

section \<open>Nodes\<close>

text \<open>The node and its data, for the operations that give up with \<open>err\<close> when the node has none.\<close>

definition with_info ::
  "'x fkernel \<Rightarrow> ptr \<Rightarrow> 'r option \<Rightarrow> (VFSNode \<Rightarrow> ptr \<Rightarrow> FATNodeInfo \<Rightarrow> 'r option) \<Rightarrow> 'r option" where
  "with_info k node err f = do {
     nd \<leftarrow> k_nodes k node;
     (if n_data nd = NULL then err else do { info \<leftarrow> info_at k (n_data nd); f nd (n_data nd) info }) }"

definition fat_node_open :: "'x fkernel \<Rightarrow> ptr \<Rightarrow> u32 \<Rightarrow> ((VFSResult \<times> ptr) \<times> 'x fkernel) option" where
  "fat_node_open k node mode =
     (if node = NULL then Some ((VFS_RES_INVALID, NULL), k)
      else with_info k node (Some ((VFS_RES_ERROR, NULL), k)) (\<lambda>nd p info.
        let wants_write = (mode AND (VFS_OPEN_WRITE OR VFS_OPEN_APPEND OR VFS_OPEN_TRUNC) \<noteq> 0)
        in if \<not> overlay info \<and> wants_write then Some ((VFS_RES_ACCESS, NULL), k)
        else if overlay info \<and> n_type nd = VFS_NODE_DIRECTORY \<and> wants_write then Some ((VFS_RES_ACCESS, NULL), k)
        else let
          k = (if overlay info \<and> n_type nd = VFS_NODE_REGULAR \<and> mode AND VFS_OPEN_TRUNC \<noteq> 0
               then set_info k p (info\<lparr>overlay_size := 0, info_size := 0\<rparr>) else k);
          (handle, k) = kmalloc k
        in Some (if handle = NULL then ((VFS_RES_NO_MEMORY, NULL), k) else ((VFS_RES_OK, handle), k))))"

definition fat_node_close :: "'x fkernel \<Rightarrow> ptr \<Rightarrow> ptr \<Rightarrow> (VFSResult \<times> 'x fkernel) option" where
  "fat_node_close k node handle = Some (VFS_RES_OK, k)"

definition fat_node_read :: "'x fkernel \<Rightarrow> ptr \<Rightarrow> ptr \<Rightarrow> nat \<Rightarrow> nat \<Rightarrow> ((int \<times> byte list) \<times> 'x fkernel) option" where
  "fat_node_read k node handle offset sz =
     (if node = NULL \<or> sz = 0 then Some ((-1, []), k)
      else with_info k node (Some ((-1, []), k)) (\<lambda>nd p info.
        if overlay info then
          (if n_type nd = VFS_NODE_DIRECTORY then Some ((-1, []), k)
           else case overlay_data info of
             None \<Rightarrow> Some ((0, []), k)
           | Some bs \<Rightarrow>
               (if overlay_size info \<le> offset then Some ((0, []), k)
                else let available = (if sz < overlay_size info - offset then sz else overlay_size info - offset)
                in if available = 0 then Some ((0, []), k)
                else if length bs < offset + available then None
                else Some ((int64 available, span bs offset available), k)))
        else if n_type nd = VFS_NODE_DIRECTORY then Some ((-1, []), k)
        else fatfs_read_file k info offset sz))"

definition fat_node_write :: "'x fkernel \<Rightarrow> ptr \<Rightarrow> ptr \<Rightarrow> nat \<Rightarrow> byte list \<Rightarrow> (int \<times> 'x fkernel) option" where
  "fat_node_write k node handle offset buffer =
     (if node = NULL \<or> buffer = [] then Some (-1, k)
      else with_info k node (Some (-1, k)) (\<lambda>nd p info.
        if n_type nd = VFS_NODE_DIRECTORY then Some (-1, k)
        else if \<not> overlay info then Some (-1, k)
        else let end_pos = add64 offset (length buffer)
        in do {
          (ok, k) \<leftarrow> fatfs_overlay_reserve k p end_pos;
          (if \<not> ok then Some (-1, k)
           else do {
             info \<leftarrow> info_at k p;
             bs \<leftarrow> overlay_data info;
             (if length bs < offset + length buffer then None
              else let new_size = (if overlay_size info < end_pos then end_pos else overlay_size info)
              in Some (int64 (length buffer), set_info k p
                   (info\<lparr>overlay_data := Some (patch bs offset buffer), overlay_size := new_size,
                         info_size := new_size mod 2 ^ 32\<rparr>))) }) }))"

definition fat_node_truncate :: "'x fkernel \<Rightarrow> ptr \<Rightarrow> ptr \<Rightarrow> nat \<Rightarrow> (VFSResult \<times> 'x fkernel) option" where
  "fat_node_truncate k node handle len =
     (if node = NULL then Some (VFS_RES_INVALID, k)
      else with_info k node (Some (VFS_RES_INVALID, k)) (\<lambda>nd p info.
        if n_type nd = VFS_NODE_DIRECTORY then Some (VFS_RES_INVALID, k)
        else if \<not> overlay info then Some (VFS_RES_UNSUPPORTED, k)
        else do {
          (ok, k) \<leftarrow> fatfs_overlay_reserve k p len;
          (if \<not> ok then Some (VFS_RES_NO_MEMORY, k)
           else do {
             info \<leftarrow> info_at k p;
             bs \<leftarrow> (if overlay_size info < len
                   then do { bs \<leftarrow> overlay_data info;
                             if length bs < len then None
                             else Some (Some (patch bs (overlay_size info) (replicate (len - overlay_size info) 0))) }
                   else Some (overlay_data info));
             Some (VFS_RES_OK, set_info k p
               (info\<lparr>overlay_data := bs, overlay_size := len, info_size := len mod 2 ^ 32\<rparr>)) }) }))"

definition fat_node_readdir ::
  "'x fkernel \<Rightarrow> ptr \<Rightarrow> ptr \<Rightarrow> nat \<Rightarrow> ((VFSResult \<times> VFSDirEntry option) \<times> 'x fkernel) option" where
  "fat_node_readdir k node handle index =
     (if node = NULL then Some ((VFS_RES_INVALID, None), k)
      else do {
        nd \<leftarrow> k_nodes k node;
        (if n_type nd \<noteq> VFS_NODE_DIRECTORY then Some ((VFS_RES_INVALID, None), k)
         else with_info k node (Some ((VFS_RES_ERROR, None), k)) (\<lambda>nd p info. do {
           (r, k) \<leftarrow> (if overlay info then Some (None, k) else fatfs_read_dir_entry_by_index k info index);
           (case r of
              Some (e, nm) \<Rightarrow>
                Some ((VFS_RES_OK, Some \<lparr>de_name = take VFS_NAME_MAX nm,
                  de_type = (if fat_direntry_is_directory e then VFS_NODE_DIRECTORY else VFS_NODE_REGULAR)\<rparr>), k)
            | None \<Rightarrow> do {
                (disk_count, k) \<leftarrow> fatfs_directory_disk_entry_count k info;
                (if index < disk_count then Some ((VFS_RES_NOT_FOUND, None), k)
                 else if fatfs_overlay_child_count info \<le> index - disk_count then Some ((VFS_RES_NOT_FOUND, None), k)
                 else do {
                   cs \<leftarrow> overlay_children info;
                   (let child = cs ! (index - disk_count)
                    in if child = NULL then Some ((VFS_RES_NOT_FOUND, None), k)
                    else do {
                      c \<leftarrow> k_nodes k child;
                      Some (case n_name c of
                              None \<Rightarrow> ((VFS_RES_NOT_FOUND, None), k)
                            | Some nm \<Rightarrow> ((VFS_RES_OK, Some \<lparr>de_name = take VFS_NAME_MAX nm, de_type = n_type c\<rparr>), k)) }) }) }) })) })"

definition fat_node_lookup :: "'x fkernel \<Rightarrow> ptr \<Rightarrow> string \<Rightarrow> ((VFSResult \<times> ptr) \<times> 'x fkernel) option" where
  "fat_node_lookup k node nm =
     (if node = NULL then Some ((VFS_RES_INVALID, NULL), k)
      else do {
        nd \<leftarrow> k_nodes k node;
        (if n_type nd \<noteq> VFS_NODE_DIRECTORY then Some ((VFS_RES_INVALID, NULL), k)
         else if nm = ''.'' then Some ((VFS_RES_OK, node), k)
         else if nm = ''..'' then Some ((VFS_RES_OK, if n_parent nd \<noteq> NULL then n_parent nd else node), k)
         else with_info k node (Some ((VFS_RES_ERROR, NULL), k)) (\<lambda>nd p dir_info. do {
           overlay_child \<leftarrow> fatfs_overlay_find_child k dir_info nm;
           (if overlay_child \<noteq> NULL then Some ((VFS_RES_OK, overlay_child), k)
            else if overlay dir_info then Some ((VFS_RES_NOT_FOUND, NULL), k)
            else do {
              (r, k) \<leftarrow> fatfs_find_entry k dir_info nm;
              (case r of
                 None \<Rightarrow> Some ((VFS_RES_NOT_FOUND, NULL), k)
               | Some (e, actual_name) \<Rightarrow> do {
                   (child, k) \<leftarrow> fatfs_alloc_node k (i_volume dir_info) node actual_name
                     (if fat_direntry_is_directory e then VFS_NODE_DIRECTORY else VFS_NODE_REGULAR);
                   (if child = NULL then Some ((VFS_RES_NO_MEMORY, NULL), k)
                    else do {
                      q \<leftarrow> fat_node_info k child;
                      info \<leftarrow> info_at k q;
                      Some ((VFS_RES_OK, child), set_info k q
                        (info\<lparr>i_volume := i_volume dir_info, first_cluster := fat_direntry_first_cluster e,
                              info_size := fileSize e, info_attr := e_attr e, is_root := False\<rparr>)) }) }) }) })) })"

definition fat_node_create :: "'x fkernel \<Rightarrow> ptr \<Rightarrow> string \<Rightarrow> VFSNodeType \<Rightarrow> ((VFSResult \<times> ptr) \<times> 'x fkernel) option" where
  "fat_node_create k node nm type =
     (if node = NULL \<or> nm = [] then Some ((VFS_RES_INVALID, NULL), k)
      else do {
        nd \<leftarrow> k_nodes k node;
        (if n_type nd \<noteq> VFS_NODE_DIRECTORY then Some ((VFS_RES_INVALID, NULL), k)
         else if VFS_NAME_MAX < length nm then Some ((VFS_RES_INVALID, NULL), k)
         else if type \<noteq> VFS_NODE_REGULAR \<and> type \<noteq> VFS_NODE_DIRECTORY then Some ((VFS_RES_UNSUPPORTED, NULL), k)
         else with_info k node (Some ((VFS_RES_ERROR, NULL), k)) (\<lambda>nd p dir_info. do {
           existing \<leftarrow> fatfs_overlay_find_child k dir_info nm;
           (if existing \<noteq> NULL then Some ((VFS_RES_EXISTS, NULL), k)
            else do {
              (r, k) \<leftarrow> (if overlay dir_info then Some (None, k) else fatfs_find_entry k dir_info nm);
              (if r \<noteq> None then Some ((VFS_RES_EXISTS, NULL), k)
               else do {
                 (child, k) \<leftarrow> fatfs_alloc_node k (i_volume dir_info) node nm type;
                 (if child = NULL then Some ((VFS_RES_NO_MEMORY, NULL), k)
                  else do {
                    q \<leftarrow> fat_node_info k child;
                    info \<leftarrow> info_at k q;
                    cnd \<leftarrow> k_nodes k child;
                    (let k = set_info k q (info\<lparr>overlay := True, info_attr := (if type = VFS_NODE_DIRECTORY then FAT_ATTR_DIRECTORY else 0)\<rparr>);
                         k = set_node k child (cnd\<lparr>n_flags := 0\<rparr>)
                     in do {
                       (ok, k) \<leftarrow> fatfs_overlay_add_child k p child;
                       (if \<not> ok then do { k \<leftarrow> fatfs_free_node k child; Some ((VFS_RES_NO_MEMORY, NULL), k) }
                        else Some ((VFS_RES_OK, child), k)) }) }) }) }) })) })"

definition fat_node_remove :: "'x fkernel \<Rightarrow> ptr \<Rightarrow> string \<Rightarrow> (VFSResult \<times> 'x fkernel) option" where
  "fat_node_remove k node nm = Some (VFS_RES_UNSUPPORTED, k)"

definition fat_node_stat :: "'x fkernel \<Rightarrow> ptr \<Rightarrow> ((VFSResult \<times> VFSNodeInfo option) \<times> 'x fkernel) option" where
  "fat_node_stat k node =
     (if node = NULL then Some ((VFS_RES_INVALID, None), k)
      else with_info k node (Some ((VFS_RES_ERROR, None), k)) (\<lambda>nd p info.
        Some ((VFS_RES_OK, Some
          \<lparr>i_type = n_type nd, i_flags = (if overlay info then 0 else n_flags nd),
           i_size = (if overlay info then overlay_size info else info_size info), i_inode = first_cluster info,
           i_atime = 0, i_mtime = 0, i_ctime = 0\<rparr>), k)))"

definition s_fat_node_ops :: "'x fkernel VFSNodeOps" where
  "s_fat_node_ops =
     \<lparr>op_open = Some fat_node_open, op_close = Some fat_node_close, op_read = Some fat_node_read,
      op_write = Some fat_node_write, op_truncate = Some fat_node_truncate, op_readdir = Some fat_node_readdir,
      op_lookup = Some fat_node_lookup, op_create = Some fat_node_create, op_remove = Some fat_node_remove,
      op_stat = Some fat_node_stat\<rparr>"

definition s_fat_ops :: "'x fkernel VFSFileSystemOps" where
  "s_fat_ops = \<lparr>op_probe = Some fat_probe, op_mount = Some fat_mount, op_unmount = Some fat_unmount\<rparr>"

section \<open>Registration\<close>

definition s_fat_fs :: "bool \<Rightarrow> 'x fkernel VFSFileSystem" where
  "s_fat_fs ops_set =
     \<lparr>fs_name = Some ''fat'', fs_flags = 0, fs_ops = (if ops_set then Some s_fat_ops else None), fs_context = NULL\<rparr>"

definition FATFS_Register :: "'x fat_heap vfs \<Rightarrow> 'x fat_heap vfs" where
  "FATFS_Register v =
     (if s_fat_fs_ops (k_drv (v_kernel v)) then v
      else let v = v\<lparr>v_kernel := (v_kernel v)\<lparr>k_drv := (k_drv (v_kernel v))\<lparr>s_fat_fs_ops := True\<rparr>\<rparr>\<rparr>
      in snd (VFS_RegisterFileSystem v (Some (s_fat_fs True))))"

text \<open>\<open>device\<close> is the address of the volume's device.\<close>

definition FATFS_Mount :: "'x fat_heap vfs \<Rightarrow> ptr \<Rightarrow> ptr \<Rightarrow> string option \<Rightarrow> (VFSResult \<times> 'x fat_heap vfs) option" where
  "FATFS_Mount v volume device mount_path =
     (case mount_path of
        None \<Rightarrow> Some (VFS_RES_INVALID, v)
      | Some path \<Rightarrow>
      (if volume = NULL then Some (VFS_RES_INVALID, v)
       else let v = FATFS_Register v
       in case VFS_GetFileSystem v ''fat'' of
            None \<Rightarrow> Some (VFS_RES_ERROR, v)
          | Some fs \<Rightarrow> do {
              vol \<leftarrow> f_volumes (k_drv (v_kernel v)) volume;
              (mount, v) \<leftarrow> VFS_Mount v path (Some fs)
                (Some \<lparr>p_source = Volume_Name (Some vol), p_block_device = device, p_volume = volume, p_context = NULL, p_flags = 0\<rparr>);
              Some (if mount = None then VFS_RES_ERROR else VFS_RES_OK, v) }))"

end
