(* ===== verification/Fat_Image.thy ===== *)
theory Fat_Image
  imports Fat_Volume
begin

text \<open>
  A FAT volume as an image. \<open>fat_image\<close> relates the hardware behind a volume to the bytes of the
  volume, through the backing volume or the device; with it the volume's sectors meet the
  contract \<open>block_reader\<close>. The functions of \<open>volume.c\<close> then read sectors, clusters and entries of
  the table from that image, and a cluster chain of the image is what following
  \<open>fat_volume_get_next_cluster\<close> gives.
\<close>

section \<open>Sectors\<close>

definition fat_image :: "'x FATVolume \<Rightarrow> ('x \<Rightarrow> image \<Rightarrow> bool) \<Rightarrow> 'x \<Rightarrow> image \<Rightarrow> bool" where
  "fat_image v H x img \<longleftrightarrow>
     (case backing_volume v of
        Some bv \<Rightarrow> block_size bv = bytes_per_sector v \<and> (\<exists>pre post. vol_holds bv H pre post x img)
      | None \<Rightarrow> lba_offset v = 0 \<and>
          (\<exists>d. fv_device v = Some d \<and> logical_block_size d = bytes_per_sector v \<and> total_blocks d < 2 ^ 64 \<and> dev_holds d H x img))"

interpretation fat: block_reader "fat_image v H" "bytes_per_sector v" "fat_transfer v" for v H
proof
  fix x img lba n
  assume h: "fat_image v H x img"
  show "0 < bytes_per_sector v \<and> length img mod bytes_per_sector v = 0"
  proof (cases "backing_volume v")
    case None
    then obtain d where "logical_block_size d = bytes_per_sector v" "dev_holds d H x img" using h by (auto simp: fat_image_def)
    then show ?thesis using bd.blocks by metis
  next
    case (Some bv)
    then obtain pre post where "block_size bv = bytes_per_sector v" "vol_holds bv H pre post x img" using h by (auto simp: fat_image_def)
    then show ?thesis using vol.blocks by metis
  qed
  assume n: "0 < n" "n < 2 ^ 32" "(lba + n) * bytes_per_sector v \<le> length img"
  show "\<exists>x'. fat_transfer v x lba n = (Some (span img (lba * bytes_per_sector v) (n * bytes_per_sector v)), x') \<and> fat_image v H x' img"
  proof (cases "backing_volume v")
    case None
    then obtain d where d: "fv_device v = Some d" "logical_block_size d = bytes_per_sector v" "total_blocks d < 2 ^ 64"
      "dev_holds d H x img" "lba_offset v = 0" using h by (auto simp: fat_image_def)
    then have "length img = total_blocks d * bytes_per_sector v" by (auto simp: dev_holds_def drives_def)
    then have "lba < 2 ^ 64" using n d bd.blocks [OF d(4)] by (metis add_lessD1 mult_le_cancel2 le_less_trans)
    then show ?thesis
      using bd.rd_law [OF d(4) n(1,2), of lba] n(3) d None by (auto simp: fat_transfer_def add64_def fat_image_def)
  next
    case (Some bv)
    then obtain pre post where b: "block_size bv = bytes_per_sector v" "vol_holds bv H pre post x img" using h by (auto simp: fat_image_def)
    then show ?thesis
      using vol.rd_law [OF b(2) n(1,2), of lba] n(3) Some by (auto simp: fat_transfer_def fat_image_def)
  qed
qed

text \<open>The driver's state over an image, and what a read may change of it: the hardware and the
  allocator.\<close>

definition fat_state :: "'x FATVolume \<Rightarrow> ('x \<Rightarrow> image \<Rightarrow> bool) \<Rightarrow> 'x fkernel \<Rightarrow> image \<Rightarrow> bool" where
  "fat_state v H k img \<longleftrightarrow> k_mallocs k = [] \<and> fat_image v H (f_disk (k_drv k)) img"

definition disk_step :: "'x fkernel \<Rightarrow> 'x fkernel \<Rightarrow> bool" where
  "disk_step k k' \<longleftrightarrow> k_last k \<le> k_last k' \<and>
     k' = k\<lparr>k_last := k_last k', k_drv := (k_drv k)\<lparr>f_disk := f_disk (k_drv k')\<rparr>\<rparr>"

lemma disk_step_refl [simp, intro]: "disk_step k k"
  by (simp add: disk_step_def)

lemma disk_step_trans [trans]: "disk_step k1 k2 \<Longrightarrow> disk_step k2 k3 \<Longrightarrow> disk_step k1 k3"
  unfolding disk_step_def
  by (cases k1, cases k2, cases k3, cases "k_drv k1", cases "k_drv k2", cases "k_drv k3") auto

lemma disk_step_same:
  assumes "disk_step k k'"
  shows "k_nodes k' = k_nodes k" "k_mallocs k' = k_mallocs k" "k_last k \<le> k_last k'" "f_infos (k_drv k') = f_infos (k_drv k)"
    "f_vols (k_drv k') = f_vols (k_drv k)"
  using assms unfolding disk_step_def
  by (cases k, cases k', cases "k_drv k", cases "k_drv k'"; auto)+

lemma disk_step_malloc: "disk_step k (k\<lparr>k_last := Suc (k_last k)\<rparr>)"
  by (simp add: disk_step_def)

lemma fat_state_blocks: "fat_state v H k img \<Longrightarrow> 0 < bytes_per_sector v \<and> length img mod bytes_per_sector v = 0"
  unfolding fat_state_def by (elim conjE) (rule fat.blocks)

lemma transfer_image:
  assumes h: "fat_state v H k img" and n: "0 < n" "n < 2 ^ 32" "(lba + n) * bytes_per_sector v \<le> length img"
  shows "\<exists>k'. fill_buffer (n * bytes_per_sector v) (on_disk (\<lambda>x. fat_transfer v x lba n) k) =
      Some (Some (span img (lba * bytes_per_sector v) (n * bytes_per_sector v)), k') \<and> fat_state v H k' img \<and> disk_step k k'"
proof -
  obtain x where x: "fat_transfer v (f_disk (k_drv k)) lba n = (Some (span img (lba * bytes_per_sector v) (n * bytes_per_sector v)), x)"
    "fat_image v H x img" using fat.rd_law [OF _ n] h unfolding fat_state_def by blast
  moreover have "length (span img (lba * bytes_per_sector v) (n * bytes_per_sector v)) = n * bytes_per_sector v"
    using n(3) by (intro length_span) (simp add: add_mult_distrib)
  ultimately show ?thesis using h
    by (auto simp: on_disk_def fill_buffer_def fat_state_def disk_step_def)
qed

lemma read_sector_image:
  assumes "fat_state v H k img" and "(sector + 1) * bytes_per_sector v \<le> length img"
  shows "\<exists>k'. fat_volume_read_sector (Some v) k sector (bytes_per_sector v) =
      Some (Some (span img (sector * bytes_per_sector v) (bytes_per_sector v)), k') \<and> fat_state v H k' img \<and> disk_step k k'"
proof -
  have "\<not> (backing_volume v = None \<and> fv_device v = None)" using assms(1) by (auto simp: fat_state_def fat_image_def split: option.splits)
  then show ?thesis using transfer_image [OF assms(1), of 1 sector] assms(2) by (simp add: fat_volume_read_sector_def)
qed

section \<open>Clusters and the table\<close>

definition entry_size :: "'x FATVolume \<Rightarrow> nat" where
  "entry_size v = (if fat_bits v = 32 then 4 else 2)"

definition fat_entry :: "'x FATVolume \<Rightarrow> image \<Rightarrow> nat \<Rightarrow> nat" where
  "fat_entry v img c = le_value (span img (fat_start_sector v * bytes_per_sector v + c * entry_size v) (entry_size v)) mod
     (if fat_bits v = 32 then 2 ^ 28 else 2 ^ 16)"

definition cluster_data :: "'x FATVolume \<Rightarrow> image \<Rightarrow> nat \<Rightarrow> byte list" where
  "cluster_data v img c =
     span img ((first_data_sector v + (c - 2) * sectors_per_cluster v) * bytes_per_sector v) (cluster_size_bytes v)"

text \<open>Sectors of whole directory entries, clusters of whole sectors, and a number for every sector.\<close>

definition sane :: "'x FATVolume \<Rightarrow> image \<Rightarrow> bool" where
  "sane v img \<longleftrightarrow> 32 dvd bytes_per_sector v \<and> 0 < sectors_per_cluster v \<and>
     cluster_size_bytes v = sectors_per_cluster v * bytes_per_sector v \<and> length img div bytes_per_sector v < 2 ^ 32"

text \<open>The cluster and its entry of the table lie in the image.\<close>

definition cluster_ok :: "'x FATVolume \<Rightarrow> image \<Rightarrow> nat \<Rightarrow> bool" where
  "cluster_ok v img c \<longleftrightarrow> 2 \<le> c \<and> c < 2 ^ 28 \<and>
     (first_data_sector v + (c - 2) * sectors_per_cluster v + sectors_per_cluster v) * bytes_per_sector v \<le> length img \<and>
     fat_start_sector v * bytes_per_sector v + (c + 1) * entry_size v \<le> length img"

lemma cluster_data_length: "sane v img \<Longrightarrow> cluster_ok v img c \<Longrightarrow> length (cluster_data v img c) = cluster_size_bytes v"
  unfolding cluster_data_def by (rule length_span) (simp add: cluster_ok_def sane_def add_mult_distrib)

lemma sector_number:
  assumes "sane v img" and "0 < bytes_per_sector v" and "(a + n) * bytes_per_sector v \<le> length img"
  shows "a + n < 2 ^ 32"
proof -
  have "a + n \<le> length img div bytes_per_sector v" using assms by (simp add: less_eq_div_iff_mult_less_eq)
  then show ?thesis using assms(1) by (simp add: sane_def)
qed

lemma read_cluster_image:
  assumes h: "fat_state v H k img" and s: "sane v img" and c: "cluster_ok v img c"
  shows "\<exists>k'. fat_volume_read_cluster (Some v) k c (cluster_size_bytes v) = Some (Some (cluster_data v img c), k') \<and>
    fat_state v H k' img \<and> disk_step k k'"
proof -
  let ?a = "first_data_sector v + (c - 2) * sectors_per_cluster v" and ?n = "sectors_per_cluster v"
  have b: "0 < bytes_per_sector v" using fat_state_blocks [OF h] by simp_all
  have i: "(?a + ?n) * bytes_per_sector v \<le> length img" using c by (simp add: cluster_ok_def)
  have w: "?a + ?n < 2 ^ 32" by (rule sector_number [OF s b i])
  then have "add32 (first_data_sector v) (mul32 (c - 2) ?n) = ?a" by (simp add: add32_small mul32_small)
  moreover have "0 < ?n" "?n < 2 ^ 32" using s w by (auto simp: sane_def)
  ultimately show ?thesis
    using transfer_image [OF h _ _ i] c s by (auto simp: fat_volume_read_cluster_def cluster_data_def sane_def cluster_ok_def)
qed

lemma aligned_in_block:
  fixes a b n :: nat
  assumes "n dvd a" and "n dvd b" and "0 < b"
  shows "a mod b + n \<le> b"
proof -
  have "n dvd a mod b" using assms by (simp add: dvd_mod)
  then obtain i j where "a mod b = n * i" "b = n * j" using assms(2) by (meson dvdE)
  moreover have "a mod b < b" using assms(3) by simp
  ultimately have "i < j" by (metis nat_mult_less_cancel_disj)
  then have "n * Suc i \<le> n * j" by (intro mult_le_mono2) simp
  then show ?thesis using \<open>a mod b = n * i\<close> \<open>b = n * j\<close> by simp
qed

lemma next_cluster_image:
  assumes h: "fat_state v H k img" and s: "sane v img" and c: "cluster_ok v img c"
  shows "\<exists>k'. fat_volume_get_next_cluster (Some v) k c = Some (fat_entry v img c, k') \<and> fat_state v H k' img \<and> disk_step k k'"
proof -
  let ?b = "bytes_per_sector v" and ?e = "entry_size v"
  let ?sector = "fat_start_sector v + c * ?e div ?b" and ?off = "c * ?e mod ?b"
  have b: "0 < ?b" "length img mod ?b = 0" using fat_state_blocks [OF h] by simp_all
  have e: "?e = 2 \<or> ?e = 4" by (simp add: entry_size_def)
  have "fat_start_sector v * ?b + c * ?e < length img" using c e by (auto simp: cluster_ok_def)
  then have blk: "(?sector + 1) * ?b \<le> length img" using block_in_image [OF _ b(2,1)] b(1) by fastforce
  have "c * ?e < 2 ^ 32" using c e by (auto simp: cluster_ok_def)
  then have mul: "mul32 c ?e = c * ?e" by (rule mul32_small)
  have "?sector < 2 ^ 32" using sector_number [OF s b(1) blk] by simp
  then have add: "add32 (fat_start_sector v) (c * ?e div ?b) = ?sector" by (rule add32_small)
  let ?k = "k\<lparr>k_last := Suc (k_last k)\<rparr>"
  have h': "fat_state v H ?k img" using h by (simp add: fat_state_def)
  have m: "kmalloc k = (Suc (k_last k), ?k)" using h kmalloc_no_failure [of k] by (simp add: fat_state_def)
  obtain k' where r: "fat_volume_read_sector (Some v) ?k ?sector ?b = Some (Some (span img (?sector * ?b) ?b), k')"
    and k': "fat_state v H k' img" "disk_step ?k k'" using read_sector_image [OF h' blk] by blast
  have "32 dvd ?b" using s by (simp add: sane_def)
  then have "4 dvd ?b" "2 dvd ?b" by (auto elim: dvd_trans [rotated])
  then have "?e dvd ?b" using e by auto
  then have in_blk: "?off + ?e \<le> ?b" using aligned_in_block [of ?e "c * ?e" ?b] b(1) by simp
  have len: "length (span img (?sector * ?b) ?b) = ?b" using blk by (intro length_span) simp
  have "?sector * ?b + ?off = fat_start_sector v * ?b + c * ?e" by (simp add: add_mult_distrib)
  then have get: "get_le ?e (span img (?sector * ?b) ?b) ?off = Some (le_value (span img (fat_start_sector v * ?b + c * ?e) ?e))"
    using in_blk len span_span [OF in_blk, of img "?sector * ?b"] by (simp add: get_le_def)
  have "le_value (span img (fat_start_sector v * ?b + c * ?e) 2) < 2 ^ 16"
    using le_value_span_less [of img _ 2] by simp
  then have "fat_read_fat_entry v k c = Some (fat_entry v img c, k')"
    using b(1) m mul add r get by (auto simp: fat_read_fat_entry_def fat_entry_def entry_size_def Let_def split: if_splits)
  then show ?thesis using k' disk_step_trans [OF disk_step_malloc k'(2)] by (simp add: fat_volume_get_next_cluster_def)
qed

section \<open>Chains\<close>

text \<open>The clusters of the chain that starts at \<open>c\<close>.\<close>

fun chain :: "'x FATVolume \<Rightarrow> image \<Rightarrow> nat \<Rightarrow> nat list \<Rightarrow> bool" where
  "chain v img c [] \<longleftrightarrow> fat_volume_is_end (Some v) c"
| "chain v img c (d # ds) \<longleftrightarrow> d = c \<and> \<not> fat_volume_is_end (Some v) c \<and> cluster_ok v img c \<and>
     \<not> fat_volume_is_bad (Some v) (fat_entry v img c) \<and> chain v img (fat_entry v img c) ds"

definition chain_data :: "'x FATVolume \<Rightarrow> image \<Rightarrow> nat list \<Rightarrow> byte list" where
  "chain_data v img cs = concat (map (cluster_data v img) cs)"

lemma chain_data_simps [simp]: "chain_data v img [] = []" "chain_data v img (c # cs) = cluster_data v img c @ chain_data v img cs"
  by (simp_all add: chain_data_def)

lemma chain_data_length: "sane v img \<Longrightarrow> chain v img c cs \<Longrightarrow> length (chain_data v img cs) = length cs * cluster_size_bytes v"
  by (induction cs arbitrary: c) (auto simp: cluster_data_length)

lemma chain_unique: "chain v img c cs \<Longrightarrow> chain v img c ds \<Longrightarrow> cs = ds"
proof (induction cs arbitrary: c ds)
  case Nil
  then show ?case by (cases ds) auto
next
  case (Cons a cs)
  then show ?case by (cases ds) auto
qed

end
