(* ===== verification/Fat_Read.thy ===== *)
theory Fat_Read
  imports Fat_Fs Fat_Image
begin

text \<open>
  The FAT driver on a volume image: a file is read as the bytes of its cluster chain, a directory is
  searched as the list of its entries, and the two together make a file found by name readable.
  The loops over the entries of a buffer share a contract, the locale \<open>entry_loop\<close>, from which the
  loops over sectors and clusters are shown to see one long list of entries.
\<close>

section \<open>Reading a chain\<close>

lemma skip_loop_chain:
  assumes "chain v img c cs" and "cs \<noteq> []" and "fat_state v H k img" and "sane v img"
  shows "\<exists>k'. skip_loop v n c k = Some (if n < length cs then Some (cs ! n) else None, k') \<and> fat_state v H k' img \<and> disk_step k k'"
  using assms
proof (induction n arbitrary: c cs k)
  case 0
  then show ?case by (cases cs) auto
next
  case (Suc n)
  then obtain ds where cs: "cs = c # ds" "cluster_ok v img c" "chain v img (fat_entry v img c) ds" by (cases cs) auto
  obtain k1 where k1: "fat_volume_get_next_cluster (Some v) k c = Some (fat_entry v img c, k1)" "fat_state v H k1 img" "disk_step k k1"
    using next_cluster_image [OF Suc.prems(3,4) cs(2)] by blast
  show ?case
  proof (cases ds)
    case Nil
    then show ?thesis using cs k1 by auto
  next
    case (Cons d es)
    then have "\<not> fat_volume_is_end (Some v) (fat_entry v img c)" using cs(3) by simp
    then show ?thesis
      using Suc.IH [OF cs(3) _ k1(2) Suc.prems(4)] Cons cs(1) k1 disk_step_trans [OF k1(3)] by fastforce
  qed
qed

lemma chain_drop: "chain v img c cs \<Longrightarrow> n < length cs \<Longrightarrow> chain v img (cs ! n) (drop n cs)"
proof (induction n arbitrary: c cs)
  case 0
  then show ?case by (cases cs) auto
next
  case (Suc n)
  then show ?case by (cases cs) auto
qed

lemma chain_data_drop:
  "sane v img \<Longrightarrow> chain v img c cs \<Longrightarrow>
   drop (n * cluster_size_bytes v + r) (chain_data v img cs) = drop r (chain_data v img (drop n cs))"
proof (induction n arbitrary: c cs)
  case (Suc n)
  show ?case
  proof (cases cs)
    case (Cons d ds)
    then have "length (cluster_data v img d) = cluster_size_bytes v" using Suc.prems cluster_data_length by auto
    then show ?thesis using Suc Cons by (auto simp: add.assoc)
  qed simp
qed simp

lemma read_clusters_chain:
  assumes "chain v img c cs" and "fat_state v H k img" and "sane v img" and "(if done = [] then co else 0) < cluster_size_bytes v"
  shows "\<exists>k'. read_clusters v t c co done k = Some (done @ take t (drop (if done = [] then co else 0) (chain_data v img cs)), k') \<and>
    fat_state v H k' img \<and> disk_step k k'"
  using assms
proof (induction cs arbitrary: c co "done" t k)
  case Nil
  then show ?case by (auto simp: read_clusters.simps)
next
  case (Cons d ds)
  show ?case
  proof (cases "t = 0")
    case True
    then show ?thesis using Cons.prems(2) by (auto simp: read_clusters.simps)
  next
    case False
    let ?s = "if done = [] then co else 0" and ?a = "cluster_data v img c"
    define m where "m = (if t < cluster_size_bytes v - ?s then t else cluster_size_bytes v - ?s)"
    have c: "d = c" "\<not> fat_volume_is_end (Some v) c" "cluster_ok v img c" "\<not> fat_volume_is_bad (Some v) (fat_entry v img c)"
      "chain v img (fat_entry v img c) ds" using Cons.prems(1) by auto
    obtain k1 where k1: "fat_volume_read_cluster (Some v) k c (cluster_size_bytes v) = Some (Some ?a, k1)" "fat_state v H k1 img" "disk_step k k1"
      using read_cluster_image [OF Cons.prems(2,3) c(3)] by blast
    obtain k2 where k2: "fat_volume_get_next_cluster (Some v) k1 c = Some (fat_entry v img c, k2)" "fat_state v H k2 img" "disk_step k1 k2"
      using next_cluster_image [OF k1(2) Cons.prems(3) c(3)] by blast
    have la: "length ?a = cluster_size_bytes v" by (rule cluster_data_length [OF Cons.prems(3) c(3)])
    have m: "0 < m" using False Cons.prems(4) by (simp add: m_def)
    have ne: "done @ span ?a ?s m \<noteq> []" using m la Cons.prems(4) by (simp add: span_def)
    obtain k3 where k3: "read_clusters v (t - m) (fat_entry v img c) 0 (done @ span ?a ?s m) k2 =
        Some ((done @ span ?a ?s m) @ take (t - m) (chain_data v img ds), k3)" "fat_state v H k3 img" "disk_step k2 k3"
      using Cons.IH [OF c(5) k2(2) Cons.prems(3), of "done @ span ?a ?s m" 0 "t - m"] ne Cons.prems(4) by auto
    have "span ?a ?s m @ take (t - m) (chain_data v img ds) = take t (drop ?s (?a @ chain_data v img ds))"
      using la Cons.prems(4) by (auto simp: span_def m_def)
    then have "read_clusters v t c co done k = Some (done @ take t (drop ?s (chain_data v img (d # ds))), k3)"
      using False c k1(1) k2(1) k3(1) by (subst read_clusters.simps) (simp add: Let_def m_def)
    then show ?thesis using k3 disk_step_trans [OF disk_step_trans [OF k1(3) k2(3)] k3(3)] by blast
  qed
qed

text \<open>The contents of the file that a node's data describes.\<close>

definition fat_contents :: "'x FATVolume \<Rightarrow> image \<Rightarrow> FATNodeInfo \<Rightarrow> nat list \<Rightarrow> byte list" where
  "fat_contents v img info cs = take (info_size info) (chain_data v img cs)"

lemma read_file_chain:
  assumes v: "i_volume info \<noteq> NULL" "vol_at k (i_volume info) = Some v" and h: "fat_state v H k img" and s: "sane v img"
    and c: "chain v img (first_cluster info) cs" "cs \<noteq> []" and size: "info_size info < 2 ^ 32"
  shows "\<exists>k'. fatfs_read_file k info off n =
      Some ((int (length (pread (fat_contents v img info cs) off n)), pread (fat_contents v img info cs) off n), k') \<and>
    fat_state v H k' img \<and> disk_step k k'"
proof -
  let ?z = "cluster_size_bytes v" and ?D = "chain_data v img cs"
  define t where "t = (if n < info_size info - off then n else info_size info - off)"
  have bs: "pread (fat_contents v img info cs) off n = take t (drop off ?D)"
    by (simp add: pread_def fat_contents_def t_def drop_take min_def)
  have z: "0 < ?z" using s fat_state_blocks [OF h] by (simp add: sane_def)
  show ?thesis
  proof (cases "info_size info \<le> off \<or> t = 0")
    case True
    then show ?thesis using v h by (auto simp: bs fatfs_read_file_def t_def split: if_splits)
  next
    case False
    have f: "2 \<le> first_cluster info" using c by (cases cs) (auto simp: cluster_ok_def)
    let ?q = "off div ?z" and ?r = "off mod ?z"
    have "off < 2 ^ 32" using False size by simp
    then have w: "?q mod 2 ^ 32 = ?q" "?r mod 2 ^ 32 = ?r"
      using div_le_dividend [of off ?z] mod_less_eq_dividend [of off ?z] by (meson le_less_trans mod_less)+
    obtain k1 where k1: "skip_loop v ?q (first_cluster info) k = Some (if ?q < length cs then Some (cs ! ?q) else None, k1)"
      "fat_state v H k1 img" "disk_step k k1" using skip_loop_chain [OF c h s] by blast
    have D: "drop off ?D = drop ?r (chain_data v img (drop ?q cs))" using chain_data_drop [OF s c(1), of ?q ?r] by simp
    show ?thesis
    proof (cases "?q < length cs")
      case True
      let ?k = "k1\<lparr>k_last := Suc (k_last k1)\<rparr>"
      have m: "kmalloc k1 = (Suc (k_last k1), ?k)" "fat_state v H ?k img"
        using k1(2) kmalloc_no_failure [of k1] by (simp_all add: fat_state_def)
      obtain k2 where k2: "read_clusters v t (cs ! ?q) ?r [] ?k = Some (take t (drop off ?D), k2)" "fat_state v H k2 img" "disk_step ?k k2"
        using read_clusters_chain [OF chain_drop [OF c(1) True] m(2) s, of "[]" ?r t] z D by auto
      have "t \<le> info_size info" unfolding t_def by auto
      then have "length (take t (drop off ?D)) < 2 ^ 63" using size by simp
      then have "fatfs_read_file k info off n = Some ((int (length (take t (drop off ?D))), take t (drop off ?D)), k2)"
        using False v z f w k1(1) True m(1) k2(1) by (simp add: fatfs_read_file_def t_def Let_def int64_small)
      then show ?thesis unfolding bs using k2 disk_step_trans [OF disk_step_trans [OF k1(3) disk_step_malloc] k2(3)] by blast
    next
      case fin: False
      then have "drop off ?D = []" using D by simp
      then show ?thesis unfolding bs
        using False v z f w k1 fin by (auto simp: fatfs_read_file_def t_def Let_def)
    qed
  qed
qed

section \<open>Searching a directory\<close>

text \<open>The contract of a loop over entries: the end of a buffer is only an interruption.\<close>

locale entry_loop =
  fixes f :: "'a \<Rightarrow> FAT_DirEntry list \<Rightarrow> 'a scan"
  assumes nil: "f a [] = More a"
    and append: "f a (xs @ ys) = (case f a xs of More b \<Rightarrow> f b ys | r \<Rightarrow> r)"

primrec hit :: "'a scan \<Rightarrow> FAT_DirEntry option" where
  "hit (Hit e) = Some e"
| "hit Stop = None"
| "hit (More a) = None"

lemma entries_of_append: "32 dvd length xs \<Longrightarrow> entries_of (xs @ ys) = entries_of xs @ entries_of ys"
proof -
  assume "32 dvd length xs"
  then obtain q where q: "length xs = 32 * q" by (elim dvdE)
  have "span (xs @ ys) (32 * e) 32 = span xs (32 * e) 32" if "e < q" for e
    using that q by (simp add: span_def)
  moreover have "span (xs @ ys) (32 * (e + q)) 32 = span ys (32 * e) 32" for e
    using q by (simp add: span_def)
  moreover have "[0..<(32 * q + length ys) div 32] = [0..<q] @ map (\<lambda>e. e + q) [0..<length ys div 32]"
    using upt_add_eq_append [of 0 q "length ys div 32"] map_add_upt [of q "length ys div 32"] by (simp add: add.commute [of q])
  ultimately show ?thesis using q by (simp add: entries_of_def)
qed

lemma entries_of_Nil [simp]: "entries_of [] = []"
  by (simp add: entries_of_def)

context entry_loop
begin

lemma scan_chain_entries:
  assumes "chain v img c cs" and "fat_state v H k img" and "sane v img"
  shows "\<exists>k'. scan_chain f v c a k = Some (hit (f a (entries_of (chain_data v img cs))), k') \<and> fat_state v H k' img \<and> disk_step k k'"
  using assms
proof (induction cs arbitrary: c a k)
  case Nil
  then show ?case by (auto simp: scan_chain.simps nil)
next
  case (Cons d ds)
  have c: "d = c" "\<not> fat_volume_is_end (Some v) c" "cluster_ok v img c" "\<not> fat_volume_is_bad (Some v) (fat_entry v img c)"
    "chain v img (fat_entry v img c) ds" using Cons.prems(1) by auto
  let ?b = "cluster_data v img c"
  obtain k1 where k1: "fat_volume_read_cluster (Some v) k c (cluster_size_bytes v) = Some (Some ?b, k1)" "fat_state v H k1 img" "disk_step k k1"
    using read_cluster_image [OF Cons.prems(2,3) c(3)] by blast
  obtain k2 where k2: "fat_volume_get_next_cluster (Some v) k1 c = Some (fat_entry v img c, k2)" "fat_state v H k2 img" "disk_step k1 k2"
    using next_cluster_image [OF k1(2) Cons.prems(3) c(3)] by blast
  have "32 dvd length ?b" using Cons.prems(3) cluster_data_length [OF Cons.prems(3) c(3)] by (simp add: sane_def)
  then have e: "f a (entries_of (chain_data v img (d # ds))) =
      (case f a (entries_of ?b) of More b \<Rightarrow> f b (entries_of (chain_data v img ds)) | r \<Rightarrow> r)"
    using entries_of_append c(1) by (simp add: append)
  show ?case
  proof (cases "f a (entries_of ?b)")
    case (More b)
    obtain k3 where "scan_chain f v (fat_entry v img c) b k2 = Some (hit (f b (entries_of (chain_data v img ds))), k3)"
      "fat_state v H k3 img" "disk_step k2 k3" using Cons.IH [OF c(5) k2(2) Cons.prems(3)] by blast
    moreover have "disk_step k k3" using disk_step_trans [OF disk_step_trans [OF k1(3) k2(3)] calculation(3)] .
    ultimately show ?thesis using c k1(1) k2(1) More unfolding e by (subst scan_chain.simps) auto
  next
    case (Hit x)
    then show ?thesis using c k1 unfolding e by (subst scan_chain.simps) auto
  next
    case Stop
    then show ?thesis using c k1 unfolding e by (subst scan_chain.simps) auto
  qed
qed

lemma scan_root_entries:
  assumes "fat_state v H k img" and "sane v img" and "(root_dir_sector v + i + n) * bytes_per_sector v \<le> length img"
  shows "\<exists>k'. scan_root f v [i..<i + n] a k =
      Some (hit (f a (entries_of (span img ((root_dir_sector v + i) * bytes_per_sector v) (n * bytes_per_sector v)))), k') \<and>
    fat_state v H k' img \<and> disk_step k k'"
  using assms
proof (induction n arbitrary: i a k)
  case 0
  then show ?case by (auto simp: nil)
next
  case (Suc n)
  let ?z = "bytes_per_sector v" and ?s = "root_dir_sector v + i"
  let ?b = "span img (?s * ?z) ?z" and ?r = "span img ((?s + 1) * ?z) (n * ?z)"
  have fit: "(?s + 1) * ?z \<le> length img" "(root_dir_sector v + Suc i + n) * ?z \<le> length img"
    using Suc.prems(3) by (simp_all add: algebra_simps)
  have "?s + 1 < 2 ^ 32" using sector_number [OF Suc.prems(2) _ fit(1)] fat_state_blocks [OF Suc.prems(1)] by simp
  then have w: "add32 (root_dir_sector v) i = ?s" by (simp add: add32_small)
  obtain k1 where k1: "fat_volume_read_sector (Some v) k ?s ?z = Some (Some ?b, k1)" "fat_state v H k1 img" "disk_step k k1"
    using read_sector_image [OF Suc.prems(1) fit(1)] by blast
  have "length ?b = ?z" using fit(1) by (intro length_span) simp
  then have "32 dvd length ?b" using Suc.prems(2) by (simp add: sane_def)
  moreover have "span img (?s * ?z) (Suc n * ?z) = ?b @ ?r" using span_add [of img "?s * ?z" ?z "n * ?z"] by (simp add: add.commute)
  ultimately have e: "f a (entries_of (span img (?s * ?z) (Suc n * ?z))) =
      (case f a (entries_of ?b) of More b \<Rightarrow> f b (entries_of ?r) | r \<Rightarrow> r)"
    by (simp only: entries_of_append append)
  have l: "[i..<i + Suc n] = i # [Suc i..<Suc i + n]" by (simp add: upt_rec)
  show ?case
  proof (cases "f a (entries_of ?b)")
    case (More b)
    obtain k2 where "scan_root f v [Suc i..<Suc i + n] b k1 = Some (hit (f b (entries_of ?r)), k2)" "fat_state v H k2 img" "disk_step k1 k2"
      using Suc.IH [OF k1(2) Suc.prems(2) fit(2)] by (auto simp: add.assoc)
    then show ?thesis using w k1 More disk_step_trans [OF k1(3)] unfolding e l by (auto simp del: upt_Suc)
  next
    case (Hit x)
    then show ?thesis using w k1 unfolding e l by (auto simp del: upt_Suc)
  next
    case Stop
    then show ?thesis using w k1 unfolding e l by (auto simp del: upt_Suc)
  qed
qed

end

lemma index_scan_append: "index_scan x t i (xs @ ys) = (case index_scan x t i xs of More j \<Rightarrow> index_scan x t j ys | r \<Rightarrow> r)"
  by (induction xs arbitrary: i) auto

lemma name_scan_append: "name_scan nm (xs @ ys) = (case name_scan nm xs of More j \<Rightarrow> name_scan nm ys | r \<Rightarrow> r)"
  by (induction xs) auto

interpretation by_index: entry_loop "index_scan x t" for x t
  by unfold_locales (simp_all add: index_scan_append)

interpretation by_name: entry_loop "\<lambda>_. name_scan nm" for nm
  by unfold_locales (simp_all add: name_scan_append)

text \<open>The bytes of a directory, its entries up to the end mark, and those that are shown.\<close>

definition fixed_root :: "'x FATVolume \<Rightarrow> FATNodeInfo \<Rightarrow> bool" where
  "fixed_root v dir \<longleftrightarrow> is_root dir \<and> fv_type v = FAT_TYPE_16"

definition dir_bytes :: "'x FATVolume \<Rightarrow> image \<Rightarrow> FATNodeInfo \<Rightarrow> nat list \<Rightarrow> byte list" where
  "dir_bytes v img dir cs =
     (if fixed_root v dir then span img (root_dir_sector v * bytes_per_sector v) (root_dir_sectors v * bytes_per_sector v)
      else chain_data v img cs)"

definition dir_on :: "'x FATVolume \<Rightarrow> image \<Rightarrow> FATNodeInfo \<Rightarrow> nat list \<Rightarrow> bool" where
  "dir_on v img dir cs \<longleftrightarrow>
     (if fixed_root v dir then (root_dir_sector v + root_dir_sectors v) * bytes_per_sector v \<le> length img
      else chain v img (first_cluster dir) cs)"

definition listing :: "bool \<Rightarrow> FAT_DirEntry list \<Rightarrow> FAT_DirEntry list" where
  "listing no_labels es =
     filter (\<lambda>e. \<not> fat_direntry_is_free e \<and> \<not> fat_direntry_is_long e \<and> (no_labels \<longrightarrow> e_attr e AND FAT_ATTR_VOLUME_ID = 0))
       (takeWhile (\<lambda>e. e_name e ! 0 \<noteq> 0) es)"

lemma hit_name_scan: "hit (name_scan nm es) = List.find (entry_matches nm) (listing True es)"
  by (induction es) (simp_all add: listing_def)

lemma hit_index_scan:
  "i \<le> t \<Longrightarrow> hit (index_scan x t i es) = (if t - i < length (listing x es) then Some (listing x es ! (t - i)) else None)"
proof (induction es arbitrary: i)
  case (Cons e es)
  have "t - i = Suc (t - Suc i)" if "i \<noteq> t" using that Cons.prems by simp
  then show ?case using Cons by (auto simp: listing_def)
qed (simp add: listing_def)

definition entry_result :: "FAT_DirEntry option \<Rightarrow> (FAT_DirEntry \<times> string) option" where
  "entry_result = map_option (\<lambda>e. (e, fatfs_83_to_name (e_name e) 64))"

lemma vol_at_step: "disk_step k k' \<Longrightarrow> vol_at k' = vol_at k"
  by (rule ext) (simp add: vol_at_def disk_step_same)

lemma scan_dir:
  assumes "entry_loop f" and h: "fat_state v H k img" and s: "sane v img" and d: "dir_on v img dir cs"
  shows "\<exists>k'. (if is_root dir \<and> fv_type v = FAT_TYPE_16 then scan_root f v [0..<root_dir_sectors v] a k
      else scan_chain f v (first_cluster dir) a k) = Some (hit (f a (entries_of (dir_bytes v img dir cs))), k') \<and>
    fat_state v H k' img \<and> disk_step k k'"
proof (cases "fixed_root v dir")
  case True
  then show ?thesis
    using entry_loop.scan_root_entries [OF assms(1) h s, of 0 "root_dir_sectors v"] d by (simp add: dir_on_def dir_bytes_def fixed_root_def)
next
  case False
  then show ?thesis
    using entry_loop.scan_chain_entries [OF assms(1) _ h s] d by (auto simp: dir_on_def dir_bytes_def fixed_root_def)
qed

lemma malloc_state:
  assumes "fat_state v H k img"
  shows "kmalloc k = (Suc (k_last k), k\<lparr>k_last := Suc (k_last k)\<rparr>)" "fat_state v H (k\<lparr>k_last := Suc (k_last k)\<rparr>) img"
  using assms kmalloc_no_failure [of k] by (simp_all add: fat_state_def)

lemma find_entry_dir:
  assumes v: "i_volume dir \<noteq> NULL" "vol_at k (i_volume dir) = Some v" and h: "fat_state v H k img" and s: "sane v img"
    and d: "dir_on v img dir cs"
  shows "\<exists>k'. fatfs_find_entry k dir nm =
      Some (entry_result (List.find (entry_matches nm) (listing True (entries_of (dir_bytes v img dir cs)))), k') \<and>
    fat_state v H k' img \<and> disk_step k k'"
proof -
  note m = malloc_state [OF h]
  obtain k' where "(if is_root dir \<and> fv_type v = FAT_TYPE_16
      then scan_root (\<lambda>_. name_scan nm) v [0..<root_dir_sectors v] () (k\<lparr>k_last := Suc (k_last k)\<rparr>)
      else scan_chain (\<lambda>_. name_scan nm) v (first_cluster dir) () (k\<lparr>k_last := Suc (k_last k)\<rparr>)) =
      Some (List.find (entry_matches nm) (listing True (entries_of (dir_bytes v img dir cs))), k')"
    "fat_state v H k' img" "disk_step (k\<lparr>k_last := Suc (k_last k)\<rparr>) k'"
    using scan_dir [OF by_name.entry_loop_axioms m(2) s d] unfolding hit_name_scan by blast
  then show ?thesis
    using v m(1) disk_step_trans [OF disk_step_malloc] by (auto simp: fatfs_find_entry_def entry_result_def Let_def)
qed

lemma read_index_dir:
  fixes v img dir cs defines "L \<equiv> listing (fixed_root v dir) (entries_of (dir_bytes v img dir cs))"
  assumes v: "i_volume dir \<noteq> NULL" "vol_at k (i_volume dir) = Some v" and h: "fat_state v H k img" and s: "sane v img"
    and d: "dir_on v img dir cs"
  shows "\<exists>k'. fatfs_read_dir_entry_by_index k dir t = Some (entry_result (if t < length L then Some (L ! t) else None), k') \<and>
    fat_state v H k' img \<and> disk_step k k'"
proof -
  note m = malloc_state [OF h]
  have "hit (index_scan (fixed_root v dir) t 0 (entries_of (dir_bytes v img dir cs))) = (if t < length L then Some (L ! t) else None)"
    by (simp add: hit_index_scan L_def)
  then obtain k' where "(if is_root dir \<and> fv_type v = FAT_TYPE_16
      then scan_root (index_scan (fixed_root v dir) t) v [0..<root_dir_sectors v] 0 (k\<lparr>k_last := Suc (k_last k)\<rparr>)
      else scan_chain (index_scan (fixed_root v dir) t) v (first_cluster dir) 0 (k\<lparr>k_last := Suc (k_last k)\<rparr>)) =
      Some (if t < length L then Some (L ! t) else None, k')"
    "fat_state v H k' img" "disk_step (k\<lparr>k_last := Suc (k_last k)\<rparr>) k'"
    using scan_dir [OF by_index.entry_loop_axioms m(2) s d, of "fixed_root v dir" t 0] by auto
  moreover have "(if is_root dir \<and> fv_type v = FAT_TYPE_16 then fixed_root v dir else \<not> fixed_root v dir)" by (simp add: fixed_root_def)
  ultimately show ?thesis
    using v m(1) disk_step_trans [OF disk_step_malloc]
    by (auto simp: fatfs_read_dir_entry_by_index_def entry_result_def Let_def split: if_splits)
qed

lemma count_dir:
  fixes v img dir cs defines "L \<equiv> listing (fixed_root v dir) (entries_of (dir_bytes v img dir cs))"
  assumes v: "i_volume dir \<noteq> NULL" "vol_at k (i_volume dir) = Some v" and h: "fat_state v H k img" and s: "sane v img"
    and d: "dir_on v img dir cs" and n: "n \<le> length L"
  shows "\<exists>k'. count_loop dir n k = Some (length L, k') \<and> fat_state v H k' img \<and> disk_step k k'"
  using v(2) h n
proof (induction "length L - n" arbitrary: n k)
  case 0
  then show ?case
    using read_index_dir [OF v(1) _ _ s d, of k H n] by (subst count_loop.simps) (auto simp: L_def entry_result_def)
next
  case (Suc m)
  then have lt: "n < length L" by simp
  then obtain k1 where k1: "fatfs_read_dir_entry_by_index k dir n = Some (entry_result (Some (L ! n)), k1)" "fat_state v H k1 img" "disk_step k k1"
    using read_index_dir [OF v(1) Suc.prems(1,2) s d, of n] by (auto simp: L_def)
  have "vol_at k1 (i_volume dir) = Some v" using Suc.prems(1) vol_at_step [OF k1(3)] by simp
  moreover have "m = length L - (n + 1)" using Suc.hyps(2) by simp
  ultimately obtain k2 where k2: "count_loop dir (n + 1) k1 = Some (length L, k2)" "fat_state v H k2 img" "disk_step k1 k2"
    using Suc.hyps(1) [of "n + 1" k1] k1(2) lt by auto
  have "count_loop dir n k = Some (length L, k2)" using k1(1) k2(1) by (subst count_loop.simps) (simp add: entry_result_def)
  then show ?case using k2 disk_step_trans [OF k1(3) k2(3)] by blast
qed

section \<open>Short names\<close>

lemma all_bytes:
  assumes "list_all P (map word_of_int [0..255])"
  shows "P (c :: byte)"
proof -
  have "uint c < 256" using uint_lt2p [of c] by simp
  then have "uint c \<in> {0..255}" by simp
  then have "c \<in> set (map word_of_int [0..255])" by (auto intro!: image_eqI [of _ _ "uint c"])
  then show ?thesis using assms by (simp only: list_all_iff)
qed

lemma to_lower_upper [simp]: "to_lower (to_upper c) = to_lower c"
  by (rule all_bytes [of _ c]) code_simp

lemma to_upper_space [simp]: "to_upper c = 32 \<longleftrightarrow> c = 32"
  by (rule all_bytes [of _ c]) code_simp

lemma to_lower_zero [simp]: "to_lower c = 0 \<longleftrightarrow> c = 0"
  by (rule all_bytes [of _ c]) code_simp

lemma short_char_plain: "c \<noteq> 32 \<Longrightarrow> short_char c = to_upper c"
  by (simp add: short_char_def Let_def)

lemma takeWhile_all: "\<forall>x \<in> set xs. P x \<Longrightarrow> takeWhile P (xs @ replicate n y) = (if P y then xs @ replicate n y else xs)"
  by (induction xs) (auto simp: takeWhile_replicate)

lemma bytes_of_chars: "bytes_of (map (\<lambda>c. char_of (unat c)) bs) = bs"
proof -
  have "of_char (char_of (unat c)) = c" for c :: byte
  proof -
    have "of_nat (of_char (char_of (unat c)) :: nat) = (of_nat (unat c mod 256) :: byte)" by (subst of_char_of) (rule refl)
    moreover have "unat c < 256" using unsigned_less [of c] by simp
    ultimately have "of_nat (of_char (char_of (unat c)) :: nat) = c" by (simp only: mod_less of_nat_unat ucast_id)
    then show ?thesis by (simp only: of_nat_of_char)
  qed
  then show ?thesis by (simp add: bytes_of_def map_idI)
qed

text \<open>Padding a name and reading it back.\<close>

lemma read_padded:
  assumes "length xs \<le> 8" and "length ys \<le> 3" and "\<forall>c \<in> set xs \<union> set ys. c \<noteq> 32 \<and> c \<noteq> 0"
  shows "bytes_of (fatfs_83_to_name (pad83 (map short_char xs) 8 @ pad83 (map short_char ys) 3) 64) =
    map to_lower (xs @ (if ys = [] then [] else 46 # ys))"
proof -
  let ?X = "map short_char xs" and ?Y = "map short_char ys"
  have X: "takeWhile (\<lambda>c. c \<noteq> 32) (take 8 (pad83 ?X 8 @ pad83 ?Y 3)) = ?X"
    and Y: "takeWhile (\<lambda>c. c \<noteq> 32) (pad83 ?Y 3) = ?Y" "drop 8 (take 11 (pad83 ?X 8 @ pad83 ?Y 3)) = pad83 ?Y 3"
    using assms by (auto simp: pad83_def takeWhile_all short_char_plain)
  have Z: "list_ex (\<lambda>c. c \<noteq> 32) (pad83 ?Y 3) \<longleftrightarrow> ys \<noteq> []"
    using assms(3) by (cases ys) (auto simp: pad83_def short_char_plain list_ex_iff)
  have low: "map to_lower ?X = map to_lower xs" "map to_lower ?Y = map to_lower ys"
    using assms(3) by (simp_all add: short_char_plain)
  have z: "\<forall>c \<in> set xs. c \<noteq> 0" "\<forall>c \<in> set ys. c \<noteq> 0" using assms(3) by (simp_all add: ball_Un)
  have nz: "takeWhile (\<lambda>c. c \<noteq> 0) (map to_lower (xs @ (if ys = [] then [] else 46 # ys))) = map to_lower (xs @ (if ys = [] then [] else 46 # ys))"
    using z by (auto simp: takeWhile_eq_all_conv)
  have "to_lower 46 = 46" by (simp add: to_lower_def)
  then show ?thesis
    using assms(1,2) nz unfolding fatfs_83_to_name_def Let_def X Y Z low bytes_of_chars by (simp split: if_splits)
qed

end
