(* ===== verification/Fat_Correct.thy ===== *)
theory Fat_Correct
  imports Fat_Read
begin

text \<open>
  What the FAT driver's table gives its clients: names that survive the short form, directories
  whose entries are counted and listed, and files that are found by name and read back as the
  bytes of their cluster chain, through a partition or on a whole device.
\<close>

section \<open>Nodes of the driver\<close>

text \<open>The list of nodes of a volume plays no part in what it holds.\<close>

lemma nodes_irrelevant [simp]:
  "fat_state (v\<lparr>fv_nodes := ps\<rparr>) H k img = fat_state v H k img" "sane (v\<lparr>fv_nodes := ps\<rparr>) img = sane v img"
  "fat_volume_is_end (Some (v\<lparr>fv_nodes := ps\<rparr>)) c = fat_volume_is_end (Some v) c"
  "fat_volume_is_bad (Some (v\<lparr>fv_nodes := ps\<rparr>)) c = fat_volume_is_bad (Some v) c"
  "fat_entry (v\<lparr>fv_nodes := ps\<rparr>) img c = fat_entry v img c" "cluster_ok (v\<lparr>fv_nodes := ps\<rparr>) img c = cluster_ok v img c"
  "cluster_data (v\<lparr>fv_nodes := ps\<rparr>) img = cluster_data v img" "chain_data (v\<lparr>fv_nodes := ps\<rparr>) img cs = chain_data v img cs"
  by (simp_all add: fat_state_def fat_image_def sane_def fat_volume_is_end_def fat_volume_is_bad_def fat_entry_def entry_size_def
    cluster_ok_def cluster_data_def [abs_def] chain_data_def cong: option.case_cong)

lemma nodes_irrelevant_chain [simp]: "chain (v\<lparr>fv_nodes := ps\<rparr>) img c cs = chain v img c cs"
  by (induction cs arbitrary: c) simp_all

lemma alloc_node_ok:
  assumes "k_mallocs k = []" and "volume \<noteq> NULL" and "vol_at k volume = Some v" and "k_nodes k parent = Some pn" and "parent \<noteq> NULL"
  shows "\<exists>m ps. fatfs_alloc_node k volume parent nm ty = Some (Suc (k_last k),
    set_vol (set_node (set_info (k\<lparr>k_last := m\<rparr>) (Suc (Suc (k_last k))) (blank_info volume)) (Suc (k_last k))
      \<lparr>n_name = (if nm \<noteq> [] then Some nm else None), n_type = ty, n_flags = VFS_NODE_FLAG_READONLY, n_parent = parent,
       n_mount = n_mount pn, n_ops = FAT_NODE_OPS, n_data = Suc (Suc (k_last k))\<rparr>) volume (Some (v\<lparr>fv_nodes := Some ps\<rparr>)))"
proof (intro exI)
  let ?m = "Suc (k_last k + (if nm \<noteq> [] then 1 else 0) + (if fv_nodes v = None then 1 else 0) + 2)"
  let ?ps = "(case fv_nodes v of None \<Rightarrow> [] | Some ps \<Rightarrow> ps) @ [Suc (k_last k)]"
  show "fatfs_alloc_node k volume parent nm ty = Some (Suc (k_last k),
    set_vol (set_node (set_info (k\<lparr>k_last := ?m\<rparr>) (Suc (Suc (k_last k))) (blank_info volume)) (Suc (k_last k))
      \<lparr>n_name = (if nm \<noteq> [] then Some nm else None), n_type = ty, n_flags = VFS_NODE_FLAG_READONLY, n_parent = parent,
       n_mount = n_mount pn, n_ops = FAT_NODE_OPS, n_data = Suc (Suc (k_last k))\<rparr>) volume (Some (v\<lparr>fv_nodes := Some ?ps\<rparr>)))"
    using assms
    by (cases "nm = []"; cases "fv_nodes v")
      (simp_all add: fatfs_alloc_node_def kmalloc_no_failure kstrdup_def list_add_def vol_at_def set_info_def set_node_def set_vol_def Let_def)
qed

text \<open>A directory of the disk under a node, without anything created in memory.\<close>

definition disk_dir :: "'x fkernel \<Rightarrow> ptr \<Rightarrow> FATNodeInfo \<Rightarrow> bool" where
  "disk_dir k node dir \<longleftrightarrow> node \<noteq> NULL \<and>
     (\<exists>nd. k_nodes k node = Some nd \<and> n_type nd = VFS_NODE_DIRECTORY \<and> n_data nd \<noteq> NULL \<and> info_at k (n_data nd) = Some dir) \<and>
     \<not> overlay dir \<and> overlay_children dir = None \<and> i_volume dir \<noteq> NULL"

definition listed :: "'x FATVolume \<Rightarrow> image \<Rightarrow> FATNodeInfo \<Rightarrow> nat list \<Rightarrow> string \<Rightarrow> FAT_DirEntry option" where
  "listed v img dir cs nm = List.find (entry_matches nm) (listing True (entries_of (dir_bytes v img dir cs)))"

text \<open>The data of a node that was looked up.\<close>

definition entry_info :: "ptr \<Rightarrow> FAT_DirEntry \<Rightarrow> FATNodeInfo" where
  "entry_info volume e =
     (blank_info volume)\<lparr>first_cluster := fat_direntry_first_cluster e, info_size := fileSize e, info_attr := e_attr e\<rparr>"

definition disk_node :: "'x fkernel \<Rightarrow> 'x FATVolume \<Rightarrow> ptr \<Rightarrow> ptr \<Rightarrow> FAT_DirEntry \<Rightarrow> bool" where
  "disk_node k v volume node e \<longleftrightarrow> node \<noteq> NULL \<and> vol_at k volume = Some v \<and>
     (\<exists>nd. k_nodes k node = Some nd \<and> n_data nd \<noteq> NULL \<and> info_at k (n_data nd) = Some (entry_info volume e) \<and>
        n_type nd = (if fat_direntry_is_directory e then VFS_NODE_DIRECTORY else VFS_NODE_REGULAR))"

lemma lookup_dir:
  assumes d: "disk_dir k node dir" and v: "vol_at k (i_volume dir) = Some v" and h: "fat_state v H k img" and s: "sane v img"
    and o: "dir_on v img dir cs" and nm: "nm \<noteq> ''.''" "nm \<noteq> ''..''"
  shows "case listed v img dir cs nm of
      None \<Rightarrow> \<exists>k'. fat_node_lookup k node nm = Some ((VFS_RES_NOT_FOUND, NULL), k') \<and> disk_step k k' \<and> fat_state v H k' img
    | Some e \<Rightarrow> \<exists>child k' ps. fat_node_lookup k node nm = Some ((VFS_RES_OK, child), k') \<and>
        disk_node k' (v\<lparr>fv_nodes := ps\<rparr>) (i_volume dir) child e \<and> fat_state v H k' img"
proof -
  let ?vp = "i_volume dir"
  obtain nd where nd: "node \<noteq> NULL" "k_nodes k node = Some nd" "n_type nd = VFS_NODE_DIRECTORY" "n_data nd \<noteq> NULL"
    "info_at k (n_data nd) = Some dir" "\<not> overlay dir" "overlay_children dir = None" "?vp \<noteq> NULL"
    using d by (auto simp: disk_dir_def)
  obtain k1 where k1: "fatfs_find_entry k dir nm = Some (entry_result (listed v img dir cs nm), k1)" "fat_state v H k1 img" "disk_step k k1"
    using find_entry_dir [OF nd(8) v h s o, of nm] unfolding listed_def by blast
  show ?thesis
  proof (cases "listed v img dir cs nm")
    case None
    then show ?thesis
      using nd nm k1 by (auto simp: fat_node_lookup_def with_info_def fatfs_overlay_find_child_def entry_result_def)
  next
    case (Some e)
    let ?ty = "if fat_direntry_is_directory e then VFS_NODE_DIRECTORY else VFS_NODE_REGULAR"
    let ?sn = "fatfs_83_to_name (e_name e) 64"
    have m: "k_mallocs k1 = []" using k1(2) by (simp add: fat_state_def)
    have v1: "vol_at k1 ?vp = Some v" using v vol_at_step [OF k1(3)] by simp
    have n1: "k_nodes k1 node = Some nd" using nd(2) disk_step_same [OF k1(3)] by simp
    obtain a ps where al: "fatfs_alloc_node k1 ?vp node ?sn ?ty = Some (Suc (k_last k1),
      set_vol (set_node (set_info (k1\<lparr>k_last := a\<rparr>) (Suc (Suc (k_last k1))) (blank_info ?vp)) (Suc (k_last k1))
      \<lparr>n_name = (if ?sn \<noteq> [] then Some ?sn else None), n_type = ?ty, n_flags = VFS_NODE_FLAG_READONLY, n_parent = node,
       n_mount = n_mount nd, n_ops = FAT_NODE_OPS, n_data = Suc (Suc (k_last k1))\<rparr>) ?vp (Some (v\<lparr>fv_nodes := Some ps\<rparr>)))"
      (is "_ = Some (_, ?k2)")
      using alloc_node_ok [OF m nd(8) v1 n1 nd(1)] by blast
    let ?k3 = "set_info ?k2 (Suc (Suc (k_last k1))) (entry_info ?vp e)"
    have "fat_node_lookup k node nm = Some ((VFS_RES_OK, Suc (k_last k1)), ?k3)"
      using nd nm k1(1) al Some
      by (simp add: fat_node_lookup_def with_info_def fatfs_overlay_find_child_def entry_result_def fat_node_info_def set_vol_def
        set_node_def set_info_def info_at_def entry_info_def blank_info_def)
    moreover have "disk_node ?k3 (v\<lparr>fv_nodes := Some ps\<rparr>) ?vp (Suc (k_last k1)) e"
      by (simp add: disk_node_def set_vol_def set_node_def set_info_def vol_at_def info_at_def)
    moreover have "fat_state v H ?k3 img" using k1(2) by (simp add: fat_state_def set_vol_def set_node_def set_info_def)
    ultimately show ?thesis using Some by auto
  qed
qed

lemma read_disk_node:
  assumes d: "disk_node k v volume node e" "volume \<noteq> NULL" "\<not> fat_direntry_is_directory e" and h: "fat_state v H k img" and s: "sane v img"
    and c: "chain v img (fat_direntry_first_cluster e) cs" "cs \<noteq> []" and size: "fileSize e < 2 ^ 32" and n: "0 < n"
  shows "\<exists>k'. fat_node_read k node handle off n =
      Some ((int (length (pread (take (fileSize e) (chain_data v img cs)) off n)), pread (take (fileSize e) (chain_data v img cs)) off n), k') \<and>
    fat_state v H k' img \<and> disk_step k k'"
proof -
  let ?i = "entry_info volume e"
  have "i_volume ?i = volume" "first_cluster ?i = fat_direntry_first_cluster e" "info_size ?i = fileSize e" "\<not> overlay ?i"
    by (simp_all add: entry_info_def blank_info_def)
  moreover obtain nd where "node \<noteq> NULL" "vol_at k volume = Some v" "k_nodes k node = Some nd" "n_data nd \<noteq> NULL"
    "info_at k (n_data nd) = Some ?i" "n_type nd = VFS_NODE_REGULAR" using d by (auto simp: disk_node_def)
  ultimately show ?thesis
    using read_file_chain [of ?i k v H img cs off n] d(2) h s c size n by (auto simp: fat_node_read_def with_info_def fat_contents_def)
qed

lemma to_lower_idem [simp]: "to_lower (to_lower c) = to_lower c"
  by (rule all_bytes [of _ c]) code_simp

section \<open>A small volume\<close>

text \<open>Six sectors of 32 bytes: the table, a root directory with one file, and its two clusters.\<close>

definition demo_fat :: image where
  "demo_fat = replicate 32 0 @ ([0xF8, 0xFF, 0xFF, 0xFF, 3, 0, 0xFF, 0xFF] @ replicate 24 0) @
     ([65, 32, 32, 32, 32, 32, 32, 32, 84, 88, 84, 0x20] @ replicate 14 0 @ [2, 0, 40, 0, 0, 0]) @
     replicate 32 7 @ replicate 32 9 @ replicate 32 0"

definition demo_fat_volume :: "image kernel FATVolume" where
  "demo_fat_volume = empty_volume\<lparr>fv_device := Some (ram_disk 32 6), fv_type := FAT_TYPE_16, bytes_per_sector := 32,
     sectors_per_cluster := 1, cluster_size_bytes := 32, root_dir_sectors := 1, fat_start_sector := 1, root_dir_sector := 2,
     first_data_sector := 3, fat_bits := 16\<rparr>"

definition demo_root :: FATNodeInfo where
  "demo_root = (blank_info 1)\<lparr>is_root := True, info_attr := FAT_ATTR_DIRECTORY\<rparr>"

definition demo_fat_kernel :: "image kernel fkernel" where
  "demo_fat_kernel =
     \<lparr>k_mallocs = [], k_last = 3,
      k_nodes = (\<lambda>_. None)(2 := Some \<lparr>n_name = None, n_type = VFS_NODE_DIRECTORY, n_flags = 1, n_parent = 0, n_mount = 0,
        n_ops = FAT_NODE_OPS, n_data = 3\<rparr>),
      k_drv = \<lparr>f_infos = (\<lambda>_. None)(3 := Some demo_root), f_vols = (\<lambda>_. None)(1 := Some demo_fat_volume), f_devices = (\<lambda>_. None),
        f_volumes = (\<lambda>_. None), f_disk = ram_kernel demo_fat, s_fat_fs_ops = True\<rparr>\<rparr>"

abbreviation demo_H :: "image kernel \<Rightarrow> image \<Rightarrow> bool" where
  "demo_H \<equiv> on_drv (\<lambda>img i. i = img \<and> length img = 6 * 32)"

lemma demo_fat_length: "length demo_fat = 6 * 32"
  by (simp add: demo_fat_def)

lemma demo_fat_state: "fat_state demo_fat_volume demo_H demo_fat_kernel demo_fat"
proof -
  have "drives (ram_disk 32 6) demo_H" by (rule ram_disk_drives) simp
  moreover have "demo_H (ram_kernel demo_fat) demo_fat" using demo_fat_length by (simp add: on_drv_def ram_kernel_def)
  moreover have "logical_block_size (ram_disk 32 6) = 32" "total_blocks (ram_disk 32 6) = 6" by (simp_all add: ram_disk_def)
  ultimately show ?thesis
    by (simp add: fat_state_def fat_image_def demo_fat_kernel_def demo_fat_volume_def empty_volume_def dev_holds_def)
qed

lemma demo_fat_sane: "sane demo_fat_volume demo_fat"
  by (simp add: sane_def demo_fat_volume_def demo_fat_length)

lemma demo_fat_dir:
  "disk_dir demo_fat_kernel 2 demo_root" "dir_on demo_fat_volume demo_fat demo_root []" "i_volume demo_root = 1"
  "vol_at demo_fat_kernel 1 = Some demo_fat_volume" "fixed_root demo_fat_volume demo_root"
  by (simp_all add: disk_dir_def dir_on_def fixed_root_def demo_fat_kernel_def demo_fat_volume_def demo_root_def blank_info_def
    info_at_def vol_at_def demo_fat_length)

definition demo_entry :: FAT_DirEntry where
  "demo_entry = \<lparr>e_name = [65, 32, 32, 32, 32, 32, 32, 32, 84, 88, 84], e_attr = 0x20, fstClusHI = 0, fstClusLO = 2, fileSize = 40\<rparr>"

lemma demo_fat_entries: "entries_of (dir_bytes demo_fat_volume demo_fat demo_root []) = [demo_entry]"
proof -
  have "dir_bytes demo_fat_volume demo_fat demo_root [] = span demo_fat 64 32"
    using demo_fat_dir(5) by (simp add: dir_bytes_def demo_fat_volume_def)
  then show ?thesis by (simp add: entries_of_def demo_fat_def span_def dir_entry_def demo_entry_def)
qed

lemma demo_fat_listing: "listing x (entries_of (dir_bytes demo_fat_volume demo_fat demo_root [])) = [demo_entry]"
  unfolding demo_fat_entries
  by (simp add: listing_def demo_entry_def fat_direntry_is_free_def fat_direntry_is_long_def FAT_ATTR_LONG_NAME_def FAT_ATTR_VOLUME_ID_def)

lemma demo_fat_chain: "chain demo_fat_volume demo_fat 2 [2, 3]"
  "chain_data demo_fat_volume demo_fat [2, 3] = replicate 32 7 @ replicate 32 9"
  by (simp_all add: fat_volume_is_end_def fat_volume_is_bad_def cluster_ok_def fat_entry_def entry_size_def cluster_data_def
    demo_fat_volume_def demo_fat_def span_def)

section \<open>Properties\<close>

text \<open>C37. A file of the disk is found by its name and read back whole: \<open>fat_node_lookup\<close> on a directory finds
  the first shown entry that the name matches, in the fixed root directory or along the clusters
  of any other, and reports \<open>VFS_RES_NOT_FOUND\<close> if there is none; \<open>fat_node_read\<close> on the node it
  returns gives, at any offset and for any length, the bytes of the entry's cluster chain cut off
  at the size of the file, whether the volume is a partition or a whole device.\<close>

theorem fat_lookup_read:
  assumes d: "disk_dir k node dir" and v: "vol_at k (i_volume dir) = Some v" and h: "fat_state v H k img" and s: "sane v img"
    and o: "dir_on v img dir cs" and nm: "nm \<noteq> ''.''" "nm \<noteq> ''..''"
  shows "case listed v img dir cs nm of
      None \<Rightarrow> \<exists>k'. fat_node_lookup k node nm = Some ((VFS_RES_NOT_FOUND, NULL), k')
    | Some e \<Rightarrow> \<exists>child k'. fat_node_lookup k node nm = Some ((VFS_RES_OK, child), k') \<and>
        (\<forall>fs off n. \<not> fat_direntry_is_directory e \<longrightarrow> chain v img (fat_direntry_first_cluster e) fs \<longrightarrow> fs \<noteq> [] \<longrightarrow> fileSize e < 2 ^ 32 \<longrightarrow>
           0 < n \<longrightarrow> (let bytes = pread (take (fileSize e) (chain_data v img fs)) off n
             in \<exists>k''. fat_node_read k' child 0 off n = Some ((int (length bytes), bytes), k'')))"
proof (cases "listed v img dir cs nm")
  case None
  then show ?thesis using lookup_dir [OF assms] by auto
next
  case (Some e)
  then obtain child k' ps where l: "fat_node_lookup k node nm = Some ((VFS_RES_OK, child), k')"
      "disk_node k' (v\<lparr>fv_nodes := ps\<rparr>) (i_volume dir) child e" "fat_state v H k' img"
    using lookup_dir [OF assms] by auto
  have vp: "i_volume dir \<noteq> NULL" using d by (simp add: disk_dir_def)
  have "\<exists>k''. fat_node_read k' child 0 off n = Some ((int (length (pread (take (fileSize e) (chain_data v img fs)) off n)),
      pread (take (fileSize e) (chain_data v img fs)) off n), k'')"
    if "\<not> fat_direntry_is_directory e" "chain v img (fat_direntry_first_cluster e) fs" "fs \<noteq> []" "fileSize e < 2 ^ 32" "0 < n" for fs off n
    using read_disk_node [OF l(2) vp that(1), of H img fs n 0 off] l(3) s that by auto
  then show ?thesis using Some l(1) by (auto simp: Let_def)
qed

theorem fat_lookup_read_witness:
  "\<exists>child k' k''. fat_node_lookup demo_fat_kernel 2 ''A.Txt'' = Some ((VFS_RES_OK, child), k') \<and>
     fat_node_read k' child 0 30 100 = Some ((10, [7, 7, 9, 9, 9, 9, 9, 9, 9, 9]), k'')"
proof -
  have "entry_matches ''A.Txt'' demo_entry" unfolding entry_matches_def demo_entry_def by code_simp
  then have l: "listed demo_fat_volume demo_fat demo_root [] ''A.Txt'' = Some demo_entry" by (simp add: listed_def demo_fat_listing)
  have e: "\<not> fat_direntry_is_directory demo_entry" "fat_direntry_first_cluster demo_entry = 2" "fileSize demo_entry = 40"
    by (simp_all add: fat_direntry_is_directory_def fat_direntry_first_cluster_def demo_entry_def FAT_ATTR_DIRECTORY_def)
  have b: "pread (take 40 (chain_data demo_fat_volume demo_fat [2, 3])) 30 100 = [7, 7, 9, 9, 9, 9, 9, 9, 9, 9]"
    unfolding demo_fat_chain(2) by (simp add: pread_def numeral_eq_Suc)
  have vv: "vol_at demo_fat_kernel (i_volume demo_root) = Some demo_fat_volume" using demo_fat_dir by simp
  obtain child k' where k': "fat_node_lookup demo_fat_kernel 2 ''A.Txt'' = Some ((VFS_RES_OK, child), k')"
    "\<forall>fs off n. chain demo_fat_volume demo_fat 2 fs \<longrightarrow> fs \<noteq> [] \<longrightarrow> 0 < n \<longrightarrow>
       (let bytes = pread (take 40 (chain_data demo_fat_volume demo_fat fs)) off n
        in \<exists>k''. fat_node_read k' child 0 off n = Some ((int (length bytes), bytes), k''))"
    using fat_lookup_read [OF demo_fat_dir(1) vv demo_fat_state demo_fat_sane demo_fat_dir(2), of "''A.Txt''"] l e by auto
  have "\<exists>k''. fat_node_read k' child 0 30 100 = Some ((10, [7, 7, 9, 9, 9, 9, 9, 9, 9, 9]), k'')"
    using k'(2) [rule_format, OF demo_fat_chain(1), of 100 30] unfolding b Let_def by simp
  then show ?thesis using k'(1) by blast
qed

text \<open>C38. The listing of a directory ends: \<open>fatfs_directory_disk_entry_count\<close> returns the number of entries
  shown, also across clusters, and \<open>fatfs_read_dir_entry_by_index\<close> returns the entry at each index
  below it and none from there on. Both read the chain to its end, so a finite chain is what
  makes them return.\<close>

theorem fat_directory_listed:
  assumes v: "i_volume dir \<noteq> NULL" "\<not> overlay dir" "vol_at k (i_volume dir) = Some v" and h: "fat_state v H k img" and s: "sane v img"
    and o: "dir_on v img dir cs"
  shows "let L = listing (fixed_root v dir) (entries_of (dir_bytes v img dir cs))
    in (\<exists>k'. fatfs_directory_disk_entry_count k dir = Some (length L, k')) \<and>
       (\<forall>t. \<exists>k'. fatfs_read_dir_entry_by_index k dir t =
          Some (if t < length L then Some (L ! t, fatfs_83_to_name (e_name (L ! t)) 64) else None, k'))"
proof -
  let ?L = "listing (fixed_root v dir) (entries_of (dir_bytes v img dir cs))"
  have "\<exists>k'. fatfs_directory_disk_entry_count k dir = Some (length ?L, k')"
    using count_dir [OF v(1,3) h s o, of 0] v(2) by (auto simp: fatfs_directory_disk_entry_count_def)
  moreover have "\<exists>k'. fatfs_read_dir_entry_by_index k dir t =
      Some (if t < length ?L then Some (?L ! t, fatfs_83_to_name (e_name (?L ! t)) 64) else None, k')" for t
    using read_index_dir [OF v(1,3) h s o, of t] by (auto simp: entry_result_def)
  ultimately show ?thesis by (simp add: Let_def)
qed

theorem fat_directory_listed_witness:
  "(\<exists>k'. fatfs_directory_disk_entry_count demo_fat_kernel demo_root = Some (1, k')) \<and>
   (\<exists>k'. fatfs_read_dir_entry_by_index demo_fat_kernel demo_root 0 = Some (Some (demo_entry, ''a.txt''), k'))"
proof -
  have n: "fatfs_83_to_name (e_name demo_entry) 64 = ''a.txt''" unfolding demo_entry_def by code_simp
  have o: "i_volume demo_root \<noteq> NULL" "\<not> overlay demo_root" "vol_at demo_fat_kernel (i_volume demo_root) = Some demo_fat_volume"
    using demo_fat_dir by (simp_all add: demo_root_def blank_info_def)
  note L = fat_directory_listed [OF o demo_fat_state demo_fat_sane demo_fat_dir(2), unfolded demo_fat_listing Let_def]
  show ?thesis using L [THEN conjunct1] L [THEN conjunct2, THEN spec [of _ 0]] n by simp
qed

text \<open>C40. The short form keeps a name up to case: a name without spaces that does not end in a dot and
  that \<open>fatfs_name_to_83\<close> accepts becomes 11 bytes that \<open>fatfs_83_to_name\<close> turns back into the name
  in lower case, so an entry stored under it is found under the name in any mixture of cases.\<close>

theorem fat_name_roundtrip:
  assumes ok: "fatfs_name_to_83 nm = Some s" and plain: "\<forall>c \<in> set (bytes_of nm). c \<noteq> 32 \<and> c \<noteq> 0" and dot: "last (bytes_of nm) \<noteq> 46"
  shows "length s = 11 \<and> bytes_of (fatfs_83_to_name s 64) = map to_lower (bytes_of nm) \<and>
    (\<forall>e nm'. e_name e = s \<longrightarrow> map to_lower (bytes_of nm') = map to_lower (bytes_of nm) \<longrightarrow> entry_matches nm' e)"
proof -
  let ?n = "bytes_of nm"
  define xs where "xs = takeWhile (\<lambda>c. c \<noteq> 46) ?n"
  define ys where "ys = (if 46 \<in> set ?n then drop (length xs + 1) ?n else [])"
  have nd: "nm \<noteq> ''.''" "nm \<noteq> ''..''" using dot by (auto simp: bytes_of_def)
  then have s: "s = pad83 (map short_char xs) 8 @ pad83 (map short_char ys) 3" and len: "length xs \<le> 8" "length ys \<le> 3" "xs \<noteq> []"
    using ok by (auto simp: fatfs_name_to_83_def Let_def xs_def ys_def split: if_splits)
  have n: "?n = xs @ (if 46 \<in> set ?n then 46 # ys else [])"
  proof (cases "46 \<in> set ?n")
    case True
    then have "dropWhile (\<lambda>c. c \<noteq> 46) ?n \<noteq> []" by auto
    then obtain zs where zs: "dropWhile (\<lambda>c. c \<noteq> 46) ?n = 46 # zs" using hd_dropWhile by (metis (mono_tags, lifting) list.collapse)
    then have "?n = xs @ 46 # zs" unfolding xs_def by (metis takeWhile_dropWhile_id)
    then show ?thesis using True by (simp add: ys_def)
  next
    case False
    then have "xs = ?n" unfolding xs_def takeWhile_eq_all_conv by auto
    then show ?thesis using False by simp
  qed
  moreover have "46 \<in> set ?n \<longleftrightarrow> ys \<noteq> []"
  proof (cases "46 \<in> set ?n")
    case True
    then have "?n = xs @ 46 # ys" using n by simp
    then show ?thesis using True dot by auto
  qed (simp add: ys_def)
  ultimately have nn: "?n = xs @ (if ys = [] then [] else 46 # ys)" by auto
  have "set ?n = set xs \<union> (if ys = [] then {} else {46} \<union> set ys)" by (subst nn) simp
  then have sub: "set xs \<union> set ys \<subseteq> set ?n" by auto
  have "\<forall>c \<in> set xs \<union> set ys. c \<noteq> 32 \<and> c \<noteq> 0" using sub plain by (meson subset_iff)
  then have "bytes_of (fatfs_83_to_name s 64) = map to_lower ?n"
    unfolding s by (subst nn) (rule read_padded [OF len(1,2)])
  moreover have "length s = 11" using len by (simp add: s pad83_def)
  ultimately show ?thesis by (simp add: entry_matches_def)
qed

theorem fat_name_roundtrip_witness:
  "\<exists>s. fatfs_name_to_83 ''ReadMe.Txt'' = Some s \<and> bytes_of (fatfs_83_to_name s 64) = bytes_of ''readme.txt''"
proof -
  have "fatfs_name_to_83 ''ReadMe.Txt'' = Some [82, 69, 65, 68, 77, 69, 32, 32, 84, 88, 84]" by code_simp
  moreover have "\<forall>c \<in> set (bytes_of ''ReadMe.Txt''). c \<noteq> 32 \<and> c \<noteq> 0" "last (bytes_of ''ReadMe.Txt'') \<noteq> 46" by code_simp+
  moreover have "map to_lower (bytes_of ''ReadMe.Txt'') = bytes_of ''readme.txt''" by code_simp
  ultimately show ?thesis using fat_name_roundtrip [of "''ReadMe.Txt''"] by auto
qed

end
