(* ===== verification/Paging.thy ===== *)
theory Paging
  imports Memory
begin

text \<open>
  Page tables of the 64-bit kernel, \<open>kernel/amd64/paging.c\<close>: the identity map of the first 4 GiB and
  the memory types of its pages. The tables are the static arrays of the file; where the linker
  puts them is a parameter. The walk of the processor through the tables is the specification
  the operations are measured by. The memory-type range registers are in \<open>Mtrr\<close>.
\<close>

unbundle bit_operations_syntax

section \<open>Tables\<close>

datatype arch_paging_memtype_t = ARCH_PAGING_MT_WB | ARCH_PAGING_MT_WT | ARCH_PAGING_MT_UC | ARCH_PAGING_MT_UC_MINUS
  | ARCH_PAGING_MT_WC | ARCH_PAGING_MT_WP

definition PTE_P :: u64 where "PTE_P = 1"
definition PTE_RW :: u64 where "PTE_RW = 2"
definition PTE_US :: u64 where "PTE_US = 4"
definition PTE_PWT :: u64 where "PTE_PWT = 8"
definition PTE_PCD :: u64 where "PTE_PCD = 16"
definition PTE_PAT :: u64 where "PTE_PAT = 128"
definition PTE_G :: u64 where "PTE_G = 256"

lemmas pte_defs = PTE_P_def PTE_RW_def PTE_US_def PTE_PWT_def PTE_PCD_def PTE_PAT_def PTE_G_def

text \<open>The arrays \<open>pml4\<close>, \<open>pdpt\<close>, \<open>pd0\<close> to \<open>pd3\<close> and the rows of \<open>pt_g0\<close> to \<open>pt_g3\<close>, of 512 entries each.\<close>

datatype table = Pml4 | Pdpt | Pd nat | Pt nat nat

record paging =
  entries :: "table \<Rightarrow> nat \<Rightarrow> u64"
  cr3 :: u64
  identity_done :: bool
  flushed :: "nat list"

type_synonym layout = "table \<Rightarrow> u64"

definition set_entry :: "table \<Rightarrow> nat \<Rightarrow> u64 \<Rightarrow> paging \<Rightarrow> paging" where
  "set_entry t i e s = s\<lparr>entries := (entries s)(t := (entries s t)(i := e))\<rparr>"

definition arch_tlb_flush_one :: "nat \<Rightarrow> paging \<Rightarrow> paging" where
  "arch_tlb_flush_one va s = s\<lparr>flushed := va # flushed s\<rparr>"

text \<open>The entry of a page: the table and the index in it. Addresses are numbers below \<open>2 ^ 64\<close>.\<close>

definition get_pte :: "nat \<Rightarrow> table \<times> nat" where
  "get_pte va = (Pt (va div 2 ^ 30 mod 4) (va div 2 ^ 21 mod 512), va div 2 ^ 12 mod 512)"

section \<open>Memory types\<close>

definition apply_type_to_pte :: "u64 \<Rightarrow> arch_paging_memtype_t \<Rightarrow> u64" where
  "apply_type_to_pte pte type =
     (let pte = pte AND NOT (PTE_PWT OR PTE_PCD OR PTE_PAT)
      in case type of
           ARCH_PAGING_MT_WB \<Rightarrow> pte
         | ARCH_PAGING_MT_WT \<Rightarrow> pte OR PTE_PWT
         | ARCH_PAGING_MT_UC \<Rightarrow> pte OR (PTE_PWT OR PTE_PCD)
         | ARCH_PAGING_MT_UC_MINUS \<Rightarrow> pte OR PTE_PCD
         | ARCH_PAGING_MT_WC \<Rightarrow> pte OR PTE_PAT
         | ARCH_PAGING_MT_WP \<Rightarrow> pte OR PTE_PAT OR PTE_PWT)"

definition pte_memtype :: "u64 \<Rightarrow> arch_paging_memtype_t" where
  "pte_memtype pte =
     (let pat = pte AND PTE_PAT \<noteq> 0; pcd = pte AND PTE_PCD \<noteq> 0; pwt = pte AND PTE_PWT \<noteq> 0
      in if \<not> pat \<and> \<not> pcd \<and> \<not> pwt then ARCH_PAGING_MT_WB
         else if \<not> pat \<and> \<not> pcd \<and> pwt then ARCH_PAGING_MT_WT
         else if \<not> pat \<and> pcd \<and> \<not> pwt then ARCH_PAGING_MT_UC_MINUS
         else if \<not> pat \<and> pcd \<and> pwt then ARCH_PAGING_MT_UC
         else if pat \<and> \<not> pcd \<and> \<not> pwt then ARCH_PAGING_MT_WC
         else if pat \<and> \<not> pcd \<and> pwt then ARCH_PAGING_MT_WP
         else ARCH_PAGING_MT_UC)"

definition arch_paging_get_memtype :: "paging \<Rightarrow> nat \<Rightarrow> arch_paging_memtype_t" where
  "arch_paging_get_memtype s virt_addr =
     (let (t, i) = get_pte virt_addr; pte = entries s t i
      in if pte AND PTE_P = 0 then ARCH_PAGING_MT_UC else pte_memtype pte)"

definition page_start :: "nat \<Rightarrow> nat" where
  "page_start a = a div 4096 * 4096"

definition page_end :: "nat \<Rightarrow> nat \<Rightarrow> nat" where
  "page_end start len = (start + len + 4096 - 1) mod 2 ^ 64 div 4096 * 4096"

text \<open>The loop of \<open>arch_paging_set_memtype\<close> over the pages, with the number of entries changed.\<close>

fun set_loop :: "nat list \<Rightarrow> nat \<Rightarrow> arch_paging_memtype_t \<Rightarrow> nat \<Rightarrow> paging \<Rightarrow> nat \<times> paging" where
  "set_loop [] start type changed s = (changed, s)"
| "set_loop (i # is) start type changed s =
     (let cur = add64 start (i * 4096); (t, e) = get_pte cur; pte = entries s t e
      in if pte AND PTE_P = 0 then set_loop is start type changed s
         else set_loop is start type (changed + 1)
           (arch_tlb_flush_one cur (set_entry t e (apply_type_to_pte pte type) s)))"

definition arch_paging_set_memtype :: "nat \<Rightarrow> nat \<Rightarrow> arch_paging_memtype_t \<Rightarrow> paging \<Rightarrow> bool \<times> paging" where
  "arch_paging_set_memtype phys_start len type s =
     (if len = 0 then (True, s)
      else let
        start = page_start phys_start;
        count = sub64 (page_end phys_start len) start div 4096;
        (changed, s) = set_loop [0..<count] start type 0 s
      in (changed = count, s))"

fun map_loop :: "nat list \<Rightarrow> nat \<Rightarrow> nat \<Rightarrow> u64 \<Rightarrow> arch_paging_memtype_t \<Rightarrow> paging \<Rightarrow> paging" where
  "map_loop [] phys virt base_flags type s = s"
| "map_loop (i # is) phys virt base_flags type s =
     (let p = add64 phys (i * 4096); v = add64 virt (i * 4096); (t, e) = get_pte v; pte = entries s t e;
        pte = (if pte AND PTE_P = 0
               then (word_of_nat p AND 0x000FFFFFFFFFF000) OR PTE_P OR PTE_RW OR (base_flags AND (PTE_US OR PTE_G)) else pte)
      in map_loop is phys virt base_flags type (arch_tlb_flush_one v (set_entry t e (apply_type_to_pte pte type) s)))"

definition arch_paging_map_with_type :: "nat \<Rightarrow> nat \<Rightarrow> nat \<Rightarrow> u64 \<Rightarrow> arch_paging_memtype_t \<Rightarrow> paging \<Rightarrow> bool \<times> paging" where
  "arch_paging_map_with_type phys_start virt_start len base_flags type s =
     (if len = 0 then (True, s)
      else let
        phys = page_start phys_start;
        virt = page_start virt_start;
        count = sub64 (page_end phys_start len) phys div 4096
      in (True, map_loop [0..<count] phys virt base_flags type s))"

section \<open>The identity map\<close>

definition zero_tables :: "paging \<Rightarrow> paging" where
  "zero_tables s = fold (\<lambda>i s. fold (\<lambda>t. set_entry t i 0) [Pml4, Pdpt, Pd 0, Pd 1, Pd 2, Pd 3] s) [0..<512] s"

definition link_entry :: "layout \<Rightarrow> table \<Rightarrow> u64" where
  "link_entry lay t = lay t OR PTE_P OR PTE_RW"

definition fill_pt :: "nat \<Rightarrow> nat \<Rightarrow> paging \<Rightarrow> paging" where
  "fill_pt gb pt_index s =
     (let base_phys = gb * 2 ^ 30 + pt_index * 2 ^ 21
      in fold (\<lambda>e. set_entry (Pt gb pt_index) e (word_of_nat (base_phys + e * 4096) OR PTE_P OR PTE_RW)) [0..<512] s)"

definition fill_pd :: "layout \<Rightarrow> nat \<Rightarrow> paging \<Rightarrow> paging" where
  "fill_pd lay gb s =
     fold (\<lambda>pt_index s. fill_pt gb pt_index (set_entry (Pd gb) pt_index (link_entry lay (Pt gb pt_index)) s)) [0..<512] s"

definition amd64_map_identity_low_4g :: "layout \<Rightarrow> paging \<Rightarrow> paging" where
  "amd64_map_identity_low_4g lay s =
     (if identity_done s then s
      else let
        s = s\<lparr>identity_done := True\<rparr>;
        s = zero_tables s;
        s = set_entry Pml4 0 (link_entry lay Pdpt) s;
        s = fold (\<lambda>gb. set_entry Pdpt gb (link_entry lay (Pd gb))) [0..<4] s;
        s = fold (fill_pd lay) [0..<4] s;
        s = snd (arch_paging_set_memtype 0xFEC00000 4096 ARCH_PAGING_MT_UC s);
        s = snd (arch_paging_set_memtype 0xFEE00000 4096 ARCH_PAGING_MT_UC s)
      in s\<lparr>cr3 := lay Pml4\<rparr>)"

section \<open>The walk of the processor\<close>

text \<open>\<open>which\<close> tells the table at an address of physical memory, if there is one. The four levels are
  selected by nine bits of the address each; an entry that is not present ends the walk. Large
  pages do not occur.\<close>

definition ADDR_MASK :: u64 where "ADDR_MASK = 0x000FFFFFFFFFF000"

definition next_level :: "(u64 \<Rightarrow> table option) \<Rightarrow> paging \<Rightarrow> nat \<Rightarrow> u64 option \<Rightarrow> u64 option" where
  "next_level which s i pa =
     (case pa of
        None \<Rightarrow> None
      | Some a \<Rightarrow> (case which a of
          None \<Rightarrow> None
        | Some t \<Rightarrow> let e = entries s t i in if e AND PTE_P = 0 then None else Some e))"

definition table_of :: "u64 option \<Rightarrow> u64 option" where
  "table_of = map_option (\<lambda>e. e AND ADDR_MASK)"

definition walk_pte :: "(u64 \<Rightarrow> table option) \<Rightarrow> paging \<Rightarrow> nat \<Rightarrow> u64 option" where
  "walk_pte which s va =
     next_level which s (va div 2 ^ 12 mod 512) (table_of (
       next_level which s (va div 2 ^ 21 mod 512) (table_of (
         next_level which s (va div 2 ^ 30 mod 512) (table_of (
           next_level which s (va div 2 ^ 39 mod 512) (Some (cr3 s AND ADDR_MASK))))))))"

definition translate :: "(u64 \<Rightarrow> table option) \<Rightarrow> paging \<Rightarrow> nat \<Rightarrow> nat option" where
  "translate which s va = map_option (\<lambda>e. unat (e AND ADDR_MASK) + va mod 4096) (walk_pte which s va)"

section \<open>Bits of an entry\<close>

text \<open>The bits that hold the memory type, and the rest.\<close>

definition TYPE_BITS :: u64 where "TYPE_BITS = PTE_PWT OR PTE_PCD OR PTE_PAT"

lemma type_consts:
  "NOT TYPE_BITS AND PTE_PWT = 0" "NOT TYPE_BITS AND PTE_PCD = 0" "NOT TYPE_BITS AND PTE_PAT = 0"
  "PTE_PWT AND NOT TYPE_BITS = 0" "PTE_PCD AND NOT TYPE_BITS = 0" "PTE_PAT AND NOT TYPE_BITS = 0"
  "NOT TYPE_BITS AND NOT TYPE_BITS = NOT TYPE_BITS" "NOT TYPE_BITS AND PTE_P = PTE_P" "NOT TYPE_BITS AND ADDR_MASK = ADDR_MASK"
  "PTE_PWT AND PTE_PCD = 0" "PTE_PWT AND PTE_PAT = 0" "PTE_PCD AND PTE_PWT = 0" "PTE_PCD AND PTE_PAT = 0" "PTE_PAT AND PTE_PWT = 0"
  "PTE_PAT AND PTE_PCD = 0" "PTE_PWT \<noteq> 0" "PTE_PCD \<noteq> 0" "PTE_PAT \<noteq> 0"
  "PTE_PWT AND PTE_P = 0" "PTE_PCD AND PTE_P = 0" "PTE_PAT AND PTE_P = 0" "PTE_P AND ADDR_MASK = 0" "PTE_RW AND ADDR_MASK = 0" "PTE_P AND PTE_P = PTE_P" "PTE_P \<noteq> 0"
  "PTE_RW AND PTE_P = 0" "PTE_RW AND PTE_RW = PTE_RW" "PTE_RW \<noteq> 0" "PTE_P AND PTE_RW = 0" "NOT TYPE_BITS AND PTE_RW = PTE_RW"
  by (simp_all add: TYPE_BITS_def pte_defs ADDR_MASK_def)

lemma apply_rest: "apply_type_to_pte pte type AND NOT TYPE_BITS = pte AND NOT TYPE_BITS"
  by (cases type) (simp_all add: apply_type_to_pte_def TYPE_BITS_def [symmetric] bit.conj_disj_distrib2 and.assoc type_consts Let_def)

lemma apply_type: "pte_memtype (apply_type_to_pte pte type) = type"
  by (cases type) (simp_all add: apply_type_to_pte_def pte_memtype_def TYPE_BITS_def [symmetric] bit.conj_disj_distrib2 and.assoc type_consts Let_def)

lemma rest_bits:
  assumes "a AND NOT TYPE_BITS = b AND NOT TYPE_BITS"
  shows "a AND PTE_P = b AND PTE_P" "a AND PTE_RW = b AND PTE_RW" "a AND ADDR_MASK = b AND ADDR_MASK"
  using arg_cong [OF assms, of "\<lambda>x. x AND PTE_P"] arg_cong [OF assms, of "\<lambda>x. x AND PTE_RW"] arg_cong [OF assms, of "\<lambda>x. x AND ADDR_MASK"]
  by (simp_all add: and.assoc type_consts)

lemma addr_bits:
  assumes "a mod 4096 = 0" and "a < 2 ^ 52"
  shows "word_of_nat a AND ADDR_MASK = (word_of_nat a :: u64)"
proof (rule bit_eqI)
  fix n assume "possible_bit TYPE(u64) n"
  then have n: "n < 64" by simp
  have m: "ADDR_MASK = push_bit 12 (mask 40)" by (simp add: ADDR_MASK_def mask_numeral)
  have q: "a = push_bit 12 (a div 4096)" using assms(1) div_mult_mod_eq [of a 4096] by (simp add: push_bit_eq_mult)
  have t: "a = take_bit 52 a" using assms(2) by (simp add: take_bit_eq_mod)
  have "12 \<le> n \<and> n < 52" if "bit a n"
  proof
    have "bit (push_bit 12 (a div 4096)) n" using that q by simp
    then show "12 \<le> n" by (simp add: bit_push_bit_iff)
    have "bit (take_bit 52 a) n" using that t by simp
    then show "n < 52" by (simp add: bit_take_bit_iff)
  qed
  then show "bit (word_of_nat a AND ADDR_MASK) n = bit (word_of_nat a :: u64) n"
    using n by (auto simp: m bit_and_iff bit_push_bit_iff bit_mask_iff bit_of_nat_iff)
qed

definition pte_of :: "nat \<Rightarrow> u64" where
  "pte_of a = word_of_nat a OR PTE_P OR PTE_RW"

lemma pte_of_bits:
  assumes "a mod 4096 = 0" and "a < 2 ^ 52"
  shows "unat (pte_of a AND ADDR_MASK) = a" "pte_of a AND PTE_P \<noteq> 0" "pte_of a AND PTE_RW \<noteq> 0"
proof -
  have "pte_of a AND ADDR_MASK = word_of_nat a" by (simp add: pte_of_def bit.conj_disj_distrib2 addr_bits [OF assms] type_consts)
  then show "unat (pte_of a AND ADDR_MASK) = a" using assms(2) by (simp add: unat_of_nat)
  have "word_of_nat a AND PTE_P = (word_of_nat a AND ADDR_MASK) AND PTE_P" "word_of_nat a AND PTE_RW = (word_of_nat a AND ADDR_MASK) AND PTE_RW"
    by (simp_all only: addr_bits [OF assms])
  then have "word_of_nat a AND PTE_P = 0" "word_of_nat a AND PTE_RW = 0"
    by (simp_all add: and.assoc and.commute [of ADDR_MASK] type_consts)
  then show "pte_of a AND PTE_P \<noteq> 0" "pte_of a AND PTE_RW \<noteq> 0"
    by (simp_all add: pte_of_def bit.conj_disj_distrib2 type_consts)
qed

section \<open>What the processor sees\<close>

text \<open>The tables are in different pages that the entries can name.\<close>

definition valid_table :: "table \<Rightarrow> bool" where
  "valid_table t = (case t of Pd gb \<Rightarrow> gb < 4 | Pt gb i \<Rightarrow> gb < 4 \<and> i < 512 | _ \<Rightarrow> True)"

definition good_layout :: "layout \<Rightarrow> (u64 \<Rightarrow> table option) \<Rightarrow> bool" where
  "good_layout lay which \<longleftrightarrow> (\<forall>t. valid_table t \<longrightarrow> lay t AND ADDR_MASK = lay t \<and> which (lay t) = Some t)"

text \<open>The identity map, up to the memory types of the pages.\<close>

definition page_addr :: "nat \<Rightarrow> nat \<Rightarrow> nat \<Rightarrow> nat" where
  "page_addr gb i e = gb * 2 ^ 30 + i * 2 ^ 21 + e * 4096"

definition identity_tables :: "layout \<Rightarrow> paging \<Rightarrow> bool" where
  "identity_tables lay s \<longleftrightarrow>
     (\<forall>i < 512. entries s Pml4 i = (if i = 0 then link_entry lay Pdpt else 0)) \<and>
     (\<forall>i < 512. entries s Pdpt i = (if i < 4 then link_entry lay (Pd i) else 0)) \<and>
     (\<forall>gb < 4. \<forall>i < 512. entries s (Pd gb) i = link_entry lay (Pt gb i)) \<and>
     (\<forall>gb < 4. \<forall>i < 512. \<forall>e < 512. entries s (Pt gb i) e AND NOT TYPE_BITS = pte_of (page_addr gb i e) AND NOT TYPE_BITS)"

definition identity_mapped :: "layout \<Rightarrow> paging \<Rightarrow> bool" where
  "identity_mapped lay s \<longleftrightarrow> identity_tables lay s \<and> cr3 s = lay Pml4"

lemma link_level:
  assumes "good_layout lay which" and "valid_table t"
  shows "link_entry lay t AND ADDR_MASK = lay t" "link_entry lay t AND PTE_P \<noteq> 0" "which (lay t) = Some t" "lay t AND ADDR_MASK = lay t"
proof -
  have a: "lay t AND ADDR_MASK = lay t" "which (lay t) = Some t" using assms by (simp_all add: good_layout_def)
  show "link_entry lay t AND ADDR_MASK = lay t" by (simp add: link_entry_def bit.conj_disj_distrib2 a type_consts)
  have "lay t AND PTE_P = (lay t AND ADDR_MASK) AND PTE_P" by (simp only: a)
  then have "lay t AND PTE_P = 0" by (simp add: and.assoc and.commute [of ADDR_MASK] type_consts)
  then show "link_entry lay t AND PTE_P \<noteq> 0" by (simp add: link_entry_def bit.conj_disj_distrib2 type_consts)
  show "which (lay t) = Some t" "lay t AND ADDR_MASK = lay t" by (rule a)+
qed

lemma split_va:
  fixes va :: nat
  shows "page_addr (va div 2 ^ 30 mod 4) (va div 2 ^ 21 mod 512) (va div 2 ^ 12 mod 512) = va mod 2 ^ 32 div 4096 * 4096"
proof -
  have "va div 2 ^ 21 = va div 4096 div 512" "va div 2 ^ 30 = va div 4096 div 512 div 512" by (simp_all add: div_mult2_eq [symmetric])
  moreover have "va mod 2 ^ 32 div 4096 = va div 4096 mod 2 ^ 20" using mod_mult2_eq [of va 4096 "2 ^ 20"] by simp
  moreover have "q mod 2 ^ 20 = (q div 512 div 512 mod 4) * 2 ^ 18 + (q div 512 mod 512) * 512 + q mod 512" for q :: nat
    using mod_mult2_eq [of q 512 "512 * 4"] mod_mult2_eq [of "q div 512" 512 4] by simp
  ultimately show ?thesis by (simp add: page_addr_def algebra_simps)
qed

lemma page_addr_bounds: "gb < 4 \<Longrightarrow> i < 512 \<Longrightarrow> e < 512 \<Longrightarrow> page_addr gb i e mod 4096 = 0 \<and> page_addr gb i e < 2 ^ 52"
  by (auto simp: page_addr_def mod_eq_0_iff_dvd intro!: dvd_add)

lemma identity_translate:
  assumes l: "good_layout lay which" and m: "identity_mapped lay s" and va: "va < 2 ^ 32"
  shows "walk_pte which s va = (case get_pte va of (t, e) \<Rightarrow> Some (entries s t e))" "translate which s va = Some va"
    "(case get_pte va of (t, e) \<Rightarrow> entries s t e AND PTE_P \<noteq> 0 \<and> entries s t e AND PTE_RW \<noteq> 0)"
proof -
  define gb i e where "gb = va div 2 ^ 30 mod 4" "i = va div 2 ^ 21 mod 512" "e = va div 2 ^ 12 mod 512"
  have b: "gb < 4" "i < 512" "e < 512" by (simp_all add: gb_i_e_def)
  let ?p = "entries s (Pt gb i) e"
  have q: "va div 2 ^ 39 mod 512 = 0" "va div 2 ^ 30 mod 512 = gb" using va by (simp_all add: gb_i_e_def div_less)
  have r: "?p AND NOT TYPE_BITS = pte_of (page_addr gb i e) AND NOT TYPE_BITS" using m b by (simp add: identity_mapped_def identity_tables_def)
  note f = pte_of_bits [OF conjunct1 [OF page_addr_bounds [OF b]] conjunct2 [OF page_addr_bounds [OF b]]]
  have p: "?p AND PTE_P \<noteq> 0" "?p AND PTE_RW \<noteq> 0" "unat (?p AND ADDR_MASK) = page_addr gb i e"
    using rest_bits [OF r] f by simp_all
  have lv: "valid_table Pml4" "valid_table Pdpt" "valid_table (Pd gb)" "valid_table (Pt gb i)" using b by (simp_all add: valid_table_def)
  have en: "cr3 s = lay Pml4" "entries s Pml4 0 = link_entry lay Pdpt" "entries s Pdpt gb = link_entry lay (Pd gb)"
    "entries s (Pd gb) i = link_entry lay (Pt gb i)" using m b by (simp_all add: identity_mapped_def identity_tables_def)
  have pa: "page_addr gb i e = va div 4096 * 4096" unfolding gb_i_e_def split_va using va by simp
  have w: "walk_pte which s va = Some ?p"
    unfolding walk_pte_def q gb_i_e_def(2,3) [symmetric]
    by (simp add: en next_level_def table_of_def p(1) link_level [OF l lv(1)] link_level [OF l lv(2)] link_level [OF l lv(3)]
      link_level [OF l lv(4)])
  then show "walk_pte which s va = (case get_pte va of (t, e) \<Rightarrow> Some (entries s t e))"
    by (simp add: get_pte_def gb_i_e_def)
  show "translate which s va = Some va"
    unfolding translate_def w using p(3) pa div_mult_mod_eq [of va 4096] by simp
  show "(case get_pte va of (t, e) \<Rightarrow> entries s t e AND PTE_P \<noteq> 0 \<and> entries s t e AND PTE_RW \<noteq> 0)"
    using p by (simp add: get_pte_def gb_i_e_def)
qed

lemma identity_unmapped:
  assumes l: "good_layout lay which" and m: "identity_mapped lay s" and va: "2 ^ 32 \<le> va" "va < 2 ^ 48"
  shows "translate which s va = None"
proof (cases "va div 2 ^ 39 mod 512 = 0")
  case True
  have v: "valid_table Pml4" "valid_table Pdpt" by (simp_all add: valid_table_def)
  have "va div 2 ^ 39 < 512" using va(2) by (simp add: div_less_iff_less_mult)
  then have "va div 2 ^ 39 = 0" using True by simp
  then have "va < 2 ^ 39" by (simp add: div_eq_0_iff)
  then have "va div 2 ^ 30 < 512" "4 \<le> va div 2 ^ 30" using va(1) by (simp_all add: div_less_iff_less_mult less_eq_div_iff_mult_less_eq)
  then have "entries s Pdpt (va div 2 ^ 30 mod 512) = 0" using m by (simp add: identity_mapped_def identity_tables_def)
  moreover have "cr3 s = lay Pml4" "entries s Pml4 0 = link_entry lay Pdpt" using m by (simp_all add: identity_mapped_def identity_tables_def)
  ultimately show ?thesis
    unfolding translate_def walk_pte_def True by (simp add: next_level_def table_of_def link_level [OF l v(1)] link_level [OF l v(2)])
next
  case False
  then have "entries s Pml4 (va div 2 ^ 39 mod 512) = 0" using m by (simp add: identity_mapped_def identity_tables_def)
  moreover have "valid_table Pml4" by (simp add: valid_table_def)
  ultimately show ?thesis
    using m by (simp add: translate_def walk_pte_def identity_mapped_def identity_tables_def next_level_def table_of_def link_level [OF l])
qed

section \<open>Changing memory types\<close>

lemma identity_present:
  assumes "identity_tables lay s" and "get_pte va = (t, e)"
  shows "entries s t e AND PTE_P \<noteq> 0"
proof -
  define gb i where "gb = va div 2 ^ 30 mod 4" "i = va div 2 ^ 21 mod 512"
  have b: "gb < 4" "i < 512" "e < 512" "t = Pt gb i" using assms(2) by (auto simp: gb_i_def get_pte_def)
  then have "entries s t e AND NOT TYPE_BITS = pte_of (page_addr gb i e) AND NOT TYPE_BITS" using assms(1) by (simp add: identity_tables_def)
  from rest_bits(1) [OF this] show ?thesis
    using pte_of_bits(2) [of "page_addr gb i e"] page_addr_bounds [OF b(1-3)] by simp
qed

lemma get_pte_same: "get_pte a = get_pte b \<longleftrightarrow> a mod 2 ^ 32 div 4096 = b mod 2 ^ 32 div 4096"
proof
  assume "get_pte a = get_pte b"
  then have "page_addr (a div 2 ^ 30 mod 4) (a div 2 ^ 21 mod 512) (a div 2 ^ 12 mod 512) =
      page_addr (b div 2 ^ 30 mod 4) (b div 2 ^ 21 mod 512) (b div 2 ^ 12 mod 512)"
    by (simp add: get_pte_def)
  then show "a mod 2 ^ 32 div 4096 = b mod 2 ^ 32 div 4096" unfolding split_va by simp
next
  have e: "va div 2 ^ 30 mod 4 = va mod 2 ^ 32 div 4096 div 2 ^ 18 mod 4" "va div 2 ^ 21 mod 512 = va mod 2 ^ 32 div 4096 div 512 mod 512"
    "va div 2 ^ 12 mod 512 = va mod 2 ^ 32 div 4096 mod 512" for va :: nat
  proof -
    have "va mod 2 ^ 32 div 4096 = va div 4096 mod 2 ^ 20" using mod_mult2_eq [of va 4096 "2 ^ 20"] by simp
    moreover have "q mod 2 ^ 20 div 2 ^ 18 mod 4 = q div 2 ^ 18 mod 4" for q :: nat using mod_mult2_eq [of q "2 ^ 18" 4] by simp
    moreover have "q mod 2 ^ 20 div 512 mod 512 = q div 512 mod 512" for q :: nat
    proof -
      have "q mod 2 ^ 20 div 512 = q div 512 mod 2048" using mod_mult2_eq [of q 512 2048] by simp
      then show ?thesis using mod_mod_cancel [of 512 2048 "q div 512"] by simp
    qed
    moreover have "q mod 2 ^ 20 mod 512 = q mod 512" for q :: nat by (simp add: mod_mod_cancel)
    moreover have "va div 2 ^ 21 = va div 4096 div 512" "va div 2 ^ 30 = va div 4096 div 2 ^ 18" by (simp_all add: div_mult2_eq [symmetric])
    ultimately show "va div 2 ^ 30 mod 4 = va mod 2 ^ 32 div 4096 div 2 ^ 18 mod 4"
      "va div 2 ^ 21 mod 512 = va mod 2 ^ 32 div 4096 div 512 mod 512" "va div 2 ^ 12 mod 512 = va mod 2 ^ 32 div 4096 mod 512"
      by simp_all
  qed
  assume "a mod 2 ^ 32 div 4096 = b mod 2 ^ 32 div 4096"
  then show "get_pte a = get_pte b" unfolding get_pte_def e by simp
qed

text \<open>What changing the type of one page does.\<close>

definition set_type :: "nat \<Rightarrow> arch_paging_memtype_t \<Rightarrow> paging \<Rightarrow> paging" where
  "set_type va type s =
     (case get_pte va of (t, e) \<Rightarrow> arch_tlb_flush_one va (set_entry t e (apply_type_to_pte (entries s t e) type) s))"

lemma set_type_keeps:
  assumes "identity_tables lay s"
  shows "identity_tables lay (set_type va type s)" "cr3 (set_type va type s) = cr3 s" "identity_done (set_type va type s) = identity_done s"
    "flushed (set_type va type s) = va # flushed s"
  using assms
  by (auto simp: set_type_def get_pte_def arch_tlb_flush_one_def set_entry_def identity_tables_def apply_rest)

lemma set_type_memtype:
  assumes "identity_tables lay s"
  shows "arch_paging_get_memtype (set_type va type s) a =
    (if a mod 2 ^ 32 div 4096 = va mod 2 ^ 32 div 4096 then type else arch_paging_get_memtype s a)"
proof -
  obtain t e where g: "get_pte va = (t, e)" by (cases "get_pte va")
  obtain u f where h: "get_pte a = (u, f)" by (cases "get_pte a")
  have eq: "a mod 2 ^ 32 div 4096 = va mod 2 ^ 32 div 4096 \<longleftrightarrow> u = t \<and> f = e" using get_pte_same [of a va] g h by auto
  have "apply_type_to_pte (entries s t e) type AND PTE_P \<noteq> 0"
    using rest_bits(1) [OF apply_rest [of "entries s t e" type]] identity_present [OF assms g] by simp
  then show ?thesis
    unfolding eq by (simp add: arch_paging_get_memtype_def set_type_def g h arch_tlb_flush_one_def set_entry_def apply_type)
qed

fun set_types :: "nat list \<Rightarrow> arch_paging_memtype_t \<Rightarrow> paging \<Rightarrow> paging" where
  "set_types [] type s = s"
| "set_types (a # as) type s = set_types as type (set_type a type s)"

lemma set_types_keeps:
  assumes "identity_tables lay s"
  shows "identity_tables lay (set_types as type s) \<and> cr3 (set_types as type s) = cr3 s \<and> set (flushed (set_types as type s)) = set as \<union> set (flushed s) \<and>
    arch_paging_get_memtype (set_types as type s) a =
      (if \<exists>b \<in> set as. a mod 2 ^ 32 div 4096 = b mod 2 ^ 32 div 4096 then type else arch_paging_get_memtype s a)"
  using assms
proof (induction as arbitrary: s)
  case (Cons b as)
  note k = set_type_keeps [OF Cons.prems, of b type]
  show ?case using Cons.IH [OF k(1)] k set_type_memtype [OF Cons.prems, of b type a] by auto
qed simp

lemma set_loop_types:
  assumes "identity_tables lay s"
  shows "set_loop is start type c s = (c + length is, set_types (map (\<lambda>i. add64 start (i * 4096)) is) type s)"
  using assms
proof (induction "is" arbitrary: c s)
  case (Cons i "is")
  obtain t e where g: "get_pte (add64 start (i * 4096)) = (t, e)" by (cases "get_pte (add64 start (i * 4096))")
  have "entries s t e AND PTE_P \<noteq> 0" by (rule identity_present [OF Cons.prems g])
  then show ?case
    using Cons.IH [OF set_type_keeps(1) [OF Cons.prems, of "add64 start (i * 4096)" type]] by (simp add: g set_type_def)
qed simp

lemma map_loop_types:
  assumes "identity_tables lay s"
  shows "map_loop is phys virt fl type s = set_types (map (\<lambda>i. add64 virt (i * 4096)) is) type s"
  using assms
proof (induction "is" arbitrary: s)
  case (Cons i "is")
  obtain t e where g: "get_pte (add64 virt (i * 4096)) = (t, e)" by (cases "get_pte (add64 virt (i * 4096))")
  have "entries s t e AND PTE_P \<noteq> 0" by (rule identity_present [OF Cons.prems g])
  then show ?case
    using Cons.IH [OF set_type_keeps(1) [OF Cons.prems, of "add64 virt (i * 4096)" type]] by (simp add: g set_type_def Let_def)
qed simp

section \<open>Building the map\<close>

lemma entries_set_entry: "entries (set_entry t i e s) u j = (if u = t \<and> j = i then e else entries s u j)"
  by (simp add: set_entry_def)

lemma fold_row: "entries (fold (\<lambda>i. set_entry t i (f i)) [0..<n] s) u j = (if u = t \<and> j < n then f j else entries s u j)"
  by (induction n) (auto simp: entries_set_entry less_Suc_eq)

lemma entries_fill_pt:
  "entries (fill_pt gb i s) u j = (if u = Pt gb i \<and> j < 512 then pte_of (page_addr gb i j) else entries s u j)"
  by (simp add: fill_pt_def Let_def fold_row pte_of_def page_addr_def del: upt_conv_Cons)

lemma entries_fill_pd:
  "entries (fold (\<lambda>pt_index s. fill_pt gb pt_index (set_entry (Pd gb) pt_index (link_entry lay (Pt gb pt_index)) s)) [0..<n] s) u j =
     (if u = Pd gb \<and> j < n then link_entry lay (Pt gb j)
      else case u of Pt g i \<Rightarrow> if g = gb \<and> i < n \<and> j < 512 then pte_of (page_addr g i j) else entries s u j | _ \<Rightarrow> entries s u j)"
  by (induction n) (auto simp: entries_fill_pt entries_set_entry less_Suc_eq split: table.splits)

lemma entries_fill_all:
  "entries (fold (fill_pd lay) [0..<n] s) u j =
     (case u of Pd g \<Rightarrow> if g < n \<and> j < 512 then link_entry lay (Pt g j) else entries s u j
      | Pt g i \<Rightarrow> if g < n \<and> i < 512 \<and> j < 512 then pte_of (page_addr g i j) else entries s u j
      | _ \<Rightarrow> entries s u j)"
  by (induction n) (auto simp: fill_pd_def [abs_def] entries_fill_pd less_Suc_eq split: table.splits)

lemma entries_zero:
  "entries (fold (\<lambda>i s. fold (\<lambda>t. set_entry t i 0) ts s) [0..<n] s) u j = (if u \<in> set ts \<and> j < n then 0 else entries s u j)"
proof (induction n)
  case (Suc n)
  have "entries (fold (\<lambda>t. set_entry t i 0) ts s) u j = (if u \<in> set ts \<and> j = i then 0 else entries s u j)" for i s
    by (induction ts arbitrary: s) (auto simp: entries_set_entry)
  then show ?case using Suc by (auto simp: less_Suc_eq)
qed simp

lemma identity_built:
  fixes lay s
  defines "s1 \<equiv> set_entry Pml4 0 (link_entry lay Pdpt) (zero_tables (s\<lparr>identity_done := True\<rparr>))"
  defines "s2 \<equiv> fold (fill_pd lay) [0..<4] (fold (\<lambda>gb. set_entry Pdpt gb (link_entry lay (Pd gb))) [0..<4] s1)"
  shows "identity_tables lay s2" and "\<forall>gb < 4. \<forall>i < 512. \<forall>e < 512. entries s2 (Pt gb i) e = pte_of (page_addr gb i e)"
proof -
  have z: "entries s1 Pml4 i = (if i = 0 then link_entry lay Pdpt else 0)" "entries s1 Pdpt i = 0" if "i < 512" for i
    unfolding s1_def zero_tables_def entries_set_entry entries_zero using that by simp_all
  have e: "entries s2 u j = (case u of Pd g \<Rightarrow> if g < 4 \<and> j < 512 then link_entry lay (Pt g j) else entries s1 u j
      | Pt g i \<Rightarrow> if g < 4 \<and> i < 512 \<and> j < 512 then pte_of (page_addr g i j) else entries s1 u j
      | Pdpt \<Rightarrow> if j < 4 then link_entry lay (Pd j) else entries s1 u j | Pml4 \<Rightarrow> entries s1 u j)" for u j
    unfolding s2_def entries_fill_all fold_row by (auto split: table.splits)
  show "\<forall>gb < 4. \<forall>i < 512. \<forall>e < 512. entries s2 (Pt gb i) e = pte_of (page_addr gb i e)" by (simp add: e)
  have "entries s2 Pml4 i = (if i = 0 then link_entry lay Pdpt else 0)" if "i < 512" for i using that by (simp add: e z)
  moreover have "entries s2 Pdpt i = (if i < 4 then link_entry lay (Pd i) else 0)" if "i < 512" for i using that by (simp add: e z)
  ultimately show "identity_tables lay s2" by (simp add: identity_tables_def e)
qed

text \<open>A range inside the first 4 GiB.\<close>

lemma set_memtype_range:
  assumes "identity_tables lay s" and "0 < len" and "start + len \<le> 2 ^ 32"
  shows "\<exists>as. arch_paging_set_memtype start len type s = (True, set_types as type s) \<and>
      set as = {page_start start + i * 4096 | i. page_start start + i * 4096 < page_end start len}" (is ?S)
    and "page_start a = a div 4096 * 4096" and "page_end start len = (start + len + 4095) div 4096 * 4096"
proof -
  show e: "page_end start len = (start + len + 4095) div 4096 * 4096" using assms(3) by (simp add: page_end_def)
  show "page_start a = a div 4096 * 4096" by (simp add: page_start_def)
  let ?s = "page_start start" and ?e = "page_end start len"
  have le: "?s \<le> ?e" unfolding e page_start_def by (intro mult_le_mono1 div_le_mono) simp
  have dv: "4096 dvd ?e - ?s" unfolding e page_start_def by (intro dvd_diff_nat) simp_all
  have "?e \<le> start + len + 4095" unfolding e by (rule div_times_less_eq_dividend)
  then have s64: "sub64 ?e ?s = ?e - ?s" using le assms(3) by (intro sub64_le) simp_all
  let ?n = "(?e - ?s) div 4096"
  have n: "i < ?n \<longleftrightarrow> ?s + i * 4096 < ?e" for i using dv le by (auto elim!: dvdE)
  have a: "add64 ?s (i * 4096) = ?s + i * 4096" if "i < ?n" for i
    using n [of i] that \<open>?e \<le> start + len + 4095\<close> assms(3) by (simp add: add64_def)
  have "arch_paging_set_memtype start len type s = (True, set_types (map (\<lambda>i. add64 ?s (i * 4096)) [0..<?n]) type s)"
    using assms(2) by (simp add: arch_paging_set_memtype_def set_loop_types [OF assms(1)] s64 Let_def)
  moreover have "set (map (\<lambda>i. add64 ?s (i * 4096)) [0..<?n]) = {?s + i * 4096 | i. ?s + i * 4096 < ?e}"
    using a n by (auto simp: image_iff)
  ultimately show ?S by blast
qed

lemma set_memtype_effect:
  assumes m: "identity_tables lay s" and r: "0 < len" "start + len \<le> 2 ^ 32"
  shows "\<exists>s'. arch_paging_set_memtype start len type s = (True, s') \<and> identity_tables lay s' \<and> cr3 s' = cr3 s \<and>
    (\<forall>a < 2 ^ 32. arch_paging_get_memtype s' a =
       (if start div 4096 \<le> a div 4096 \<and> a div 4096 \<le> (start + len - 1) div 4096 then type else arch_paging_get_memtype s a)) \<and>
    (\<forall>a. a mod 4096 = 0 \<longrightarrow> start div 4096 \<le> a div 4096 \<longrightarrow> a div 4096 \<le> (start + len - 1) div 4096 \<longrightarrow> a \<in> set (flushed s'))"
proof -
  obtain as where as: "arch_paging_set_memtype start len type s = (True, set_types as type s)"
    "set as = {page_start start + i * 4096 | i. page_start start + i * 4096 < page_end start len}"
    using set_memtype_range(1) [OF m r] by blast
  note e = set_memtype_range(2,3) [OF m r]
  have "start + len + 4095 = start + len - 1 + 4096" using r(1) by simp
  then have pe: "page_end start len = ((start + len - 1) div 4096 + 1) * 4096" unfolding e(2) by (metis div_add_self2 zero_neq_numeral)
  have mem: "b \<in> set as \<longleftrightarrow> b mod 4096 = 0 \<and> start div 4096 \<le> b div 4096 \<and> b div 4096 \<le> (start + len - 1) div 4096" for b
  proof
    assume "b \<in> set as"
    then obtain i where "b = (start div 4096 + i) * 4096" "b < ((start + len - 1) div 4096 + 1) * 4096"
      unfolding as(2) pe e(1) by (auto simp: add_mult_distrib)
    then show "b mod 4096 = 0 \<and> start div 4096 \<le> b div 4096 \<and> b div 4096 \<le> (start + len - 1) div 4096" by simp
  next
    assume b: "b mod 4096 = 0 \<and> start div 4096 \<le> b div 4096 \<and> b div 4096 \<le> (start + len - 1) div 4096"
    then have "b = (start div 4096 + (b div 4096 - start div 4096)) * 4096" using div_mult_mod_eq [of b 4096] by simp
    moreover have "b < ((start + len - 1) div 4096 + 1) * 4096" using b div_mult_mod_eq [of b 4096] by simp
    ultimately show "b \<in> set as" unfolding as(2) pe e(1) by (auto simp: add_mult_distrib)
  qed
  have bound: "(start + len - 1) div 4096 < 2 ^ 20" using r by (simp add: div_less_iff_less_mult)
  have small: "b mod 2 ^ 32 = b" if "b \<in> set as" for b
    using that bound div_mult_mod_eq [of b 4096] unfolding mem by simp
  have "(\<exists>b \<in> set as. a mod 2 ^ 32 div 4096 = b mod 2 ^ 32 div 4096) \<longleftrightarrow>
      start div 4096 \<le> a div 4096 \<and> a div 4096 \<le> (start + len - 1) div 4096" if "a < 2 ^ 32" for a
  proof
    assume "\<exists>b \<in> set as. a mod 2 ^ 32 div 4096 = b mod 2 ^ 32 div 4096"
    then show "start div 4096 \<le> a div 4096 \<and> a div 4096 \<le> (start + len - 1) div 4096" using that small mem by auto
  next
    assume "start div 4096 \<le> a div 4096 \<and> a div 4096 \<le> (start + len - 1) div 4096"
    then have "a div 4096 * 4096 \<in> set as" unfolding mem by simp
    then show "\<exists>b \<in> set as. a mod 2 ^ 32 div 4096 = b mod 2 ^ 32 div 4096" using that small by (intro bexI) simp_all
  qed
  then show ?thesis using as(1) set_types_keeps [OF m, of as type] mem by auto
qed

lemma set_memtype_page:
  assumes m: "identity_tables lay s" and p: "p < 2 ^ 20"
  shows "\<exists>s'. arch_paging_set_memtype (p * 4096) 4096 type s = (True, s') \<and> identity_tables lay s' \<and>
    (\<forall>a < 2 ^ 32. arch_paging_get_memtype s' a = (if a div 4096 = p then type else arch_paging_get_memtype s a))"
proof -
  have "p * 4096 div 4096 = p" "(p * 4096 + 4096 - 1) div 4096 = p" by simp_all
  moreover have "p \<le> x \<and> x \<le> p \<longleftrightarrow> x = p" for x by auto
  ultimately show ?thesis using set_memtype_effect [OF m, of 4096 "p * 4096" type] p by auto
qed

lemma pte_of_write_back:
  assumes "a mod 4096 = 0" and "a < 2 ^ 52"
  shows "pte_memtype (pte_of a) = ARCH_PAGING_MT_WB"
proof -
  have "word_of_nat a AND b = 0" if "ADDR_MASK AND b = 0" for b :: u64
    using addr_bits [OF assms] that by (metis and.assoc and_zero_eq)
  then show ?thesis by (simp add: pte_memtype_def pte_of_def bit.conj_disj_distrib2 Let_def pte_defs ADDR_MASK_def)
qed

text \<open>Two addresses 4 GiB apart share their entry, so the entries of the first 4 GiB are what a caller gets
  and changes for any address above.\<close>

lemma get_pte_aliases: "get_pte (va + 2 ^ 32) = get_pte va"
  by (simp add: get_pte_same)

text \<open>The map that is built, with its memory types.\<close>

lemma identity_map_result:
  assumes n: "\<not> identity_done s"
  shows "identity_mapped lay (amd64_map_identity_low_4g lay s)"
    "\<forall>va < 2 ^ 32. arch_paging_get_memtype (amd64_map_identity_low_4g lay s) va =
       (if va div 4096 = 0xFEC00 \<or> va div 4096 = 0xFEE00 then ARCH_PAGING_MT_UC else ARCH_PAGING_MT_WB)"
proof -
  define s2 where "s2 = fold (fill_pd lay) [0..<4] (fold (\<lambda>gb. set_entry Pdpt gb (link_entry lay (Pd gb))) [0..<4]
      (set_entry Pml4 0 (link_entry lay Pdpt) (zero_tables (s\<lparr>identity_done := True\<rparr>))))"
  note b = identity_built [of lay s, folded s2_def]
  obtain s3 where s3: "arch_paging_set_memtype 0xFEC00000 4096 ARCH_PAGING_MT_UC s2 = (True, s3)" "identity_tables lay s3"
    "\<forall>a < 2 ^ 32. arch_paging_get_memtype s3 a = (if a div 4096 = 0xFEC00 then ARCH_PAGING_MT_UC else arch_paging_get_memtype s2 a)"
    using set_memtype_page [OF b(1), of "0xFEC00" ARCH_PAGING_MT_UC] by auto
  obtain s4 where s4: "arch_paging_set_memtype 0xFEE00000 4096 ARCH_PAGING_MT_UC s3 = (True, s4)" "identity_tables lay s4"
    "\<forall>a < 2 ^ 32. arch_paging_get_memtype s4 a = (if a div 4096 = 0xFEE00 then ARCH_PAGING_MT_UC else arch_paging_get_memtype s3 a)"
    using set_memtype_page [OF s3(2), of "0xFEE00" ARCH_PAGING_MT_UC] by auto
  let ?s = "s4\<lparr>cr3 := lay Pml4\<rparr>"
  have f: "amd64_map_identity_low_4g lay s = ?s"
    unfolding amd64_map_identity_low_4g_def Let_def s2_def [symmetric] using n s3(1) s4(1) by simp
  have m: "identity_mapped lay ?s" using s4(2) by (simp add: identity_mapped_def identity_tables_def)
  have "arch_paging_get_memtype s2 va = ARCH_PAGING_MT_WB" for va
  proof -
    obtain gb i e where g: "get_pte va = (Pt gb i, e)" "gb < 4" "i < 512" "e < 512" by (auto simp: get_pte_def)
    then have "entries s2 (Pt gb i) e = pte_of (page_addr gb i e)" using b(2) by simp
    then show ?thesis
      using g page_addr_bounds [OF g(2-4)] by (simp add: arch_paging_get_memtype_def pte_of_bits pte_of_write_back)
  qed
  then have ty: "arch_paging_get_memtype ?s va = (if va div 4096 = 0xFEC00 \<or> va div 4096 = 0xFEE00 then ARCH_PAGING_MT_UC else ARCH_PAGING_MT_WB)"
    if "va < 2 ^ 32" for va
    using s3(3) s4(3) that by (simp add: arch_paging_get_memtype_def)
  show "identity_mapped lay (amd64_map_identity_low_4g lay s)" unfolding f by (rule m)
  show "\<forall>va < 2 ^ 32. arch_paging_get_memtype (amd64_map_identity_low_4g lay s) va =
       (if va div 4096 = 0xFEC00 \<or> va div 4096 = 0xFEE00 then ARCH_PAGING_MT_UC else ARCH_PAGING_MT_WB)"
    unfolding f using ty by blast
qed

section \<open>A layout\<close>

definition demo_layout :: layout where
  "demo_layout t = word_of_nat (4096 *
     (case t of Pml4 \<Rightarrow> 1 | Pdpt \<Rightarrow> 2 | Pd gb \<Rightarrow> 3 + gb | Pt gb i \<Rightarrow> 7 + 512 * gb + i))"

definition demo_which :: "u64 \<Rightarrow> table option" where
  "demo_which a =
     (let n = unat a div 4096
      in if n = 0 then None else if n = 1 then Some Pml4 else if n = 2 then Some Pdpt else if n < 7 then Some (Pd (n - 3))
         else Some (Pt ((n - 7) div 512) ((n - 7) mod 512)))"

lemma demo_layout_good: "good_layout demo_layout demo_which"
proof -
  have "demo_layout t AND ADDR_MASK = demo_layout t \<and> demo_which (demo_layout t) = Some t" if "valid_table t" for t
  proof -
    define n where "n = (case t of Pml4 \<Rightarrow> 1 | Pdpt \<Rightarrow> 2 | Pd gb \<Rightarrow> 3 + gb | Pt gb i \<Rightarrow> 7 + 512 * gb + i)"
    have n: "n < 4096" using that by (auto simp: n_def valid_table_def split: table.splits)
    have l: "demo_layout t = word_of_nat (4096 * n)" by (simp add: demo_layout_def n_def)
    have "unat (demo_layout t) = 4096 * n" unfolding l by (subst unat_of_nat) (use n in simp)
    then have "unat (demo_layout t) div 4096 = n" by simp
    then have "demo_which (demo_layout t) = Some t" using that by (auto simp: demo_which_def n_def valid_table_def Let_def split: table.splits)
    then show ?thesis using n addr_bits [of "4096 * n"] by (simp add: l)
  qed
  then show ?thesis by (simp add: good_layout_def)
qed

definition blank_paging :: paging where
  "blank_paging = \<lparr>entries = (\<lambda>_ _. 0), cr3 = 0, identity_done = False, flushed = []\<rparr>"

section \<open>Properties\<close>

text \<open>C0. After \<open>amd64_map_identity_low_4g\<close> the processor translates every address of the first 4 GiB to
  itself, through an entry that allows writing, and no address above; the two pages of the
  interrupt controllers are uncacheable and all others write-back.\<close>

theorem paging_identity:
  assumes l: "good_layout lay which" and n: "\<not> identity_done s"
  shows "let s' = amd64_map_identity_low_4g lay s
    in (\<forall>va < 2 ^ 32. translate which s' va = Some va \<and> (\<exists>pte. walk_pte which s' va = Some pte \<and> pte AND PTE_RW \<noteq> 0) \<and>
          arch_paging_get_memtype s' va = (if va div 4096 = 0xFEC00 \<or> va div 4096 = 0xFEE00 then ARCH_PAGING_MT_UC else ARCH_PAGING_MT_WB)) \<and>
       (\<forall>va. 2 ^ 32 \<le> va \<longrightarrow> va < 2 ^ 48 \<longrightarrow> translate which s' va = None)"
proof -
  note m = identity_map_result(1) [OF n, of lay]
  have "\<exists>pte. walk_pte which (amd64_map_identity_low_4g lay s) va = Some pte \<and> pte AND PTE_RW \<noteq> 0" if "va < 2 ^ 32" for va
    using identity_translate(1,3) [OF l m that] by (auto split: prod.splits)
  then show ?thesis
    using identity_translate(2) [OF l m] identity_unmapped [OF l m] identity_map_result(2) [OF n, of lay] unfolding Let_def by blast
qed

theorem paging_identity_witness:
  "translate demo_which (amd64_map_identity_low_4g demo_layout blank_paging) 0xB8123 = Some 0xB8123 \<and>
   arch_paging_get_memtype (amd64_map_identity_low_4g demo_layout blank_paging) 0xFEE00020 = ARCH_PAGING_MT_UC \<and>
   translate demo_which (amd64_map_identity_low_4g demo_layout blank_paging) 0x100000000 = None"
proof -
  have "\<not> identity_done blank_paging" by (simp add: blank_paging_def)
  note p = paging_identity [OF demo_layout_good this, unfolded Let_def]
  show ?thesis
    using p [THEN conjunct1, THEN spec [of _ "0xB8123"]] p [THEN conjunct1, THEN spec [of _ "0xFEE00020"]]
      p [THEN conjunct2, THEN spec [of _ "0x100000000"]] by simp
qed

text \<open>C0. \<open>arch_paging_set_memtype\<close> on a range of the first 4 GiB succeeds and gives exactly the pages the
  range touches the new memory type: every other page keeps its own, no translation changes, and
  each page changed is flushed from the translation buffer.\<close>

theorem paging_memtype_exact:
  assumes l: "good_layout lay which" and m: "identity_mapped lay s" and r: "0 < len" "start + len \<le> 2 ^ 32"
  shows "\<exists>s'. arch_paging_set_memtype start len type s = (True, s') \<and> identity_mapped lay s' \<and>
    (\<forall>a < 2 ^ 32. translate which s' a = translate which s a \<and> arch_paging_get_memtype s' a =
       (if start div 4096 \<le> a div 4096 \<and> a div 4096 \<le> (start + len - 1) div 4096 then type else arch_paging_get_memtype s a)) \<and>
    (\<forall>a. a mod 4096 = 0 \<longrightarrow> start div 4096 \<le> a div 4096 \<longrightarrow> a div 4096 \<le> (start + len - 1) div 4096 \<longrightarrow> a \<in> set (flushed s'))"
proof -
  have "identity_tables lay s" "cr3 s = lay Pml4" using m by (simp_all add: identity_mapped_def)
  then obtain s' where s': "arch_paging_set_memtype start len type s = (True, s')" "identity_mapped lay s'"
    "\<forall>a < 2 ^ 32. arch_paging_get_memtype s' a =
       (if start div 4096 \<le> a div 4096 \<and> a div 4096 \<le> (start + len - 1) div 4096 then type else arch_paging_get_memtype s a)"
    "\<forall>a. a mod 4096 = 0 \<longrightarrow> start div 4096 \<le> a div 4096 \<longrightarrow> a div 4096 \<le> (start + len - 1) div 4096 \<longrightarrow> a \<in> set (flushed s')"
    using set_memtype_effect [OF _ r, of lay s type] unfolding identity_mapped_def by metis
  then show ?thesis using identity_translate(2) [OF l s'(2)] identity_translate(2) [OF l m] by auto
qed

theorem paging_memtype_exact_witness:
  "\<exists>s'. arch_paging_set_memtype 0xE0000800 0x1000 ARCH_PAGING_MT_WC (amd64_map_identity_low_4g demo_layout blank_paging) = (True, s') \<and>
     translate demo_which s' 0xE0001FFF = Some 0xE0001FFF \<and> arch_paging_get_memtype s' 0xE0001FFF = ARCH_PAGING_MT_WC \<and>
     arch_paging_get_memtype s' 0xE0002000 = ARCH_PAGING_MT_WB"
proof -
  let ?s = "amd64_map_identity_low_4g demo_layout blank_paging"
  have n: "\<not> identity_done blank_paging" by (simp add: blank_paging_def)
  note m = identity_map_result [OF n, of demo_layout]
  obtain s' where s': "arch_paging_set_memtype 0xE0000800 0x1000 ARCH_PAGING_MT_WC ?s = (True, s')"
    "\<forall>a < 2 ^ 32. translate demo_which s' a = translate demo_which ?s a \<and> arch_paging_get_memtype s' a =
       (if 0xE0000800 div 4096 \<le> a div 4096 \<and> a div 4096 \<le> (0xE0000800 + 0x1000 - 1) div 4096 then ARCH_PAGING_MT_WC else arch_paging_get_memtype ?s a)"
    using paging_memtype_exact [OF demo_layout_good m(1), of "0x1000" "0xE0000800" ARCH_PAGING_MT_WC] by (auto simp del: One_nat_def)
  show ?thesis
    using s'(1) s'(2) [rule_format, of "0xE0001FFF"] s'(2) [rule_format, of "0xE0002000"] m(2) [rule_format, of "0xE0002000"]
      identity_translate(2) [OF demo_layout_good m(1), of "0xE0001FFF"] by simp
qed

end
