(* ===== verification/Spec2Isabelle.thy ===== *)
theory Spec2Isabelle
  imports Linked_List Buffer_Queue Heap_Correct Pmm_Correct Convert Vfs_Correct Disk_Stream Volume Fat_Correct Paging
begin

text \<open>
  Verification of the AtomOS kernel.
\<close>

end
